(* ===== verification/Kernel_Prelude.thy ===== *)
theory Kernel_Prelude
  imports Main "HOL-Library.Word" "HOL-Library.Monad_Syntax"
begin

text \<open>
  Shared vocabulary of the development: the fixed-width integer types of
  \<^verbatim>\<open>src/kernel/types.h\<close>, pointers to thread control blocks, and the generic facts on
  null-terminated linked lists, option-valued steps, lists and words that the
  component theories use.

  Conventions. A C array with static extent is a total function from its index; the
  component theories prove that the indices the code computes stay within the extent.
  A pointer that may be \<open>NULL\<close> is an \<open>option\<close>. A loop that follows pointers may
  run forever on a cyclic list, so such loops return in the \<open>option\<close> monad and
  \<open>None\<close> means that the loop does not return; console output is not modelled.
\<close>

unbundle bit_operations_syntax

type_synonym u8 = "8 word"
type_synonym u16 = "16 word"
type_synonym u32 = "32 word"
type_synonym u64 = "64 word"

text \<open>The identity of a thread control block, and of a process control block.\<close>

type_synonym tptr = nat
type_synonym pptr = nat

text \<open>The architecture a file is compiled for: the branches of its \<open>#if defined\<close>.\<close>

datatype arch = X86_64 | AARCH64 | OTHER_ARCH

named_theorems kernel_simps \<open>unfolding rules for the operations of the model\<close>
named_theorems kernel_inv \<open>preservation of component invariants\<close>

subsection \<open>Null-terminated linked lists\<close>

text \<open>
  \<open>lchain nx p xs\<close>: following the link field \<open>nx\<close> from \<open>p\<close> visits exactly the
  nodes \<open>xs\<close> and then reaches \<open>NULL\<close>.
\<close>

primrec lchain :: "(nat \<Rightarrow> nat option) \<Rightarrow> nat option \<Rightarrow> nat list \<Rightarrow> bool" where
  "lchain nx p [] = (p = None)"
| "lchain nx p (x # xs) = (p = Some x \<and> lchain nx (nx x) xs)"

lemma lchain_None [simp]: "lchain nx None xs \<longleftrightarrow> xs = []"
  by (cases xs) auto

lemma lchain_Some: "lchain nx (Some a) xs \<longleftrightarrow> (\<exists>ys. xs = a # ys \<and> lchain nx (nx a) ys)"
  by (cases xs) auto

lemma lchain_cong:
  assumes "\<And>x. x \<in> set xs \<Longrightarrow> nx x = ny x"
  shows "lchain nx p xs = lchain ny p xs"
  using assms by (induction xs arbitrary: p) auto

lemma lchain_upd_other [simp]: "a \<notin> set xs \<Longrightarrow> lchain (nx(a := q)) p xs = lchain nx p xs"
  by (rule lchain_cong) auto

lemma lchain_det: "lchain nx p xs \<Longrightarrow> lchain nx p ys \<Longrightarrow> xs = ys"
proof (induction xs arbitrary: p ys)
  case Nil
  then show ?case by simp
next
  case (Cons x xs)
  then show ?case by (cases ys) auto
qed

text \<open>Appending a node: the last node's link is redirected to it.\<close>

lemma lchain_snoc:
  assumes "lchain nx p xs" and "a \<notin> set xs" and "distinct xs" and "xs \<noteq> []"
    and "ny a = None" and "ny (last xs) = Some a"
    and "\<And>x. x \<noteq> a \<Longrightarrow> x \<noteq> last xs \<Longrightarrow> ny x = nx x"
  shows "lchain ny p (xs @ [a])"
  using assms
proof (induction xs arbitrary: p)
  case Nil
  then show ?case by simp
next
  case (Cons x xs)
  show ?case
  proof (cases "xs = []")
    case True
    with Cons.prems show ?thesis by simp
  next
    case False
    then have "lchain ny (nx x) (xs @ [a])"
      using Cons.prems by (intro Cons.IH) auto
    moreover have "x \<noteq> last xs" and "x \<noteq> a"
      using Cons.prems False by auto
    ultimately show ?thesis
      using Cons.prems False by simp
  qed
qed

text \<open>Unlinking the node after a non-empty prefix: its predecessor skips it.\<close>

lemma lchain_unlink:
  assumes "lchain nx p (xs @ a # ys)" and "distinct (xs @ a # ys)" and "xs \<noteq> []"
    and "ny (last xs) = nx a"
    and "\<And>x. x \<noteq> a \<Longrightarrow> x \<noteq> last xs \<Longrightarrow> ny x = nx x"
  shows "lchain ny p (xs @ ys)"
  using assms
proof (induction xs arbitrary: p)
  case Nil
  then show ?case by simp
next
  case (Cons x xs)
  show ?case
  proof (cases "xs = []")
    case True
    moreover have "lchain ny (nx a) ys = lchain nx (nx a) ys"
    proof (rule lchain_cong)
      fix z
      assume "z \<in> set ys"
      then have "z \<noteq> a" and "z \<noteq> x" using Cons.prems(2) by auto
      then show "ny z = nx z" using Cons.prems(5) True by simp
    qed
    ultimately show ?thesis using Cons.prems by simp
  next
    case False
    then have "lchain ny (nx x) (xs @ ys)"
      using Cons.prems by (intro Cons.IH) auto
    moreover have "x \<noteq> last xs" and "x \<noteq> a"
      using Cons.prems False by auto
    ultimately show ?thesis
      using Cons.prems False by simp
  qed
qed

subsection \<open>Array updates in a loop\<close>

text \<open>A loop that rewrites each slot of a duplicate-free index list independently.\<close>

lemma fold_pointwise:
  assumes "\<And>t m. f t m = m(t := g (m t))" and "distinct ts"
  shows "fold f ts m x = (if x \<in> set ts then g (m x) else m x)"
  using assms(2)
proof (induction ts arbitrary: m)
  case Nil
  then show ?case by simp
next
  case (Cons t ts)
  then show ?case by (auto simp: assms(1))
qed

lemma length_filter_new:
  assumes "distinct ts" and "t \<in> set ts" and "\<not> P t" and "Q t"
    and "\<And>x. x \<in> set ts \<Longrightarrow> x \<noteq> t \<Longrightarrow> Q x = P x"
  shows "length (filter Q ts) = Suc (length (filter P ts))"
  using assms
proof (induction ts)
  case Nil
  then show ?case by simp
next
  case (Cons a ts)
  show ?case
  proof (cases "a = t")
    case True
    have "filter Q ts = filter P ts"
      using Cons.prems True by (intro filter_cong) auto
    with True Cons.prems show ?thesis by simp
  next
    case False
    then have "length (filter Q ts) = Suc (length (filter P ts))"
      using Cons.prems by (intro Cons.IH) auto
    with False Cons.prems show ?thesis by simp
  qed
qed

subsection \<open>Families of lists\<close>

lemma distinct_concat_map:
  assumes "distinct bs"
  shows "distinct (concat (map f bs)) \<longleftrightarrow>
    (\<forall>b \<in> set bs. distinct (f b)) \<and> (\<forall>b \<in> set bs. \<forall>c \<in> set bs. b \<noteq> c \<longrightarrow> set (f b) \<inter> set (f c) = {})"
  using assms
proof (induction bs)
  case Nil
  then show ?case by simp
next
  case (Cons b bs)
  have "set (f b) \<inter> (\<Union>x \<in> set bs. set (f x)) = {} \<longleftrightarrow> (\<forall>c \<in> set bs. set (f b) \<inter> set (f c) = {})"
    by auto
  then have "distinct (concat (map f (b # bs))) \<longleftrightarrow> distinct (f b)
      \<and> ((\<forall>b \<in> set bs. distinct (f b))
         \<and> (\<forall>b \<in> set bs. \<forall>c \<in> set bs. b \<noteq> c \<longrightarrow> set (f b) \<inter> set (f c) = {}))
      \<and> (\<forall>c \<in> set bs. set (f b) \<inter> set (f c) = {})"
    using Cons by simp
  moreover have "(\<forall>c \<in> set bs. b \<noteq> c \<longrightarrow> P c) = (\<forall>c \<in> set bs. P c)"
    and "(\<forall>c \<in> set bs. c \<noteq> b \<longrightarrow> P c) = (\<forall>c \<in> set bs. P c)" for P
    using Cons.prems by auto
  ultimately show ?case
    by (simp add: Int_commute [of _ "set (f b)"] ball_conj_distrib) blast
qed

lemma length_concat_map_upd:
  assumes "distinct bs" and "i \<in> set bs"
  shows "length (concat (map (f(i := xs)) bs)) + length (f i) = length (concat (map f bs)) + length xs"
  using assms
proof (induction bs)
  case Nil
  then show ?case by simp
next
  case (Cons b bs)
  show ?case
  proof (cases "b = i")
    case True
    then have "i \<notin> set bs" using Cons.prems by simp
    then have eq: "map (f(i := xs)) (b # bs) = xs # map f bs"
      using True by (simp del: map_eq_conv)
    show ?thesis unfolding eq by (simp add: True)
  next
    case False
    with Cons show ?thesis by simp
  qed
qed

subsection \<open>Counters kept in 32-bit words\<close>

lemma unat_of_nat_u32: "n < 4294967296 \<Longrightarrow> unat (of_nat n :: u32) = n"
  by (simp add: unat_of_nat)

lemma of_nat_u32_eq_0: "n < 4294967296 \<Longrightarrow> (of_nat n :: u32) = 0 \<longleftrightarrow> n = 0"
  using unat_of_nat_u32 [of n] by (auto simp: unat_eq_0 [symmetric])

lemma while_split:
  assumes "\<And>x. x \<in> set xs \<Longrightarrow> P x" and "\<And>y. y \<in> set ys \<Longrightarrow> \<not> P y"
  shows "takeWhile P (xs @ ys) = xs" and "dropWhile P (xs @ ys) = ys"
  using assms by (cases ys; simp add: takeWhile_append2 dropWhile_append2)+

lemma sorted_replicates: "sorted bs \<Longrightarrow> sorted (concat (map (\<lambda>i. replicate (f i) i) bs))"
  by (induction bs) (auto simp: sorted_append)

subsection \<open>Signed reading of 32-bit values\<close>

lemma uint_eq_unat: "uint (x :: u32) = int (unat x)"
  by simp

lemma sint_small: "unat (x :: u32) < 2 ^ 31 \<Longrightarrow> sint x = int (unat x)"
proof -
  assume "unat x < 2 ^ 31"
  then have "uint x < 2 ^ 31" unfolding uint_eq_unat by (metis of_nat_less_iff of_nat_numeral of_nat_power)
  moreover have "- (2 ^ 31) \<le> uint x" by (rule order_trans [of _ 0]) simp_all
  ultimately have "signed_take_bit 31 (uint x) = uint x"
    by (simp only: signed_take_bit_int_eq_self_iff)
  then show ?thesis by (simp add: sint_uint)
qed

lemma sint_large: "2 ^ 31 \<le> unat (x :: u32) \<Longrightarrow> sint x < 0"
proof -
  assume "2 ^ 31 \<le> unat x"
  moreover have "unat x < 2 ^ 32" using unsigned_less [of x] by simp
  ultimately have "unat x div 2 ^ 31 = 1" by simp
  then have "bit (unat x) 31" by (simp add: bit_iff_odd)
  then have "bit (uint x) 31" by (simp add: bit_unsigned_iff)
  then show ?thesis by (simp add: sint_uint)
qed

lemma unat_and_byte: "unat (x AND 0xFF :: u32) = unat x mod 256"
  using take_bit_eq_mask [of 8 x] unsigned_take_bit_eq [of 8 x]
  by (simp add: mask_eq_exp_minus_1 take_bit_eq_mod)

end
