(* ===== verification/Process.thy ===== *)
theory Process
  imports Kernel_Prelude
begin

text \<open>
  Kernel processes and threads: \<^verbatim>\<open>src/kernel/process/process.h\<close> and
  \<^verbatim>\<open>process.c\<close>. The thread control blocks live in a store \<open>tcbs\<close> indexed by their
  address, because the scheduler, the IPC channels and the process control block all
  hold pointers to the same blocks. A process control block embeds an array of four
  blocks; its field \<open>p_threads\<close> lists their addresses.
\<close>

subsection \<open>Data\<close>

datatype process_state_t =
    PROCESS_STATE_INIT
  | PROCESS_STATE_READY
  | PROCESS_STATE_RUNNING
  | PROCESS_STATE_BLOCKED
  | PROCESS_STATE_ZOMBIE

record cpu_context_t =
  ctx_sp :: u64
  ctx_ip :: u64
  ctx_flags :: u64

record thread_t =
  t_tid :: u32
  t_state :: process_state_t
  t_ctx :: cpu_context_t
  t_priority :: u32
  t_ticks_remaining :: u64
  t_total_ticks :: u64
  t_kstack_base :: u64
  t_managed_ctx :: u64
  t_name :: "char list"
  t_next :: "tptr option"

type_synonym tcbs = "tptr \<Rightarrow> thread_t"

record process_t =
  p_pid :: u32
  p_state :: process_state_t
  p_thread_count :: u32
  p_threads :: "tptr list"
  p_main_thread :: "tptr option"
  p_exit_code :: u32
  p_name :: "char list"
  p_next :: "pptr option"

abbreviation (input) PID_INVALID :: u32 where "PID_INVALID \<equiv> 0"
abbreviation (input) PID_KERNEL :: u32 where "PID_KERNEL \<equiv> 1"
abbreviation (input) TID_INVALID :: u32 where "TID_INVALID \<equiv> 0"
abbreviation (input) THREAD_NAME_MAX :: nat where "THREAD_NAME_MAX \<equiv> 32"
abbreviation (input) PROCESS_NAME_MAX :: nat where "PROCESS_NAME_MAX \<equiv> 32"
abbreviation (input) PROCESS_MAX_THREADS :: nat where "PROCESS_MAX_THREADS \<equiv> 4"
abbreviation NUL :: char where "NUL \<equiv> CHR 0x00"

subsection \<open>Helpers\<close>

text \<open>
  \<open>str_copy_n\<close>: the source string is the list of its characters; reading at its length
  yields the terminator. The buffer size \<open>n\<close> is 32 at every call.
\<close>

function str_copy_loop :: "char list \<Rightarrow> char list \<Rightarrow> nat \<Rightarrow> nat \<Rightarrow> char list" where
  "str_copy_loop dst src n i =
     (if i < n - 1 \<and> i < length src \<and> src ! i \<noteq> NUL
      then str_copy_loop (dst[i := src ! i]) src n (Suc i)
      else dst[i := NUL])"
  by pat_completeness auto
termination
  by (relation "measure (\<lambda>(dst, src, n, i). n - i)") auto

declare str_copy_loop.simps [simp del]

definition str_copy_n :: "char list \<Rightarrow> char list \<Rightarrow> nat \<Rightarrow> char list" where
  "str_copy_n dst src n = str_copy_loop dst src n 0"

text \<open>The string a buffer holds: its characters up to the terminator.\<close>

definition cstr :: "char list \<Rightarrow> char list" where
  "cstr buf = takeWhile (\<lambda>c. c \<noteq> NUL) buf"

definition thread_zeroed :: thread_t where
  "thread_zeroed = \<lparr>t_tid = 0, t_state = PROCESS_STATE_INIT,
     t_ctx = \<lparr>ctx_sp = 0, ctx_ip = 0, ctx_flags = 0\<rparr>,
     t_priority = 0, t_ticks_remaining = 0, t_total_ticks = 0,
     t_kstack_base = 0, t_managed_ctx = 0,
     t_name = replicate THREAD_NAME_MAX NUL, t_next = None\<rparr>"

definition thread_zero :: "tptr \<Rightarrow> tcbs \<Rightarrow> tcbs" where
  "thread_zero t m = m(t := thread_zeroed)"

definition process_zero :: "process_t \<Rightarrow> tcbs \<Rightarrow> process_t \<times> tcbs" where
  "process_zero p m =
     (\<lparr>p_pid = 0, p_state = PROCESS_STATE_INIT, p_thread_count = 0,
       p_threads = p_threads p, p_main_thread = None, p_exit_code = 0,
       p_name = replicate PROCESS_NAME_MAX NUL, p_next = None\<rparr>,
      fold thread_zero (p_threads p) m)"

definition process_state_name :: "process_state_t \<Rightarrow> string" where
  "process_state_name st =
     (case st of
        PROCESS_STATE_INIT \<Rightarrow> ''INIT''
      | PROCESS_STATE_READY \<Rightarrow> ''READY''
      | PROCESS_STATE_RUNNING \<Rightarrow> ''RUNNING''
      | PROCESS_STATE_BLOCKED \<Rightarrow> ''BLOCKED''
      | PROCESS_STATE_ZOMBIE \<Rightarrow> ''ZOMBIE'')"

subsection \<open>Lifecycle operations\<close>

text \<open>A thread slot is marked unoccupied.\<close>

definition slot_clear :: "tptr \<Rightarrow> tcbs \<Rightarrow> tcbs" where
  "slot_clear t m = m(t := (m t)\<lparr>t_tid := TID_INVALID, t_state := PROCESS_STATE_INIT\<rparr>)"

definition process_init ::
  "process_t option \<Rightarrow> u32 \<Rightarrow> string option \<Rightarrow> tcbs \<Rightarrow> bool \<times> process_t option \<times> tcbs" where
  "process_init p pid name m =
     (case (p, name) of
        (Some p, Some nm) \<Rightarrow>
          (let (p0, m0) = process_zero p m;
               p1 = p0\<lparr>p_pid := pid, p_state := PROCESS_STATE_INIT, p_exit_code := 0,
                        p_thread_count := 0, p_main_thread := None, p_next := None\<rparr>;
               p2 = p1\<lparr>p_name := str_copy_n (p_name p1) nm PROCESS_NAME_MAX\<rparr>;
               m1 = fold slot_clear (p_threads p) m0
           in (True, Some p2, m1))
      | _ \<Rightarrow> (False, p, m))"

definition process_add_thread ::
  "process_t option \<Rightarrow> u32 \<Rightarrow> u32 \<Rightarrow> string option \<Rightarrow> u32 \<Rightarrow> tcbs
     \<Rightarrow> tptr option \<times> process_t option \<times> tcbs" where
  "process_add_thread p index tid name priority m =
     (case p of
        None \<Rightarrow> (None, p, m)
      | Some pr \<Rightarrow>
          if unat index \<ge> PROCESS_MAX_THREADS then (None, p, m)
          else if tid = TID_INVALID then (None, p, m)
          else (case name of
             None \<Rightarrow> (None, p, m)
           | Some nm \<Rightarrow>
               (let t = p_threads pr ! unat index
                in if t_tid (m t) \<noteq> TID_INVALID then (None, p, m)
                   else
                     (let m0 = thread_zero t m;
                          blk = (m0 t)\<lparr>t_tid := tid, t_state := PROCESS_STATE_INIT,
                                  t_priority := priority, t_ticks_remaining := 0,
                                  t_total_ticks := 0, t_managed_ctx := 0, t_next := None\<rparr>;
                          m1 = m0(t := blk\<lparr>t_name := str_copy_n (t_name blk) nm THREAD_NAME_MAX\<rparr>);
                          pr1 = pr\<lparr>p_thread_count := p_thread_count pr + 1\<rparr>;
                          pr2 = (if p_main_thread pr1 = None
                                 then pr1\<lparr>p_main_thread := Some t\<rparr> else pr1)
                      in (Some t, Some pr2, m1)))))"

definition process_ready :: "process_t option \<Rightarrow> tcbs \<Rightarrow> bool \<times> process_t option \<times> tcbs" where
  "process_ready p m =
     (case p of
        None \<Rightarrow> (False, p, m)
      | Some pr \<Rightarrow>
          if p_state pr \<noteq> PROCESS_STATE_INIT then (False, p, m)
          else
            (let pr1 = pr\<lparr>p_state := PROCESS_STATE_READY\<rparr>;
                 m1 = (case p_main_thread pr1 of
                         None \<Rightarrow> m
                       | Some t \<Rightarrow>
                           if t_state (m t) = PROCESS_STATE_INIT
                           then m(t := (m t)\<lparr>t_state := PROCESS_STATE_READY\<rparr>) else m)
             in (True, Some pr1, m1)))"

definition thread_to_zombie :: "tptr \<Rightarrow> tcbs \<Rightarrow> tcbs" where
  "thread_to_zombie t m =
     (if t_tid (m t) \<noteq> TID_INVALID \<and> t_state (m t) \<noteq> PROCESS_STATE_ZOMBIE
      then m(t := (m t)\<lparr>t_state := PROCESS_STATE_ZOMBIE\<rparr>) else m)"

definition process_exit :: "process_t option \<Rightarrow> u32 \<Rightarrow> tcbs \<Rightarrow> bool \<times> process_t option \<times> tcbs" where
  "process_exit p exit_code m =
     (case p of
        None \<Rightarrow> (False, p, m)
      | Some pr \<Rightarrow>
          (True, Some (pr\<lparr>p_exit_code := exit_code, p_state := PROCESS_STATE_ZOMBIE\<rparr>),
           fold thread_to_zombie (p_threads pr) m))"

subsection \<open>Buffers hold terminated, truncated names\<close>

lemma str_copy_loop_cstr:
  assumes "length dst = n" and "i < n" and "cstr (take i dst) = take i dst"
    and "take i dst = take i src" and "i \<le> length src"
  shows "cstr (str_copy_loop dst src n i) = take (n - 1) (take i src @ cstr (drop i src))"
  using assms
proof (induction dst src n i rule: str_copy_loop.induct)
  case (1 dst src n i)
  have split: "dst = take i dst @ dst ! i # drop (Suc i) dst"
    using "1.prems"(1,2) by (simp add: id_take_nth_drop [symmetric])
  have nonul: "\<forall>c \<in> set (take i dst). c \<noteq> NUL"
    using "1.prems"(3) by (simp add: cstr_def takeWhile_eq_all_conv)
  show ?case
  proof (cases "i < n - 1 \<and> i < length src \<and> src ! i \<noteq> NUL")
    case True
    let ?dst = "dst[i := src ! i]"
    have pre: "take (Suc i) ?dst = take (Suc i) src"
      using "1.prems" True by (simp add: take_Suc_conv_app_nth)
    have "cstr (take (Suc i) ?dst) = take (Suc i) ?dst"
      using True nonul "1.prems" by (auto simp: cstr_def takeWhile_eq_all_conv take_Suc_conv_app_nth)
    then have "cstr (str_copy_loop ?dst src n (Suc i)) =
        take (n - 1) (take (Suc i) src @ cstr (drop (Suc i) src))"
      using "1.prems" True pre by (intro "1.IH") auto
    moreover have "take (Suc i) src @ cstr (drop (Suc i) src) = take i src @ cstr (drop i src)"
      using True by (simp add: cstr_def take_Suc_conv_app_nth Cons_nth_drop_Suc [symmetric])
    ultimately show ?thesis
      using True by (simp add: str_copy_loop.simps [of dst src n i])
  next
    case False
    have "dst[i := NUL] = take i dst @ NUL # drop (Suc i) dst"
      using "1.prems" by (simp add: upd_conv_take_nth_drop)
    moreover have "takeWhile (\<lambda>c. c \<noteq> NUL) (take i dst @ NUL # drop (Suc i) dst) = take i dst"
      using nonul by (simp add: takeWhile_append)
    moreover have "str_copy_loop dst src n i = dst[i := NUL]"
      by (subst str_copy_loop.simps) (simp only: False if_False)
    ultimately have lhs: "cstr (str_copy_loop dst src n i) = take i src"
      using "1.prems"(4) by (simp add: cstr_def)
    show ?thesis
    proof (cases "i < n - 1")
      case True
      then have "cstr (drop i src) = []"
        using False by (cases "i < length src")
          (auto simp: cstr_def Cons_nth_drop_Suc [symmetric])
      with True lhs show ?thesis by simp
    next
      case False
      with "1.prems" have "n - 1 = i" by simp
      with lhs "1.prems" show ?thesis by simp
    qed
  qed
qed

lemma length_str_copy_loop [simp]: "length (str_copy_loop dst src n i) = length dst"
  by (induction dst src n i rule: str_copy_loop.induct)
    (simp add: str_copy_loop.simps)

text \<open>
  A copied name is the source name truncated to the buffer size less one, and it is
  terminated: reading the buffer back as a C string never runs past it.
\<close>

theorem str_copy_n_truncates:
  assumes "length dst = n" and "0 < n"
  shows "cstr (str_copy_n dst src n) = take (n - 1) (cstr src)
    \<and> length (str_copy_n dst src n) = n"
  using assms str_copy_loop_cstr [of dst n 0 src] by (simp add: str_copy_n_def cstr_def)

theorem str_copy_n_truncates_witness:
  "cstr (str_copy_n (replicate 4 NUL) ''idle'' 4) = ''idl''"
  using str_copy_n_truncates [of "replicate 4 NUL" 4 "''idle''"] by (simp add: cstr_def)

subsection \<open>Occupied slots and the main thread\<close>

definition occupied :: "tcbs \<Rightarrow> tptr \<Rightarrow> bool" where
  "occupied m t \<longleftrightarrow> t_tid (m t) \<noteq> TID_INVALID"

text \<open>
  The process invariant: four distinct slots, the thread count is the number of occupied
  slots, and the main thread is set exactly when some slot is occupied.
\<close>

definition proc_wf :: "process_t \<Rightarrow> tcbs \<Rightarrow> bool" where
  "proc_wf p m \<longleftrightarrow> length (p_threads p) = PROCESS_MAX_THREADS \<and> distinct (p_threads p)
     \<and> p_thread_count p = of_nat (length (filter (occupied m) (p_threads p)))
     \<and> (case p_main_thread p of
          None \<Rightarrow> filter (occupied m) (p_threads p) = []
        | Some t \<Rightarrow> t \<in> set (p_threads p) \<and> occupied m t)"

lemma process_init_slots:
  assumes "distinct (p_threads p)" and "process_init (Some p) pid (Some nm) m = (True, Some p', m')"
  shows "t \<in> set (p_threads p) \<Longrightarrow> m' t = thread_zeroed"
    and "t \<notin> set (p_threads p) \<Longrightarrow> m' t = m t"
    and "p_threads p' = p_threads p" and "p_thread_count p' = 0" and "p_main_thread p' = None"
proof -
  have "m' = fold slot_clear (p_threads p) (fold thread_zero (p_threads p) m)"
    using assms(2) by (auto simp: process_init_def process_zero_def)
  moreover have "fold slot_clear (p_threads p) n x =
      (if x \<in> set (p_threads p) then (n x)\<lparr>t_tid := 0, t_state := PROCESS_STATE_INIT\<rparr> else n x)" for n x
    by (rule fold_pointwise [OF _ assms(1)]) (auto simp: slot_clear_def fun_eq_iff)
  moreover have "fold thread_zero (p_threads p) n x =
      (if x \<in> set (p_threads p) then thread_zeroed else n x)" for n x
    by (rule fold_pointwise [OF _ assms(1)]) (auto simp: thread_zero_def fun_eq_iff)
  ultimately show "t \<in> set (p_threads p) \<Longrightarrow> m' t = thread_zeroed"
    and "t \<notin> set (p_threads p) \<Longrightarrow> m' t = m t"
    by (simp_all add: thread_zeroed_def)
  show "p_threads p' = p_threads p" and "p_thread_count p' = 0" and "p_main_thread p' = None"
    using assms(2) by (auto simp: process_init_def process_zero_def)
qed

lemma process_init_wf [kernel_inv]:
  assumes "length (p_threads p) = PROCESS_MAX_THREADS" and "distinct (p_threads p)"
    and "process_init (Some p) pid (Some nm) m = (True, Some p', m')"
  shows "proc_wf p' m'"
proof -
  note slots = process_init_slots [OF assms(2,3)]
  have "filter (occupied m') (p_threads p) = []"
    using slots(1) by (auto simp: occupied_def thread_zeroed_def filter_empty_conv)
  then show ?thesis
    using assms(1,2) slots(3-5) by (simp add: proc_wf_def)
qed

lemma process_add_thread_result:
  assumes "process_add_thread (Some p) index tid nm prio m = (Some t, Some p', m')"
  shows "unat index < PROCESS_MAX_THREADS" and "t = p_threads p ! unat index"
    and "\<not> occupied m t" and "tid \<noteq> TID_INVALID"
    and "t_tid (m' t) = tid" and "t_state (m' t) = PROCESS_STATE_INIT"
    and "t_priority (m' t) = prio" and "t_next (m' t) = None"
    and "\<And>x. x \<noteq> t \<Longrightarrow> m' x = m x"
    and "p_threads p' = p_threads p" and "p_thread_count p' = p_thread_count p + 1"
    and "p_main_thread p' = (if p_main_thread p = None then Some t else p_main_thread p)"
    and "p_state p' = p_state p"
  using assms
  by (auto simp: process_add_thread_def Let_def occupied_def thread_zero_def
      split: if_splits option.splits)

lemma process_add_thread_wf [kernel_inv]:
  assumes wf: "proc_wf p m"
    and add: "process_add_thread (Some p) index tid nm prio m = (Some t, Some p', m')"
  shows "proc_wf p' m'"
proof -
  note r = process_add_thread_result [OF add]
  have tin: "t \<in> set (p_threads p)"
    using wf r(1,2) by (simp add: proc_wf_def)
  have occ: "occupied m' t"
    using r(4,5) by (simp add: occupied_def)
  have len: "length (filter (occupied m') (p_threads p)) =
      Suc (length (filter (occupied m) (p_threads p)))"
    using wf tin r(3,9) occ
    by (intro length_filter_new [where t = t]) (auto simp: proc_wf_def occupied_def)
  have main: "occupied m' x" if "occupied m x" for x
    using that r(9) occ by (cases "x = t") (auto simp: occupied_def)
  show ?thesis
    using wf tin occ len main r(10-12) by (auto simp: proc_wf_def split: option.splits)
qed

lemma proc_wf_cong:
  assumes "proc_wf p m" and "p_threads p' = p_threads p" and "p_thread_count p' = p_thread_count p"
    and "p_main_thread p' = p_main_thread p" and "\<And>t. t_tid (m' t) = t_tid (m t)"
  shows "proc_wf p' m'"
proof -
  have "occupied m' = occupied m"
    using assms(5) by (auto simp: occupied_def)
  with assms(1-4) show ?thesis by (simp add: proc_wf_def split: option.splits)
qed

lemma process_ready_wf [kernel_inv]:
  assumes "proc_wf p m" and "process_ready (Some p) m = (True, Some p', m')"
  shows "proc_wf p' m'"
  by (rule proc_wf_cong [OF assms(1)])
    (use assms(2) in \<open>auto simp: process_ready_def Let_def split: if_splits option.splits\<close>)

lemma process_exit_threads:
  assumes "distinct (p_threads p)" and "process_exit (Some p) code m = (True, Some p', m')"
  shows "m' t = (if t \<in> set (p_threads p) \<and> occupied m t
                 then (m t)\<lparr>t_state := PROCESS_STATE_ZOMBIE\<rparr> else m t)"
proof -
  let ?g = "\<lambda>b. if t_tid b \<noteq> TID_INVALID then b\<lparr>t_state := PROCESS_STATE_ZOMBIE\<rparr> else b"
  have "m' = fold thread_to_zombie (p_threads p) m"
    using assms(2) by (auto simp: process_exit_def)
  moreover have "fold thread_to_zombie (p_threads p) m t = (if t \<in> set (p_threads p) then ?g (m t) else m t)"
    by (rule fold_pointwise [OF _ assms(1)]) (auto simp: thread_to_zombie_def fun_eq_iff)
  ultimately show ?thesis by (simp add: occupied_def)
qed

lemma process_exit_wf [kernel_inv]:
  assumes "proc_wf p m" and "process_exit (Some p) code m = (True, Some p', m')"
  shows "proc_wf p' m'"
proof (rule proc_wf_cong [OF assms(1)])
  have "distinct (p_threads p)" using assms(1) by (simp add: proc_wf_def)
  then show "t_tid (m' t) = t_tid (m t)" for t
    using process_exit_threads [OF _ assms(2)] by simp
qed (use assms(2) in \<open>auto simp: process_exit_def\<close>)

end
