(* ===== verification/Scheduler.thy ===== *)
theory Scheduler
  imports Process
begin

text \<open>
  The run queues of \<^verbatim>\<open>src/kernel/sched/sched.c\<close>: eight priority bands, each an
  intrusive singly linked FIFO through the \<open>next\<close> field of the thread control
  blocks. The state record holds the static variables of the file and the store of
  thread control blocks. A walk along a queue is a \<open>partial_function\<close>; the theory
  proves that it returns in every well-formed state, that each operation refines the
  corresponding operation on a family of lists, and that the operations keep the run
  queues well formed.
\<close>

subsection \<open>State\<close>

record run_queue_t =
  q_head :: "tptr option"
  q_tail :: "tptr option"
  q_count :: u32

datatype sched_state_t = SCHED_IDLE | SCHED_RUNNING | SCHED_PREEMPT

record sched =
  tcb :: tcbs
  s_queues :: "nat \<Rightarrow> run_queue_t"
  s_total_ready :: u32
  s_state :: sched_state_t
  s_preempt_requested :: bool
  s_current :: "tptr option"

abbreviation (input) SCHED_PRIO_MAX :: u32 where "SCHED_PRIO_MAX \<equiv> 8"
abbreviation (input) SCHED_DEFAULT_QUANTUM :: u64 where "SCHED_DEFAULT_QUANTUM \<equiv> 10"
abbreviation (input) SCHED_MAX_THREADS :: u32 where "SCHED_MAX_THREADS \<equiv> 32"

text \<open>The order in which a loop over the bands visits them.\<close>

definition bands :: "nat list" where
  "bands = [0, 1, 2, 3, 4, 5, 6, 7]"

definition set_tcb :: "tptr \<Rightarrow> thread_t \<Rightarrow> sched \<Rightarrow> sched" where
  "set_tcb t blk s = s\<lparr>tcb := (tcb s)(t := blk)\<rparr>"

definition set_queue :: "nat \<Rightarrow> run_queue_t \<Rightarrow> sched \<Rightarrow> sched" where
  "set_queue i q s = s\<lparr>s_queues := (s_queues s)(i := q)\<rparr>"

subsection \<open>Queue helpers\<close>

partial_function (option) contains_walk :: "tcbs \<Rightarrow> tptr option \<Rightarrow> tptr \<Rightarrow> bool option" where
  "contains_walk m cur target =
     (case cur of
        None \<Rightarrow> Some False
      | Some c \<Rightarrow>
          if c = target then Some True else contains_walk m (t_next (m c)) target)"

definition queue_contains :: "tcbs \<Rightarrow> run_queue_t option \<Rightarrow> tptr option \<Rightarrow> bool option" where
  "queue_contains m q target =
     (case (q, target) of
        (Some qq, Some t) \<Rightarrow> contains_walk m (q_head qq) t
      | _ \<Rightarrow> Some False)"

text \<open>
  The inner loop of \<open>queue_remove\<close>: \<open>Some (Some prev)\<close> when the target is found, with
  its predecessor, \<open>Some None\<close> when the walk reaches the end.
\<close>

partial_function (option) remove_walk ::
  "tcbs \<Rightarrow> tptr option \<Rightarrow> tptr option \<Rightarrow> tptr \<Rightarrow> tptr option option option" where
  "remove_walk m prev cur target =
     (case cur of
        None \<Rightarrow> Some None
      | Some c \<Rightarrow>
          if c = target then Some (Some prev)
          else remove_walk m (Some c) (t_next (m c)) target)"

text \<open>What \<open>queue_remove\<close> does once it has found the target in band \<open>i\<close>.\<close>

definition queue_unlink :: "nat \<Rightarrow> tptr option \<Rightarrow> tptr \<Rightarrow> sched \<Rightarrow> sched" where
  "queue_unlink i prev target s =
     (let q = s_queues s i;
          nxt = t_next (tcb s target);
          m1 = (case prev of None \<Rightarrow> tcb s | Some p \<Rightarrow> (tcb s)(p := (tcb s p)\<lparr>t_next := nxt\<rparr>));
          q1 = (if prev = None then q\<lparr>q_head := nxt\<rparr> else q);
          q2 = (if q_tail q1 = Some target then q1\<lparr>q_tail := prev\<rparr> else q1);
          m2 = m1(target := (m1 target)\<lparr>t_next := None\<rparr>);
          q3 = q2\<lparr>q_count := q_count q2 - 1\<rparr>;
          n = s_total_ready s - 1
      in s\<lparr>tcb := m2, s_queues := (s_queues s)(i := q3), s_total_ready := n,
           s_state := (if n = 0 then SCHED_IDLE else s_state s)\<rparr>)"

fun queue_remove_bands :: "tptr \<Rightarrow> nat list \<Rightarrow> sched \<Rightarrow> (bool \<times> sched) option" where
  "queue_remove_bands target [] s = Some (False, s)"
| "queue_remove_bands target (i # is) s =
     (case remove_walk (tcb s) None (q_head (s_queues s i)) target of
        None \<Rightarrow> None
      | Some None \<Rightarrow> queue_remove_bands target is s
      | Some (Some prev) \<Rightarrow> Some (True, queue_unlink i prev target s))"

definition queue_remove :: "tptr option \<Rightarrow> sched \<Rightarrow> (bool \<times> sched) option" where
  "queue_remove target s =
     (case target of
        None \<Rightarrow> Some (False, s)
      | Some t \<Rightarrow> queue_remove_bands t bands s)"

subsection \<open>Scheduler operations\<close>

definition sched_init :: "tcbs \<Rightarrow> sched" where
  "sched_init m =
     \<lparr>tcb = m, s_queues = (\<lambda>_. \<lparr>q_head = None, q_tail = None, q_count = 0\<rparr>),
      s_total_ready = 0, s_state = SCHED_IDLE, s_preempt_requested = False, s_current = None\<rparr>"

text \<open>The linking code of \<open>sched_enqueue\<close>, after its checks.\<close>

definition queue_append :: "nat \<Rightarrow> tptr \<Rightarrow> sched \<Rightarrow> sched" where
  "queue_append i t s =
     (let q = s_queues s i;
          m0 = (tcb s)(t := (tcb s t)\<lparr>t_next := None\<rparr>);
          m1 = (case q_tail q of
                  None \<Rightarrow> m0
                | Some l \<Rightarrow> m0(l := (m0 l)\<lparr>t_next := Some t\<rparr>));
          q1 = (case q_tail q of
                  None \<Rightarrow> q\<lparr>q_head := Some t, q_tail := Some t\<rparr>
                | Some l \<Rightarrow> q\<lparr>q_tail := Some t\<rparr>)
      in s\<lparr>tcb := m1, s_queues := (s_queues s)(i := q1\<lparr>q_count := q_count q1 + 1\<rparr>),
           s_total_ready := s_total_ready s + 1, s_state := SCHED_RUNNING\<rparr>)"

definition sched_enqueue :: "tptr option \<Rightarrow> sched \<Rightarrow> (bool \<times> sched) option" where
  "sched_enqueue tp s =
     (case tp of
        None \<Rightarrow> Some (False, s)
      | Some t \<Rightarrow>
          if t_state (tcb s t) \<noteq> PROCESS_STATE_READY then Some (False, s)
          else if t_priority (tcb s t) \<ge> SCHED_PRIO_MAX then Some (False, s)
          else if s_total_ready s \<ge> SCHED_MAX_THREADS then Some (False, s)
          else
            (let i = unat (t_priority (tcb s t))
             in case queue_contains (tcb s) (Some (s_queues s i)) (Some t) of
                  None \<Rightarrow> None
                | Some True \<Rightarrow> Some (False, s)
                | Some False \<Rightarrow> Some (True, queue_append i t s)))"

text \<open>Removing the head of a non-empty band.\<close>

definition queue_pop :: "nat \<Rightarrow> tptr \<Rightarrow> sched \<Rightarrow> sched" where
  "queue_pop i t s =
     (let q = s_queues s i;
          q1 = q\<lparr>q_head := t_next (tcb s t)\<rparr>;
          q2 = (if q_head q1 = None then q1\<lparr>q_tail := None\<rparr> else q1);
          m1 = (tcb s)(t := (tcb s t)\<lparr>t_next := None\<rparr>);
          n = s_total_ready s - 1
      in s\<lparr>tcb := m1, s_queues := (s_queues s)(i := q2\<lparr>q_count := q_count q2 - 1\<rparr>),
           s_total_ready := n, s_state := (if n = 0 then SCHED_IDLE else s_state s)\<rparr>)"

fun dequeue_bands :: "nat list \<Rightarrow> sched \<Rightarrow> tptr option \<times> sched" where
  "dequeue_bands [] s = (None, s)"
| "dequeue_bands (i # is) s =
     (case q_head (s_queues s i) of
        None \<Rightarrow> dequeue_bands is s
      | Some t \<Rightarrow> (Some t, queue_pop i t s))"

definition sched_dequeue :: "sched \<Rightarrow> tptr option \<times> sched" where
  "sched_dequeue s = dequeue_bands bands s"

definition sched_yield :: "tptr option \<Rightarrow> sched \<Rightarrow> (bool \<times> sched) option" where
  "sched_yield cur s =
     (case cur of
        None \<Rightarrow> Some (False, s)
      | Some t \<Rightarrow>
          if t_state (tcb s t) \<noteq> PROCESS_STATE_RUNNING then Some (False, s)
          else
            (let s1 = set_tcb t ((tcb s t)\<lparr>t_state := PROCESS_STATE_READY,
                                   t_ticks_remaining := SCHED_DEFAULT_QUANTUM\<rparr>) s;
                 s2 = s1\<lparr>s_preempt_requested := False\<rparr>
             in sched_enqueue (Some t) s2))"

definition sched_tick :: "tptr option \<Rightarrow> sched \<Rightarrow> sched" where
  "sched_tick cur s =
     (case cur of
        None \<Rightarrow> s
      | Some t \<Rightarrow>
          (let b0 = tcb s t;
               b1 = b0\<lparr>t_total_ticks := t_total_ticks b0 + 1\<rparr>;
               b2 = (if t_ticks_remaining b1 > 0
                     then b1\<lparr>t_ticks_remaining := t_ticks_remaining b1 - 1\<rparr> else b1);
               s1 = set_tcb t b2 s
           in if t_ticks_remaining b2 = 0
              then s1\<lparr>s_preempt_requested := True, s_state := SCHED_PREEMPT\<rparr> else s1))"

definition sched_next :: "tptr option \<Rightarrow> sched \<Rightarrow> (tptr option \<times> sched) option" where
  "sched_next cur s =
     do {
       (cur1, s1) \<leftarrow>
         (case cur of
            Some t \<Rightarrow>
              if s_preempt_requested s \<and> t_state (tcb s t) = PROCESS_STATE_RUNNING
              then do {
                (_, s') \<leftarrow> sched_enqueue (Some t)
                  (set_tcb t ((tcb s t)\<lparr>t_state := PROCESS_STATE_READY,
                                 t_ticks_remaining := SCHED_DEFAULT_QUANTUM\<rparr>)
                     (s\<lparr>s_preempt_requested := False\<rparr>));
                Some (None, s')
              }
              else Some (cur, s)
          | None \<Rightarrow> Some (cur, s));
       let (nxt, s2) = sched_dequeue s1;
       case nxt of
         None \<Rightarrow>
           (case cur1 of
              Some t \<Rightarrow>
                if t_state (tcb s2 t) = PROCESS_STATE_RUNNING then Some (Some t, s2)
                else Some (None, s2\<lparr>s_state := SCHED_IDLE\<rparr>)
            | None \<Rightarrow> Some (None, s2\<lparr>s_state := SCHED_IDLE\<rparr>))
       | Some t \<Rightarrow>
           Some (Some t,
             if t_ticks_remaining (tcb s2 t) = 0
             then set_tcb t ((tcb s2 t)\<lparr>t_ticks_remaining := SCHED_DEFAULT_QUANTUM\<rparr>) s2
             else s2)
     }"

definition sched_block :: "tptr option \<Rightarrow> sched \<Rightarrow> (bool \<times> sched) option" where
  "sched_block tp s =
     (case tp of
        None \<Rightarrow> Some (False, s)
      | Some t \<Rightarrow>
          if t_state (tcb s t) = PROCESS_STATE_BLOCKED then Some (True, s)
          else if t_state (tcb s t) = PROCESS_STATE_READY then
            do {
              (ok, s1) \<leftarrow> queue_remove (Some t) s;
              if \<not> ok then Some (False, s1)
              else Some (True, set_tcb t ((tcb s1 t)\<lparr>t_state := PROCESS_STATE_BLOCKED\<rparr>) s1)
            }
          else if t_state (tcb s t) \<noteq> PROCESS_STATE_RUNNING then Some (False, s)
          else Some (True, set_tcb t ((tcb s t)\<lparr>t_state := PROCESS_STATE_BLOCKED\<rparr>) s))"

definition sched_unblock :: "tptr option \<Rightarrow> sched \<Rightarrow> (bool \<times> sched) option" where
  "sched_unblock tp s =
     (case tp of
        None \<Rightarrow> Some (False, s)
      | Some t \<Rightarrow>
          if t_state (tcb s t) \<noteq> PROCESS_STATE_BLOCKED then Some (False, s)
          else sched_enqueue (Some t)
                 (set_tcb t ((tcb s t)\<lparr>t_state := PROCESS_STATE_READY\<rparr>) s))"

definition sched_get_state :: "sched \<Rightarrow> sched_state_t" where
  "sched_get_state s = s_state s"

definition sched_get_ready_count :: "sched \<Rightarrow> u32" where
  "sched_get_ready_count s = s_total_ready s"

definition sched_get_current :: "sched \<Rightarrow> tptr option" where
  "sched_get_current s = s_current s"

definition sched_set_current :: "tptr option \<Rightarrow> sched \<Rightarrow> sched" where
  "sched_set_current tp s = s\<lparr>s_current := tp\<rparr>"

text \<open>
  The C part of \<open>sched_context_switch\<close>: what it writes before it enters the assembly
  routine, which saves and restores registers and is modelled with the kernel stacks.
\<close>

definition sched_context_switch :: "tptr option \<Rightarrow> tptr option \<Rightarrow> sched \<Rightarrow> sched" where
  "sched_context_switch prev nxt s =
     (case (prev, nxt) of
        (Some p, Some n) \<Rightarrow>
          (set_tcb n ((tcb s n)\<lparr>t_state := PROCESS_STATE_RUNNING\<rparr>) s)\<lparr>s_current := Some n\<rparr>
      | _ \<Rightarrow> s)"

text \<open>
  The code with which \<open>ipc_send\<close>, \<open>ipc_recv\<close> and \<open>handle_sched_block\<close> undo a block when there is
  no thread to switch to.
\<close>

definition undo_block :: "tptr \<Rightarrow> sched \<Rightarrow> sched option" where
  "undo_block cur sc =
     do {
       (_, sc1) \<leftarrow> sched_enqueue (Some cur) (set_tcb cur ((tcb sc cur)\<lparr>t_state := PROCESS_STATE_READY\<rparr>) sc);
       Some (sched_set_current (Some cur)
               (set_tcb cur ((tcb sc1 cur)\<lparr>t_state := PROCESS_STATE_RUNNING\<rparr>) sc1))
     }"

subsection \<open>Abstraction: a family of FIFO lists\<close>

abbreviation links :: "tcbs \<Rightarrow> tptr \<Rightarrow> tptr option" where
  "links m \<equiv> (\<lambda>x. t_next (m x))"

definition queued :: "(nat \<Rightarrow> tptr list) \<Rightarrow> tptr list" where
  "queued qs = concat (map qs bands)"

definition band_rep :: "tcbs \<Rightarrow> run_queue_t \<Rightarrow> tptr list \<Rightarrow> bool" where
  "band_rep m q xs \<longleftrightarrow> lchain (links m) (q_head q) xs
     \<and> q_tail q = (if xs = [] then None else Some (last xs))
     \<and> q_count q = of_nat (length xs)"

text \<open>The run queues represent the lists \<open>qs\<close>, and the counters and the state flag agree.\<close>

definition sched_rep :: "sched \<Rightarrow> (nat \<Rightarrow> tptr list) \<Rightarrow> bool" where
  "sched_rep s qs \<longleftrightarrow> (\<forall>i \<in> set bands. band_rep (tcb s) (s_queues s i) (qs i))
     \<and> distinct (queued qs) \<and> length (queued qs) \<le> 32
     \<and> s_total_ready s = of_nat (length (queued qs))
     \<and> (s_state s = SCHED_IDLE \<longrightarrow> queued qs = [])"

text \<open>In addition, a queued thread is READY and sits in the band of its priority.\<close>

definition sched_ok :: "sched \<Rightarrow> (nat \<Rightarrow> tptr list) \<Rightarrow> bool" where
  "sched_ok s qs \<longleftrightarrow> sched_rep s qs
     \<and> (\<forall>i \<in> set bands. \<forall>t \<in> set (qs i).
          t_state (tcb s t) = PROCESS_STATE_READY \<and> unat (t_priority (tcb s t)) = i)"

text \<open>Without the states: a queued thread sits in the band of its priority.\<close>

definition sched_banded :: "sched \<Rightarrow> (nat \<Rightarrow> tptr list) \<Rightarrow> bool" where
  "sched_banded s qs \<longleftrightarrow> sched_rep s qs
     \<and> (\<forall>i \<in> set bands. \<forall>t \<in> set (qs i). unat (t_priority (tcb s t)) = i)"

lemma distinct_bands [simp]: "distinct bands"
  by (simp add: bands_def)

lemma in_bands: "i \<in> set bands \<longleftrightarrow> i < 8"
  by (auto simp: bands_def)

lemma set_queued: "set (queued qs) = (\<Union>i \<in> set bands. set (qs i))"
  by (simp add: queued_def)

lemma length_queued_upd:
  "i \<in> set bands \<Longrightarrow> length (queued (qs(i := xs))) + length (qs i) = length (queued qs) + length xs"
  unfolding queued_def by (rule length_concat_map_upd) auto

lemma distinct_queued:
  "distinct (queued qs) \<longleftrightarrow> (\<forall>b \<in> set bands. distinct (qs b))
     \<and> (\<forall>b \<in> set bands. \<forall>c \<in> set bands. b \<noteq> c \<longrightarrow> set (qs b) \<inter> set (qs c) = {})"
  unfolding queued_def by (rule distinct_concat_map) simp

lemma distinct_queued_upd:
  assumes "distinct (queued qs)" and "i \<in> set bands" and "distinct xs"
    and "set xs \<inter> (set (queued qs) - set (qs i)) = {}"
  shows "distinct (queued (qs(i := xs)))"
proof -
  have "set xs \<inter> set (qs c) = {}" if "c \<in> set bands" "c \<noteq> i" for c
  proof -
    have "set (qs c) \<inter> set (qs i) = {}" using assms(1,2) that by (simp add: distinct_queued)
    moreover have "set (qs c) \<subseteq> set (queued qs)" using that by (auto simp: set_queued)
    ultimately show ?thesis using assms(4) by blast
  qed
  with assms(1,3) show ?thesis by (auto simp: distinct_queued)
qed

lemma band_rep_cong:
  assumes "\<And>x. x \<in> set xs \<Longrightarrow> t_next (m' x) = t_next (m x)"
  shows "band_rep m' q xs = band_rep m q xs"
  unfolding band_rep_def using lchain_cong [of xs "links m'" "links m"] assms by simp

lemma sched_rep_bound: "sched_rep s qs \<Longrightarrow> unat (s_total_ready s) = length (queued qs)"
  by (auto simp: sched_rep_def intro!: unat_of_nat_u32)

subsection \<open>Walks along a well-formed queue return\<close>

lemma contains_walk_chain:
  "lchain (links m) cur xs \<Longrightarrow> contains_walk m cur t = Some (t \<in> set xs)"
proof (induction xs arbitrary: cur)
  case Nil
  then show ?case by (simp add: contains_walk.simps)
next
  case (Cons x xs)
  then show ?case by (subst contains_walk.simps) auto
qed

lemma queue_contains_rep:
  "band_rep m q xs \<Longrightarrow> queue_contains m (Some q) (Some t) = Some (t \<in> set xs)"
  by (simp add: queue_contains_def band_rep_def contains_walk_chain)

lemma remove_walk_absent:
  "lchain (links m) cur xs \<Longrightarrow> t \<notin> set xs \<Longrightarrow> remove_walk m prev cur t = Some None"
proof (induction xs arbitrary: cur prev)
  case Nil
  then show ?case by (simp add: remove_walk.simps)
next
  case (Cons x xs)
  then show ?case by (subst remove_walk.simps) auto
qed

definition pred_of :: "tptr option \<Rightarrow> tptr list \<Rightarrow> tptr option" where
  "pred_of prev ys = (if ys = [] then prev else Some (last ys))"

lemma remove_walk_found:
  "lchain (links m) cur (ys @ t # zs) \<Longrightarrow> t \<notin> set ys
     \<Longrightarrow> remove_walk m prev cur t = Some (Some (pred_of prev ys))"
proof (induction ys arbitrary: cur prev)
  case Nil
  then show ?case by (subst remove_walk.simps) (simp add: pred_of_def)
next
  case (Cons y ys)
  then have "remove_walk m (Some y) (t_next (m y)) t = Some (Some (pred_of (Some y) ys))"
    by simp
  moreover have "cur = Some y" and "y \<noteq> t" using Cons.prems by auto
  ultimately show ?case
    by (subst remove_walk.simps) (simp add: pred_of_def)
qed

subsection \<open>Linking and unlinking refine append and removal\<close>

lemma queue_append_band:
  assumes "band_rep (tcb s) (s_queues s i) xs" and "distinct xs" and "t \<notin> set xs"
  shows "band_rep (tcb (queue_append i t s)) (s_queues (queue_append i t s) i) (xs @ [t])"
proof (cases "xs = []")
  case True
  with assms(1) show ?thesis
    by (simp add: queue_append_def Let_def band_rep_def)
next
  case False
  let ?m = "tcb (queue_append i t s)"
  have tail: "q_tail (s_queues s i) = Some (last xs)"
    using assms(1) False by (simp add: band_rep_def)
  have "last xs \<noteq> t" using assms(3) False last_in_set by metis
  then have "lchain (links ?m) (q_head (s_queues s i)) (xs @ [t])"
    using assms tail False
    by (intro lchain_snoc [of "links (tcb s)"])
      (auto simp: band_rep_def queue_append_def Let_def)
  with assms(1) tail False show ?thesis
    by (simp add: queue_append_def Let_def band_rep_def)
qed

lemma queue_append_frame:
  assumes "band_rep (tcb s) (s_queues s i) xs" and "x \<noteq> t" and "x \<notin> set xs"
  shows "tcb (queue_append i t s) x = tcb s x"
proof (cases "xs = []")
  case True
  with assms show ?thesis by (simp add: queue_append_def Let_def band_rep_def)
next
  case False
  then have "last xs \<noteq> x" using assms(3) last_in_set by metis
  with False assms show ?thesis by (simp add: queue_append_def Let_def band_rep_def)
qed

lemma queue_append_blocks:
  "t_state (tcb (queue_append i t s) x) = t_state (tcb s x)"
  "t_priority (tcb (queue_append i t s) x) = t_priority (tcb s x)"
  by (auto simp: queue_append_def Let_def split: option.splits)

lemma queue_append_other [simp]:
  "s_total_ready (queue_append i t s) = s_total_ready s + 1"
  "s_state (queue_append i t s) = SCHED_RUNNING"
  "s_current (queue_append i t s) = s_current s"
  "s_preempt_requested (queue_append i t s) = s_preempt_requested s"
  "j \<noteq> i \<Longrightarrow> s_queues (queue_append i t s) j = s_queues s j"
  by (simp_all add: queue_append_def Let_def)

lemma queue_append_rep:
  assumes rep: "sched_rep s qs" and i: "i \<in> set bands" and t: "t \<notin> set (queued qs)"
    and room: "length (queued qs) < 32"
  shows "sched_rep (queue_append i t s) (qs(i := qs i @ [t]))"
proof -
  let ?s = "queue_append i t s" and ?qs = "qs(i := qs i @ [t])"
  have dist: "distinct (queued qs)" and band: "\<And>j. j \<in> set bands \<Longrightarrow> band_rep (tcb s) (s_queues s j) (qs j)"
    using rep by (auto simp: sched_rep_def)
  have tj: "t \<notin> set (qs j)" if "j \<in> set bands" for j
    using t that by (auto simp: set_queued)
  have "band_rep (tcb ?s) (s_queues ?s j) (?qs j)" if j: "j \<in> set bands" for j
  proof (cases "j = i")
    case True
    with i dist tj band show ?thesis
      using queue_append_band [OF band [OF i], of t] by (simp add: distinct_queued)
  next
    case False
    have "tcb ?s x = tcb s x" if x: "x \<in> set (qs j)" for x
    proof (rule queue_append_frame [OF band [OF i]])
      show "x \<noteq> t" using tj j x by auto
      show "x \<notin> set (qs i)" using dist False i j x by (auto simp: distinct_queued)
    qed
    then have "band_rep (tcb ?s) (s_queues s j) (qs j)"
      using band_rep_cong [of "qs j" "tcb ?s" "tcb s"] band [OF j] by simp
    with False show ?thesis by simp
  qed
  moreover have len: "length (queued ?qs) = Suc (length (queued qs))"
    using length_queued_upd [OF i, of qs "qs i @ [t]"] by simp
  moreover have "distinct (queued ?qs)"
    using dist i tj t by (intro distinct_queued_upd) (auto simp: distinct_queued)
  ultimately show ?thesis
    using rep room by (simp add: sched_rep_def)
qed

lemma queue_unlink_band:
  assumes rep: "band_rep (tcb s) (s_queues s i) (ys @ t # zs)" and dist: "distinct (ys @ t # zs)"
  shows "band_rep (tcb (queue_unlink i (pred_of None ys) t s))
           (s_queues (queue_unlink i (pred_of None ys) t s) i) (ys @ zs)"
proof (cases "ys = []")
  case True
  let ?s = "queue_unlink i None t s"
  have "tcb ?s x = tcb s x" if "x \<in> set zs" for x
    using dist that by (auto simp: queue_unlink_def Let_def)
  then have "lchain (links (tcb ?s)) (t_next (tcb s t)) zs
      = lchain (links (tcb s)) (t_next (tcb s t)) zs"
    by (intro lchain_cong) simp
  then have chain: "lchain (links (tcb ?s)) (t_next (tcb s t)) zs"
    using rep True by (simp add: band_rep_def)
  have "q_tail (s_queues s i) = Some (last (t # zs))" and "q_count (s_queues s i) = of_nat (Suc (length zs))"
    using rep True by (simp_all add: band_rep_def)
  moreover have "zs \<noteq> [] \<Longrightarrow> last zs \<noteq> t"
    using dist last_in_set by fastforce
  moreover have "s_queues ?s i = \<lparr>q_head = t_next (tcb s t),
      q_tail = if q_tail (s_queues s i) = Some t then None else q_tail (s_queues s i),
      q_count = q_count (s_queues s i) - 1\<rparr>"
    by (simp add: queue_unlink_def Let_def)
  ultimately show ?thesis
    using chain unfolding True append_Nil pred_of_def band_rep_def
    by (cases "zs = []") simp_all
next
  case False
  let ?s = "queue_unlink i (Some (last ys)) t s"
  have neq: "last ys \<noteq> t" using dist False last_in_set by fastforce
  have "lchain (links (tcb ?s)) (q_head (s_queues s i)) (ys @ zs)"
  proof (rule lchain_unlink)
    show "lchain (links (tcb s)) (q_head (s_queues s i)) (ys @ t # zs)"
      using rep unfolding band_rep_def by blast
    show "links (tcb ?s) (last ys) = links (tcb s) t"
      using neq by (simp add: queue_unlink_def Let_def)
    show "links (tcb ?s) x = links (tcb s) x" if "x \<noteq> t" "x \<noteq> last ys" for x
      using that by (simp add: queue_unlink_def Let_def)
  qed (use dist False in simp_all)
  moreover have "q_tail (s_queues s i) = Some (last (t # zs))"
    and "q_count (s_queues s i) = of_nat (Suc (length (ys @ zs)))"
    using rep by (simp_all add: band_rep_def)
  moreover have "zs \<noteq> [] \<Longrightarrow> last zs \<noteq> t"
    using dist last_in_set by fastforce
  moreover have "s_queues ?s i = (s_queues s i)
      \<lparr>q_tail := if q_tail (s_queues s i) = Some t then Some (last ys) else q_tail (s_queues s i),
       q_count := q_count (s_queues s i) - 1\<rparr>"
    by (simp add: queue_unlink_def Let_def)
  moreover have "pred_of None ys = Some (last ys)" using False by (simp add: pred_of_def)
  ultimately show ?thesis
    using False unfolding band_rep_def by (cases "zs = []") simp_all
qed

lemma queue_unlink_frame:
  assumes "x \<notin> set (ys @ [t])"
  shows "tcb (queue_unlink i (pred_of None ys) t s) x = tcb s x"
proof (cases "ys = []")
  case True
  with assms show ?thesis by (simp add: queue_unlink_def Let_def pred_of_def)
next
  case False
  then have "last ys \<noteq> x" using assms last_in_set by fastforce
  with False assms show ?thesis by (simp add: queue_unlink_def Let_def pred_of_def)
qed

lemma queue_unlink_blocks:
  "t_state (tcb (queue_unlink i pr t s) x) = t_state (tcb s x)"
  "t_priority (tcb (queue_unlink i pr t s) x) = t_priority (tcb s x)"
  by (auto simp: queue_unlink_def Let_def split: option.splits)

lemma queue_unlink_other [simp]:
  "s_total_ready (queue_unlink i pr t s) = s_total_ready s - 1"
  "s_state (queue_unlink i pr t s) = (if s_total_ready s = 1 then SCHED_IDLE else s_state s)"
  "s_current (queue_unlink i pr t s) = s_current s"
  "s_preempt_requested (queue_unlink i pr t s) = s_preempt_requested s"
  "j \<noteq> i \<Longrightarrow> s_queues (queue_unlink i pr t s) j = s_queues s j"
  by (simp_all add: queue_unlink_def Let_def)

lemma queue_unlink_rep:
  assumes rep: "sched_rep s qs" and i: "i \<in> set bands" and xs: "qs i = ys @ t # zs"
  shows "sched_rep (queue_unlink i (pred_of None ys) t s) (qs(i := ys @ zs))"
proof -
  let ?s = "queue_unlink i (pred_of None ys) t s" and ?qs = "qs(i := ys @ zs)"
  have dist: "distinct (queued qs)" and band: "\<And>j. j \<in> set bands \<Longrightarrow> band_rep (tcb s) (s_queues s j) (qs j)"
    and tot: "s_total_ready s = of_nat (length (queued qs))" and le: "length (queued qs) \<le> 32"
    using rep by (auto simp: sched_rep_def)
  have "distinct (ys @ t # zs)" using dist i xs by (metis distinct_queued)
  then have "band_rep (tcb ?s) (s_queues ?s i) (ys @ zs)"
    using queue_unlink_band band [OF i] xs by metis
  moreover have "band_rep (tcb ?s) (s_queues ?s j) (qs j)" if j: "j \<in> set bands" "j \<noteq> i" for j
  proof -
    have "set (qs j) \<inter> set (qs i) = {}"
      using dist i j by (simp add: distinct_queued)
    then have "tcb ?s x = tcb s x" if "x \<in> set (qs j)" for x
      using that xs by (intro queue_unlink_frame) auto
    then show ?thesis
      using band_rep_cong [of "qs j" "tcb ?s" "tcb s"] band j by simp
  qed
  moreover have len: "Suc (length (queued ?qs)) = length (queued qs)"
    using length_queued_upd [OF i, of qs "ys @ zs"] xs by simp
  then have tot': "s_total_ready s = of_nat (length (queued ?qs)) + 1"
    using tot by (metis of_nat_Suc add.commute)
  then have "s_total_ready s = 1 \<longleftrightarrow> queued ?qs = []"
    using of_nat_u32_eq_0 [of "length (queued ?qs)"] len le by simp
  moreover have "distinct (queued ?qs)"
    using dist i xs \<open>distinct (ys @ t # zs)\<close> by (intro distinct_queued_upd) auto
  moreover have "s_total_ready ?s = of_nat (length (queued ?qs))" using tot' by simp
  moreover have "s_state ?s = SCHED_IDLE \<Longrightarrow> queued ?qs = []"
  proof -
    assume "s_state ?s = SCHED_IDLE"
    then have "s_total_ready s = 1 \<or> s_state s = SCHED_IDLE" by (simp split: if_splits)
    moreover have "s_state s \<noteq> SCHED_IDLE" using rep len by (fastforce simp: sched_rep_def)
    ultimately show ?thesis using \<open>s_total_ready s = 1 \<longleftrightarrow> queued ?qs = []\<close> by blast
  qed
  moreover have "length (queued ?qs) \<le> 32" using len le by simp
  moreover have "band_rep (tcb ?s) (s_queues ?s j) (?qs j)" if "j \<in> set bands" for j
    using that calculation(1,2) by (cases "j = i") simp_all
  ultimately show ?thesis unfolding sched_rep_def by blast
qed

lemma queue_pop_unlink:
  assumes "band_rep (tcb s) (s_queues s i) (t # zs)" and "t \<notin> set zs"
  shows "queue_pop i t s = queue_unlink i None t s"
proof (cases "zs = []")
  case True
  with assms show ?thesis
    by (simp add: queue_pop_def queue_unlink_def Let_def band_rep_def)
next
  case False
  then have "last zs \<noteq> t" using assms(2) last_in_set by metis
  moreover obtain n where "t_next (tcb s t) = Some n"
    using assms(1) False by (cases zs) (auto simp: band_rep_def)
  ultimately show ?thesis
    using assms False by (simp add: queue_pop_def queue_unlink_def Let_def band_rep_def)
qed

subsection \<open>Every operation keeps the run queues well formed\<close>

lemma sched_ok_rep: "sched_ok s qs \<Longrightarrow> sched_rep s qs"
  by (simp add: sched_ok_def)

lemma sched_ok_queued:
  assumes "sched_ok s qs" and "t \<in> set (queued qs)"
  shows "t_state (tcb s t) = PROCESS_STATE_READY" and "t \<in> set (qs (unat (t_priority (tcb s t))))"
    and "unat (t_priority (tcb s t)) < 8"
  using assms by (auto simp: sched_ok_def set_queued in_bands)

lemma sched_ok_not_queued:
  "sched_ok s qs \<Longrightarrow> t_state (tcb s t) \<noteq> PROCESS_STATE_READY \<Longrightarrow> t \<notin> set (queued qs)"
  using sched_ok_queued(1) by blast

lemma sched_ok_init: "sched_ok (sched_init m) (\<lambda>_. [])"
  by (simp add: sched_ok_def sched_rep_def sched_init_def band_rep_def queued_def bands_def)

lemma sched_rep_cong:
  assumes "sched_rep s qs" and "\<And>t. t \<in> set (queued qs) \<Longrightarrow> t_next (tcb s' t) = t_next (tcb s t)"
    and "s_queues s' = s_queues s" and "s_total_ready s' = s_total_ready s"
    and "s_state s' = SCHED_IDLE \<Longrightarrow> queued qs = []"
  shows "sched_rep s' qs"
proof -
  have "band_rep (tcb s') (s_queues s i) (qs i) = band_rep (tcb s) (s_queues s i) (qs i)"
    if "i \<in> set bands" for i
    using assms(2) that by (intro band_rep_cong) (auto simp: set_queued)
  with assms show ?thesis by (simp add: sched_rep_def)
qed

lemma sched_ok_cong:
  assumes "sched_ok s qs"
    and "\<And>t. t \<in> set (queued qs) \<Longrightarrow> t_next (tcb s' t) = t_next (tcb s t)
           \<and> t_state (tcb s' t) = t_state (tcb s t) \<and> t_priority (tcb s' t) = t_priority (tcb s t)"
    and "s_queues s' = s_queues s" and "s_total_ready s' = s_total_ready s"
    and "s_state s' = SCHED_IDLE \<Longrightarrow> queued qs = []"
  shows "sched_ok s' qs"
proof -
  have "sched_rep s' qs"
    by (rule sched_rep_cong [of s]) (use assms in \<open>simp_all add: sched_ok_def\<close>)
  moreover have "i \<in> set bands \<Longrightarrow> t \<in> set (qs i) \<Longrightarrow> t \<in> set (queued qs)" for i t
    by (auto simp: set_queued)
  ultimately show ?thesis
    using assms(1,2) by (simp add: sched_ok_def)
qed

lemma sched_ok_idle: "sched_ok s qs \<Longrightarrow> s_state s = SCHED_IDLE \<Longrightarrow> queued qs = []"
  by (simp add: sched_ok_def sched_rep_def)

lemma sched_ok_set_unqueued:
  assumes "sched_ok s qs" and "t \<notin> set (queued qs)"
  shows "sched_ok (set_tcb t b s) qs"
  by (rule sched_ok_cong [OF assms(1)])
    (use assms in \<open>auto simp: set_tcb_def dest: sched_ok_idle\<close>)

lemma sched_ok_set_same:
  assumes "sched_ok s qs" and "t_next b = t_next (tcb s t)" and "t_state b = t_state (tcb s t)"
    and "t_priority b = t_priority (tcb s t)"
  shows "sched_ok (set_tcb t b s) qs"
  by (rule sched_ok_cong [OF assms(1)])
    (use assms in \<open>auto simp: set_tcb_def dest: sched_ok_idle\<close>)

lemma sched_ok_fields [simp]:
  "sched_ok (s\<lparr>s_preempt_requested := b\<rparr>) qs = sched_ok s qs"
  "sched_ok (s\<lparr>s_current := c\<rparr>) qs = sched_ok s qs"
  by (simp_all add: sched_ok_def sched_rep_def)

text \<open>
  \<open>sched_enqueue\<close> on a well-formed state always returns; it either refuses and changes
  nothing, or appends the thread at the end of the band of its priority.
\<close>

lemma sched_enqueue_accepts:
  assumes ok: "sched_ok s qs"
  shows "sched_enqueue (Some t) s =
    (if t_state (tcb s t) = PROCESS_STATE_READY \<and> unat (t_priority (tcb s t)) < 8
        \<and> length (queued qs) < 32 \<and> t \<notin> set (queued qs)
     then Some (True, queue_append (unat (t_priority (tcb s t))) t s) else Some (False, s))"
proof -
  let ?i = "unat (t_priority (tcb s t))"
  have prio: "t_priority (tcb s t) \<ge> SCHED_PRIO_MAX \<longleftrightarrow> \<not> ?i < 8"
    by (simp add: word_le_nat_alt not_less)
  have total: "s_total_ready s \<ge> SCHED_MAX_THREADS \<longleftrightarrow> \<not> length (queued qs) < 32"
    using sched_rep_bound [OF sched_ok_rep [OF ok]] by (simp add: word_le_nat_alt not_less)
  have "?i < 8 \<Longrightarrow> queue_contains (tcb s) (Some (s_queues s ?i)) (Some t) = Some (t \<in> set (qs ?i))"
    using ok by (intro queue_contains_rep) (simp add: sched_ok_def sched_rep_def in_bands)
  moreover have "?i < 8 \<Longrightarrow> t \<in> set (qs ?i) \<longleftrightarrow> t \<in> set (queued qs)"
    using sched_ok_queued(2) [OF ok] by (auto simp: set_queued in_bands)
  ultimately show ?thesis
    by (simp add: sched_enqueue_def prio total Let_def)
qed

lemma queue_append_ok:
  assumes "sched_ok s qs" and "t_state (tcb s t) = PROCESS_STATE_READY"
    and "unat (t_priority (tcb s t)) = i" and "i < 8"
    and "length (queued qs) < 32" and "t \<notin> set (queued qs)"
  shows "sched_ok (queue_append i t s) (qs(i := qs i @ [t]))"
  using assms queue_append_rep [of s qs i t]
  by (auto simp: sched_ok_def in_bands queue_append_blocks)

lemma queue_unlink_ok:
  assumes "sched_ok s qs" and "i \<in> set bands" and "qs i = ys @ t # zs"
  shows "sched_ok (queue_unlink i (pred_of None ys) t s) (qs(i := ys @ zs))"
  using assms queue_unlink_rep [of s qs i ys t zs]
  by (auto simp: sched_ok_def queue_unlink_blocks)


subsection \<open>What the operations do to the lists\<close>

text \<open>The queue operations write no field of a thread control block but \<open>next\<close>.\<close>

definition same_but_next :: "tcbs \<Rightarrow> tcbs \<Rightarrow> bool" where
  "same_but_next m m' \<longleftrightarrow> (\<forall>x. (m' x)\<lparr>t_next := None\<rparr> = (m x)\<lparr>t_next := None\<rparr>)"

lemma thread_eq_but_next:
  assumes "a\<lparr>t_next := None\<rparr> = b\<lparr>t_next := None\<rparr>"
  shows "t_state a = t_state b" "t_priority a = t_priority b" "t_tid a = t_tid b"
    "t_ticks_remaining a = t_ticks_remaining b" "t_total_ticks a = t_total_ticks b"
  using assms by (cases a; cases b; simp)+

lemma same_but_next_fields:
  assumes "same_but_next m m'"
  shows "t_state (m' x) = t_state (m x)" "t_priority (m' x) = t_priority (m x)"
    "t_ticks_remaining (m' x) = t_ticks_remaining (m x)"
  using assms thread_eq_but_next [of "m' x" "m x"] by (simp_all add: same_but_next_def)

lemma same_but_next_refl [simp]: "same_but_next m m"
  by (simp add: same_but_next_def)

lemma same_but_next_append: "same_but_next (tcb s) (tcb (queue_append i t s))"
  by (auto simp: same_but_next_def queue_append_def Let_def split: option.splits)

lemma same_but_next_unlink: "same_but_next (tcb s) (tcb (queue_unlink i pr t s))"
  by (auto simp: same_but_next_def queue_unlink_def Let_def split: option.splits)

lemma dequeue_bands_empty:
  "\<forall>i \<in> set bs. band_rep (tcb s) (s_queues s i) (qs i) \<Longrightarrow> concat (map qs bs) = []
     \<Longrightarrow> dequeue_bands bs s = (None, s)"
  by (induction bs) (auto simp: band_rep_def)

lemma dequeue_bands_head:
  assumes "\<forall>i \<in> set bs. band_rep (tcb s) (s_queues s i) (qs i)" and "distinct bs"
    and "concat (map qs bs) = t # ts"
  shows "\<exists>i zs. i \<in> set bs \<and> qs i = t # zs \<and> dequeue_bands bs s = (Some t, queue_pop i t s)
      \<and> concat (map (qs(i := zs)) bs) = ts"
  using assms
proof (induction bs)
  case Nil
  then show ?case by simp
next
  case (Cons b bs)
  show ?case
  proof (cases "qs b")
    case Nil
    with Cons.prems have none: "q_head (s_queues s b) = None" by (simp add: band_rep_def)
    have "concat (map qs bs) = t # ts" "distinct bs"
      "\<forall>i \<in> set bs. band_rep (tcb s) (s_queues s i) (qs i)"
      using Nil Cons.prems by simp_all
    with Cons.IH obtain i zs where i: "i \<in> set bs" "qs i = t # zs"
      "dequeue_bands bs s = (Some t, queue_pop i t s)" "concat (map (qs(i := zs)) bs) = ts"
      by blast
    with Cons.prems have "i \<noteq> b" by auto
    with i Nil have "concat (map (qs(i := zs)) (b # bs)) = ts" by simp
    moreover have "dequeue_bands (b # bs) s = (Some t, queue_pop i t s)" using i none by simp
    ultimately show ?thesis using i(1,2) list.set_intros(2) by metis
  next
    case (Cons y zs)
    with Cons.prems have "q_head (s_queues s b) = Some y" by (simp add: band_rep_def)
    moreover have "map (qs(b := zs)) bs = map qs bs" using Cons.prems(2) by auto
    ultimately have "dequeue_bands (b # bs) s = (Some t, queue_pop b t s)" "y = t"
      "concat (map (qs(b := zs)) (b # bs)) = ts"
      using Cons Cons.prems(3) by (simp_all del: map_eq_conv)
    with Cons show ?thesis using list.set_intros(1) by metis
  qed
qed

lemma sched_dequeue_empty: "sched_ok s qs \<Longrightarrow> queued qs = [] \<Longrightarrow> sched_dequeue s = (None, s)"
  unfolding sched_dequeue_def queued_def
  by (rule dequeue_bands_empty [of bands s qs]) (simp_all add: sched_ok_def sched_rep_def)

lemma sched_dequeue_head:
  assumes ok: "sched_ok s qs" and hd: "queued qs = t # ts"
  obtains qs' s' where "sched_dequeue s = (Some t, s')" and "sched_ok s' qs'" and "queued qs' = ts"
    and "same_but_next (tcb s) (tcb s')" and "s_current s' = s_current s"
    and "s_preempt_requested s' = s_preempt_requested s"
proof -
  have bands: "\<And>i. i \<in> set bands \<Longrightarrow> band_rep (tcb s) (s_queues s i) (qs i)"
    using ok by (simp add: sched_ok_def sched_rep_def)
  obtain i zs where i: "i \<in> set bands" "qs i = t # zs" "concat (map (qs(i := zs)) bands) = ts"
    and deq: "dequeue_bands bands s = (Some t, queue_pop i t s)"
    using dequeue_bands_head [of bands s qs t ts] bands hd by (auto simp: queued_def)
  have "distinct (qs i)" using ok i(1) by (simp add: sched_ok_def sched_rep_def distinct_queued)
  then have pop: "queue_pop i t s = queue_unlink i (pred_of None []) t s"
    using queue_pop_unlink [of s i t zs] bands [OF i(1)] i(2) by (simp add: pred_of_def)
  show ?thesis
  proof (rule that)
    show "sched_dequeue s = (Some t, queue_unlink i (pred_of None []) t s)"
      using deq pop by (simp add: sched_dequeue_def)
    show "sched_ok (queue_unlink i (pred_of None []) t s) (qs(i := [] @ zs))"
      by (rule queue_unlink_ok) (use ok i in simp_all)
    show "queued (qs(i := [] @ zs)) = ts" using i(3) by (simp add: queued_def)
  qed (simp_all add: same_but_next_unlink)
qed

text \<open>Unlinking a queued thread filters it out of the order; an absent thread is not found.\<close>

lemma queue_remove_bands_absent:
  "\<forall>i \<in> set bs. band_rep (tcb s) (s_queues s i) (qs i) \<and> t \<notin> set (qs i)
     \<Longrightarrow> queue_remove_bands t bs s = Some (False, s)"
  by (induction bs) (auto simp: band_rep_def remove_walk_absent)

lemma queue_remove_bands_found:
  assumes "\<forall>i \<in> set bs. band_rep (tcb s) (s_queues s i) (qs i)"
    and "i \<in> set bs" and "qs i = ys @ t # zs" and "t \<notin> set ys"
    and "\<forall>j \<in> set bs. j \<noteq> i \<longrightarrow> t \<notin> set (qs j)"
  shows "queue_remove_bands t bs s = Some (True, queue_unlink i (pred_of None ys) t s)"
  using assms
proof (induction bs)
  case Nil
  then show ?case by simp
next
  case (Cons b bs)
  then have chain: "lchain (links (tcb s)) (q_head (s_queues s b)) (qs b)"
    by (simp add: band_rep_def)
  show ?case
  proof (cases "b = i")
    case True
    with chain Cons.prems show ?thesis by (simp add: remove_walk_found)
  next
    case False
    then have "remove_walk (tcb s) None (q_head (s_queues s b)) t = Some None"
      using remove_walk_absent [OF chain] Cons.prems by simp
    moreover have "queue_remove_bands t bs s = Some (True, queue_unlink i (pred_of None ys) t s)"
      by (rule Cons.IH) (use Cons.prems False in auto)
    ultimately show ?thesis by simp
  qed
qed

lemma queued_filter:
  assumes "distinct (queued qs)" and "i \<in> set bands" and "qs i = ys @ t # zs"
  shows "queued (qs(i := ys @ zs)) = filter (\<lambda>x. x \<noteq> t) (queued qs)"
proof -
  have keep: "filter (\<lambda>x. x \<noteq> t) xs = xs" if "t \<notin> set xs" for xs
    using that by (auto simp: filter_id_conv)
  have "(qs(i := ys @ zs)) j = filter (\<lambda>x. x \<noteq> t) (qs j)" if "j \<in> set bands" for j
  proof (cases "j = i")
    case True
    moreover have "t \<notin> set ys" "t \<notin> set zs" using assms by (auto simp: distinct_queued)
    ultimately show ?thesis using assms(3) keep by simp
  next
    case False
    then have "t \<notin> set (qs j)"
      using assms(1) that \<open>i \<in> set bands\<close> \<open>qs i = _\<close> by (fastforce simp: distinct_queued)
    then show ?thesis using False keep by simp
  qed
  then have "map (qs(i := ys @ zs)) bands = map (filter (\<lambda>x. x \<noteq> t) \<circ> qs) bands"
    by simp
  then show ?thesis unfolding queued_def filter_concat map_map by (rule arg_cong)
qed

lemma queue_remove_absent:
  assumes "sched_ok s qs" and "t \<notin> set (queued qs)"
  shows "queue_remove (Some t) s = Some (False, s)"
  using assms queue_remove_bands_absent [of bands s qs t]
  by (simp add: queue_remove_def sched_ok_def sched_rep_def set_queued)

lemma queue_remove_queued:
  assumes ok: "sched_ok s qs" and t: "t \<in> set (queued qs)"
  obtains s' qs' where "queue_remove (Some t) s = Some (True, s')" and "sched_ok s' qs'"
    and "queued qs' = filter (\<lambda>x. x \<noteq> t) (queued qs)" and "same_but_next (tcb s) (tcb s')"
    and "s_current s' = s_current s" and "s_preempt_requested s' = s_preempt_requested s"
proof -
  obtain i where i: "i \<in> set bands" "t \<in> set (qs i)" using t by (auto simp: set_queued)
  then obtain ys zs where qi: "qs i = ys @ t # zs" and ys: "t \<notin> set ys" by (meson split_list_first)
  have dist: "distinct (queued qs)" using ok by (simp add: sched_ok_def sched_rep_def)
  then have "t \<notin> set (qs j)" if "j \<in> set bands" "j \<noteq> i" for j
    using i that by (auto simp: distinct_queued)
  then have rem: "queue_remove (Some t) s = Some (True, queue_unlink i (pred_of None ys) t s)"
    using queue_remove_bands_found [of bands s qs i ys t zs] ok i(1) qi ys
    by (simp add: queue_remove_def sched_ok_def sched_rep_def)
  show ?thesis
    by (rule that [OF rem queue_unlink_ok [OF ok i(1) qi] queued_filter [OF dist i(1) qi]])
      (simp_all add: same_but_next_unlink)
qed

subsection \<open>The order of the ready threads\<close>

text \<open>
  The position of a newly enqueued thread: behind every ready thread of its own or of a
  more urgent band, in front of every thread of a less urgent one.
\<close>

lemma bands_split: "i < 8 \<Longrightarrow> bands = [0..<Suc i] @ [Suc i..<8]"
proof -
  assume "i < 8"
  have "bands = [0..<8]" by (simp add: bands_def upt_rec)
  with \<open>i < 8\<close> show ?thesis using upt_add_eq_append [of 0 "Suc i" "7 - i"] by simp
qed

lemma queued_append_position:
  assumes ok: "sched_ok s qs" and i: "i < 8"
  shows "queued (qs(i := qs i @ [t])) =
    takeWhile (\<lambda>x. unat (t_priority (tcb s x)) \<le> i) (queued qs) @ t #
    dropWhile (\<lambda>x. unat (t_priority (tcb s x)) \<le> i) (queued qs)"
proof -
  let ?P = "\<lambda>x. unat (t_priority (tcb s x)) \<le> i"
  let ?lo = "concat (map qs [0..<Suc i])" and ?hi = "concat (map qs [Suc i..<8])"
  have prio: "unat (t_priority (tcb s x)) = j" if "j < 8" "x \<in> set (qs j)" for x j
    using ok that by (simp add: sched_ok_def in_bands)
  have q: "queued qs = ?lo @ ?hi"
    unfolding queued_def bands_split [OF i] by simp
  have lo: "?P x" if x: "x \<in> set ?lo" for x
  proof -
    obtain j where "j < Suc i" "x \<in> set (qs j)" using x
      by (auto simp del: upt_Suc)
    then show ?thesis using prio [of j x] i by simp
  qed
  have hi: "\<not> ?P x" if x: "x \<in> set ?hi" for x
  proof -
    obtain j where "Suc i \<le> j" "j < 8" "x \<in> set (qs j)" using x by auto
    then show ?thesis using prio [of j x] by simp
  qed
  have "takeWhile ?P (queued qs) = ?lo" "dropWhile ?P (queued qs) = ?hi"
    unfolding q by (simp_all only: while_split [of ?lo ?P ?hi, OF lo hi])
  moreover have "map (qs(i := qs i @ [t])) [0..<i] = map qs [0..<i]"
    "map (qs(i := qs i @ [t])) [Suc i..<8] = map qs [Suc i..<8]" by auto
  then have "queued (qs(i := qs i @ [t])) = ?lo @ t # ?hi"
    unfolding queued_def bands_split [OF i] by (simp del: map_eq_conv)
  ultimately show ?thesis by simp
qed

subsection \<open>The operations on well-formed run queues\<close>

text \<open>The test of \<open>sched_enqueue\<close> and the family of lists after it.\<close>

definition can_enqueue :: "sched \<Rightarrow> (nat \<Rightarrow> tptr list) \<Rightarrow> tptr \<Rightarrow> bool" where
  "can_enqueue s qs t \<longleftrightarrow> t_state (tcb s t) = PROCESS_STATE_READY
     \<and> unat (t_priority (tcb s t)) < 8 \<and> length (queued qs) < 32 \<and> t \<notin> set (queued qs)"

definition enqueued :: "sched \<Rightarrow> (nat \<Rightarrow> tptr list) \<Rightarrow> tptr \<Rightarrow> nat \<Rightarrow> tptr list" where
  "enqueued s qs t = (let i = unat (t_priority (tcb s t)) in
     if can_enqueue s qs t then qs(i := qs i @ [t]) else qs)"

lemma sched_enqueue_rep:
  assumes "sched_ok s qs"
  obtains s' where "sched_enqueue (Some t) s = Some (can_enqueue s qs t, s')"
    and "sched_ok s' (enqueued s qs t)" and "same_but_next (tcb s) (tcb s')"
    and "s_current s' = s_current s" and "s_preempt_requested s' = s_preempt_requested s"
    and "\<not> can_enqueue s qs t \<longrightarrow> s' = s"
proof (cases "can_enqueue s qs t")
  case True
  let ?i = "unat (t_priority (tcb s t))"
  have "sched_ok (queue_append ?i t s) (enqueued s qs t)"
    using assms True queue_append_ok [of s qs t ?i]
    by (simp add: can_enqueue_def enqueued_def Let_def)
  moreover have "sched_enqueue (Some t) s = Some (True, queue_append ?i t s)"
    using sched_enqueue_accepts [OF assms, of t] True by (simp add: can_enqueue_def)
  ultimately show ?thesis
    using True by (intro that [of "queue_append ?i t s"]) (simp_all add: same_but_next_append)
next
  case False
  then have "sched_enqueue (Some t) s = Some (False, s)"
    using sched_enqueue_accepts [OF assms, of t] by (auto simp: can_enqueue_def)
  with False assms show ?thesis by (intro that [of s]) (simp_all add: enqueued_def)
qed

lemma sched_yield_ok:
  assumes "sched_ok s qs"
  shows "\<exists>r s' qs'. sched_yield tp s = Some (r, s') \<and> sched_ok s' qs'"
proof (cases "\<exists>t. tp = Some t \<and> t_state (tcb s t) = PROCESS_STATE_RUNNING")
  case True
  then obtain t where t: "tp = Some t" "t_state (tcb s t) = PROCESS_STATE_RUNNING" by blast
  let ?s = "(set_tcb t ((tcb s t)\<lparr>t_state := PROCESS_STATE_READY,
               t_ticks_remaining := SCHED_DEFAULT_QUANTUM\<rparr>) s)\<lparr>s_preempt_requested := False\<rparr>"
  have "sched_ok ?s qs"
    using assms t sched_ok_set_unqueued [of s qs t] sched_ok_not_queued [of s qs t] by simp
  then obtain s' where "sched_enqueue (Some t) ?s = Some (can_enqueue ?s qs t, s')"
    "sched_ok s' (enqueued ?s qs t)" by (rule sched_enqueue_rep)
  with t show ?thesis by (auto simp: sched_yield_def Let_def)
next
  case False
  with assms show ?thesis by (auto simp: sched_yield_def split: option.split)
qed

lemma sched_tick_ok:
  assumes ok: "sched_ok s qs"
  shows "sched_ok (sched_tick tp s) qs"
proof (cases tp)
  case (Some t)
  have same: "sched_ok (set_tcb t b s) qs"
    if "t_next b = t_next (tcb s t)" "t_state b = t_state (tcb s t)"
      "t_priority b = t_priority (tcb s t)" for b
    using ok that by (rule sched_ok_set_same)
  have "sched_ok (u\<lparr>s_preempt_requested := True, s_state := SCHED_PREEMPT\<rparr>) qs"
    if "sched_ok u qs" for u
    using that by (simp add: sched_ok_def sched_rep_def)
  then show ?thesis using Some same by (simp add: sched_tick_def Let_def)
qed (use ok in \<open>simp add: sched_tick_def\<close>)

lemma sched_block_ok:
  assumes "sched_ok s qs"
  obtains s' qs' where "sched_block (Some t) s =
      Some (t_state (tcb s t) \<in> {PROCESS_STATE_BLOCKED, PROCESS_STATE_RUNNING} \<or> t \<in> set (queued qs), s')"
    and "sched_ok s' qs'" and "queued qs' = filter (\<lambda>x. x \<noteq> t) (queued qs)"
    and "\<forall>x. t_state (tcb s' x) =
      (if x = t \<and> (t_state (tcb s t) = PROCESS_STATE_RUNNING \<or> t \<in> set (queued qs))
       then PROCESS_STATE_BLOCKED else t_state (tcb s x))"
    and "\<forall>x. t_priority (tcb s' x) = t_priority (tcb s x)" and "s_current s' = s_current s"
proof (cases "t \<in> set (queued qs)")
  case True
  then have ready: "t_state (tcb s t) = PROCESS_STATE_READY" using assms sched_ok_queued(1) by blast
  obtain s1 qs1 where s1: "queue_remove (Some t) s = Some (True, s1)" "sched_ok s1 qs1"
    "queued qs1 = filter (\<lambda>x. x \<noteq> t) (queued qs)" "same_but_next (tcb s) (tcb s1)"
    "s_current s1 = s_current s"
    using queue_remove_queued [OF assms True] by metis
  let ?s = "set_tcb t ((tcb s1 t)\<lparr>t_state := PROCESS_STATE_BLOCKED\<rparr>) s1"
  have "sched_ok ?s qs1" using s1 by (intro sched_ok_set_unqueued) simp_all
  with s1 ready True show ?thesis
    by (intro that [of ?s qs1])
      (simp_all add: sched_block_def set_tcb_def same_but_next_fields [OF s1(4)])
next
  case False
  let ?s = "set_tcb t ((tcb s t)\<lparr>t_state := PROCESS_STATE_BLOCKED\<rparr>) s"
  have "filter (\<lambda>x. x \<noteq> t) (queued qs) = queued qs" using False by (auto simp: filter_id_conv)
  moreover have "sched_ok ?s qs" using assms False by (rule sched_ok_set_unqueued)
  ultimately show ?thesis
    using assms False queue_remove_absent [OF assms False]
    by (cases "t_state (tcb s t) = PROCESS_STATE_RUNNING")
      (intro that [of ?s qs], auto simp: sched_block_def set_tcb_def,
       intro that [of s qs], auto simp: sched_block_def set_tcb_def)
qed

text \<open>A thread that is made READY while it is in no queue.\<close>

definition make_ready :: "tptr \<Rightarrow> sched \<Rightarrow> sched" where
  "make_ready t s = set_tcb t ((tcb s t)\<lparr>t_state := PROCESS_STATE_READY\<rparr>) s"

lemma make_ready_ok: "sched_ok s qs \<Longrightarrow> t \<notin> set (queued qs) \<Longrightarrow> sched_ok (make_ready t s) qs"
  unfolding make_ready_def by (rule sched_ok_set_unqueued)

lemma sched_unblock_ok:
  assumes ok: "sched_ok s qs" and t: "t_state (tcb s t) = PROCESS_STATE_BLOCKED"
  obtains s' where "sched_unblock (Some t) s = Some (can_enqueue (make_ready t s) qs t, s')"
    and "sched_ok s' (enqueued (make_ready t s) qs t)"
    and "same_but_next (tcb (make_ready t s)) (tcb s')" and "s_current s' = s_current s"
proof -
  have "sched_ok (make_ready t s) qs"
    using ok t by (simp add: make_ready_ok sched_ok_not_queued [OF ok])
  then obtain s' where "sched_enqueue (Some t) (make_ready t s) = Some (can_enqueue (make_ready t s) qs t, s')"
    "sched_ok s' (enqueued (make_ready t s) qs t)" "same_but_next (tcb (make_ready t s)) (tcb s')"
    "s_current s' = s_current (make_ready t s)"
    using sched_enqueue_rep by metis
  with t show ?thesis
    by (intro that [of s']) (simp_all add: sched_unblock_def make_ready_def set_tcb_def)
qed

lemma sched_unblock_refuses:
  "t_state (tcb s t) \<noteq> PROCESS_STATE_BLOCKED \<Longrightarrow> sched_unblock (Some t) s = Some (False, s)"
  "sched_unblock None s = Some (False, s)"
  by (simp_all add: sched_unblock_def)

text \<open>
  The state in which \<open>sched_next\<close> looks for the next thread: a preempted current thread
  has been put at the back of its band.
\<close>

definition preempts :: "tptr option \<Rightarrow> sched \<Rightarrow> bool" where
  "preempts cur s \<longleftrightarrow> s_preempt_requested s
     \<and> (case cur of None \<Rightarrow> False | Some t \<Rightarrow> t_state (tcb s t) = PROCESS_STATE_RUNNING)"

definition requeued :: "tptr option \<Rightarrow> sched \<Rightarrow> (nat \<Rightarrow> tptr list) \<Rightarrow> nat \<Rightarrow> tptr list" where
  "requeued cur s qs = (case cur of None \<Rightarrow> qs | Some t \<Rightarrow>
     if preempts cur s then enqueued (make_ready t s) qs t else qs)"

lemma enqueued_cong:
  "t_state (tcb s t) = t_state (tcb s' t) \<Longrightarrow> t_priority (tcb s t) = t_priority (tcb s' t)
     \<Longrightarrow> enqueued s qs t = enqueued s' qs t"
  by (simp add: enqueued_def can_enqueue_def)

definition next_from :: "tptr option \<Rightarrow> sched \<Rightarrow> tptr option \<times> sched" where
  "next_from cur s =
     (case sched_dequeue s of
        (None, s2) \<Rightarrow>
          (if (case cur of None \<Rightarrow> False | Some t \<Rightarrow> t_state (tcb s2 t) = PROCESS_STATE_RUNNING)
           then (cur, s2) else (None, s2\<lparr>s_state := SCHED_IDLE\<rparr>))
      | (Some t, s2) \<Rightarrow>
          (Some t, if t_ticks_remaining (tcb s2 t) = 0
             then set_tcb t ((tcb s2 t)\<lparr>t_ticks_remaining := SCHED_DEFAULT_QUANTUM\<rparr>) s2
             else s2))"

lemma sched_next_cases:
  "\<not> preempts cur s \<Longrightarrow> sched_next cur s = Some (next_from cur s)"
  "preempts (Some t) s \<Longrightarrow>
     sched_enqueue (Some t) (set_tcb t ((tcb s t)\<lparr>t_state := PROCESS_STATE_READY,
        t_ticks_remaining := SCHED_DEFAULT_QUANTUM\<rparr>) (s\<lparr>s_preempt_requested := False\<rparr>))
       = Some (r, s1) \<Longrightarrow> sched_next (Some t) s = Some (next_from None s1)"
  by (auto simp: sched_next_def preempts_def next_from_def Let_def split: option.splits prod.splits)

lemma next_from_spec:
  assumes ok: "sched_ok s qs"
  shows "\<exists>r s' qs'. next_from cur s = (r, s') \<and> sched_ok s' qs' \<and> queued qs' = tl (queued qs)
    \<and> (\<forall>x. t_state (tcb s' x) = t_state (tcb s x))
    \<and> s_current s' = s_current s
    \<and> (case queued qs of
         [] \<Rightarrow> r = (case cur of None \<Rightarrow> None | Some t \<Rightarrow>
                      if t_state (tcb s t) = PROCESS_STATE_RUNNING then Some t else None)
       | t # ts \<Rightarrow> r = Some t \<and> t_ticks_remaining (tcb s' t) > 0)"
proof (cases "queued qs")
  case Nil
  have "sched_ok (s\<lparr>s_state := SCHED_IDLE\<rparr>) qs"
    using ok Nil by (simp add: sched_ok_def sched_rep_def)
  with ok Nil sched_dequeue_empty [OF ok Nil] show ?thesis
    by (auto simp: next_from_def split: option.split)
next
  case (Cons t ts)
  obtain qs' s' where s': "sched_dequeue s = (Some t, s')" "sched_ok s' qs'" "queued qs' = ts"
    "same_but_next (tcb s) (tcb s')" "s_current s' = s_current s"
    using sched_dequeue_head [OF ok Cons] by metis
  have "distinct (queued qs)" using ok by (simp add: sched_ok_def sched_rep_def)
  then have "t \<notin> set (queued qs')" using s'(3) Cons by simp
  then have "sched_ok (set_tcb t b s') qs'" for b
    using s'(2) by (intro sched_ok_set_unqueued)
  then show ?thesis
    using s' Cons
    by (auto simp: next_from_def set_tcb_def same_but_next_fields word_gt_0
        intro!: exI [of _ qs'])
qed

lemma sched_next_rep:
  assumes ok: "sched_ok s qs"
  shows "\<exists>r s' qs'. sched_next cur s = Some (r, s') \<and> sched_ok s' qs'
    \<and> queued qs' = tl (queued (requeued cur s qs))
    \<and> (\<forall>x. t_state (tcb s' x) = (if preempts cur s \<and> cur = Some x then PROCESS_STATE_READY
             else t_state (tcb s x)))
    \<and> s_current s' = s_current s
    \<and> (case queued (requeued cur s qs) of
         [] \<Rightarrow> r = (if preempts cur s then None else case cur of None \<Rightarrow> None | Some t \<Rightarrow>
                      if t_state (tcb s t) = PROCESS_STATE_RUNNING then Some t else None)
       | t # ts \<Rightarrow> r = Some t \<and> t_ticks_remaining (tcb s' t) > 0)"
proof (cases "preempts cur s")
  case False
  then have "requeued cur s qs = qs" by (auto simp: requeued_def split: option.split)
  with False next_from_spec [OF ok, of cur] show ?thesis
    by (simp add: sched_next_cases(1))
next
  case True
  then obtain t where cur: "cur = Some t" and run: "t_state (tcb s t) = PROCESS_STATE_RUNNING"
    by (auto simp: preempts_def split: option.splits)
  let ?s = "set_tcb t ((tcb s t)\<lparr>t_state := PROCESS_STATE_READY,
      t_ticks_remaining := SCHED_DEFAULT_QUANTUM\<rparr>) (s\<lparr>s_preempt_requested := False\<rparr>)"
  have ok': "sched_ok ?s qs"
    using ok run by (intro sched_ok_set_unqueued sched_ok_not_queued [OF ok]) simp_all
  have "enqueued ?s qs t = requeued cur s qs"
    using True cur by (auto simp: requeued_def make_ready_def set_tcb_def intro: enqueued_cong)
  then obtain r s1 where s1: "sched_enqueue (Some t) ?s = Some (r, s1)"
    "sched_ok s1 (requeued cur s qs)" "same_but_next (tcb ?s) (tcb s1)" "s_current s1 = s_current ?s"
    using sched_enqueue_rep [OF ok', of t] by metis
  have "t_state (tcb s1 x) = (if cur = Some x then PROCESS_STATE_READY else t_state (tcb s x))" for x
    using same_but_next_fields(1) [OF s1(3)] by (auto simp: cur set_tcb_def)
  moreover have "s_current s1 = s_current s" using s1(4) by (simp add: set_tcb_def)
  ultimately show ?thesis
    using next_from_spec [OF s1(2), of None] sched_next_cases(2) [OF True [unfolded cur] s1(1)] True
    by (simp add: cur cong: list.case_cong split del: if_split)
qed

lemma distinct_requeued:
  assumes "sched_ok s qs"
  shows "distinct (queued (requeued cur s' qs))"
proof -
  have dist: "distinct (queued qs)" using assms by (simp add: sched_ok_def sched_rep_def)
  have "distinct (queued (enqueued u qs t))" for u t
  proof (cases "can_enqueue u qs t")
    case True
    then have "unat (t_priority (tcb u t)) \<in> set bands" "t \<notin> set (queued qs)"
      by (simp_all add: can_enqueue_def in_bands)
    then show ?thesis
      using dist True unfolding enqueued_def Let_def if_P [OF True]
      by (intro distinct_queued_upd) (auto simp: distinct_queued set_queued)
  qed (simp add: enqueued_def dist)
  with dist show ?thesis by (simp add: requeued_def split: option.split)
qed

lemma sched_next_unqueued:
  assumes "sched_ok s qs" and "sched_next cur s = Some (r, s')"
  obtains qs' where "sched_ok s' qs'" and "\<And>n. r = Some n \<Longrightarrow> n \<notin> set (queued qs')"
proof -
  obtain qs' where qs': "sched_ok s' qs'" "queued qs' = tl (queued (requeued cur s qs))"
    and r: "case queued (requeued cur s qs) of
         [] \<Rightarrow> True | t # ts \<Rightarrow> r = Some t"
    using sched_next_rep [OF assms(1), of cur] assms(2) by (auto split: list.splits)
  have "n \<notin> set (queued qs')" if n: "r = Some n" for n
  proof (cases "queued (requeued cur s qs)")
    case Nil
    with qs' show ?thesis by simp
  next
    case (Cons t ts)
    with r n qs' have "t = n" "queued qs' = ts" by simp_all
    moreover have "distinct (t # ts)" using distinct_requeued [OF assms(1), of cur s] Cons by simp
    ultimately show ?thesis by simp
  qed
  with qs'(1) show ?thesis by (rule that)
qed

subsection \<open>Run queues whose threads need not be READY\<close>

text \<open>
  The kernel sometimes writes the state of a thread that is in a run queue. The links, the
  counters and the bands survive that; the following lemmas do without the states.
\<close>

lemma sched_ok_iff: "sched_ok s qs \<longleftrightarrow> sched_banded s qs \<and> (\<forall>t \<in> set (queued qs). t_state (tcb s t) = PROCESS_STATE_READY)"
  by (auto simp: sched_ok_def sched_banded_def set_queued)

lemma banded_set:
  assumes "sched_banded s qs"
    and "t \<in> set (queued qs) \<Longrightarrow> t_next b = t_next (tcb s t) \<and> t_priority b = t_priority (tcb s t)"
  shows "sched_banded (set_tcb t b s) qs"
proof -
  have "sched_rep (set_tcb t b s) qs"
    by (rule sched_rep_cong [of s]) (use assms in \<open>auto simp: sched_banded_def set_tcb_def sched_rep_def\<close>)
  moreover have "unat (t_priority (tcb (set_tcb t b s) x)) = i" if "i \<in> set bands" "x \<in> set (qs i)" for i x
  proof -
    have "x \<in> set (queued qs)" using that by (auto simp: set_queued)
    then show ?thesis using assms that by (auto simp: sched_banded_def set_tcb_def)
  qed
  ultimately show ?thesis by (simp add: sched_banded_def)
qed

lemma banded_fields [simp]:
  "sched_banded (s\<lparr>s_preempt_requested := b\<rparr>) qs = sched_banded s qs"
  "sched_banded (s\<lparr>s_current := c\<rparr>) qs = sched_banded s qs"
  by (simp_all add: sched_banded_def sched_rep_def)

lemma append_banded:
  assumes "sched_banded s qs" and "unat (t_priority (tcb s t)) = i" and "i < 8"
    and "length (queued qs) < 32" and "t \<notin> set (queued qs)"
  shows "sched_banded (queue_append i t s) (qs(i := qs i @ [t]))"
  using assms queue_append_rep [of s qs i t] by (auto simp: sched_banded_def in_bands queue_append_blocks)

lemma enqueue_banded:
  assumes b: "sched_banded s qs"
  shows "\<exists>r s' qs'. sched_enqueue tp s = Some (r, s') \<and> sched_banded s' qs'"
proof (cases "\<exists>t. tp = Some t \<and> unat (t_priority (tcb s t)) < 8")
  case True
  then obtain t where t: "tp = Some t" "unat (t_priority (tcb s t)) < 8" by blast
  let ?i = "unat (t_priority (tcb s t))"
  have rep: "sched_rep s qs" and i: "?i \<in> set bands" using b t by (simp_all add: sched_banded_def in_bands)
  have con: "queue_contains (tcb s) (Some (s_queues s ?i)) (Some t) = Some (t \<in> set (qs ?i))"
    using rep i by (intro queue_contains_rep) (simp add: sched_rep_def)
  have full: "s_total_ready s \<ge> SCHED_MAX_THREADS \<longleftrightarrow> \<not> length (queued qs) < 32"
    using sched_rep_bound [OF rep] by (simp add: word_le_nat_alt not_less)
  have "sched_banded (queue_append ?i t s) (qs(?i := qs ?i @ [t]))"
    if "t \<notin> set (qs ?i)" "length (queued qs) < 32"
  proof -
    have "t \<notin> set (queued qs)" using b that(1) by (auto simp: sched_banded_def set_queued)
    then show ?thesis using append_banded [OF b refl t(2) that(2)] by blast
  qed
  then show ?thesis
    using b t con full by (cases "t \<in> set (qs ?i)") (auto simp: sched_enqueue_def Let_def)
next
  case False
  with b show ?thesis by (auto simp: sched_enqueue_def word_le_nat_alt not_less split: option.split)
qed

lemma unlink_banded:
  assumes "sched_banded s qs" and "i \<in> set bands" and "qs i = ys @ t # zs"
  shows "sched_banded (queue_unlink i (pred_of None ys) t s) (qs(i := ys @ zs))"
  using assms queue_unlink_rep [of s qs i ys t zs] by (auto simp: sched_banded_def queue_unlink_blocks)

lemma dequeue_banded:
  assumes b: "sched_banded s qs"
  obtains r s' qs' where "sched_dequeue s = (r, s')" and "sched_banded s' qs'"
    and "\<And>t. r = Some t \<Longrightarrow> t \<notin> set (queued qs')" and "r = None \<Longrightarrow> s' = s \<and> queued qs' = []"
proof (cases "queued qs")
  case Nil
  then have "sched_dequeue s = (None, s)"
    using b dequeue_bands_empty [of bands s qs] by (simp add: sched_dequeue_def queued_def sched_banded_def sched_rep_def)
  then show ?thesis using b Nil by (intro that [of None s qs]) simp_all
next
  case (Cons t ts)
  have rep: "\<And>i. i \<in> set bands \<Longrightarrow> band_rep (tcb s) (s_queues s i) (qs i)" and dist: "distinct (queued qs)"
    using b by (simp_all add: sched_banded_def sched_rep_def)
  obtain i zs where i: "i \<in> set bands" "qs i = t # zs" "concat (map (qs(i := zs)) bands) = ts"
    and deq: "dequeue_bands bands s = (Some t, queue_pop i t s)"
    using dequeue_bands_head [of bands s qs t ts] rep Cons by (auto simp: queued_def)
  have "distinct (qs i)" using dist i(1) by (simp add: distinct_queued)
  then have "queue_pop i t s = queue_unlink i (pred_of None []) t s"
    using queue_pop_unlink [of s i t zs] rep [OF i(1)] i(2) by (simp add: pred_of_def)
  then have "sched_banded (queue_pop i t s) (qs(i := zs))" using unlink_banded [OF b i(1), of "[]" t zs] i(2) by simp
  moreover have "queued (qs(i := zs)) = ts" using i(3) by (simp add: queued_def)
  ultimately show ?thesis using deq dist Cons by (intro that [of "Some t" "queue_pop i t s" "qs(i := zs)"]) (auto simp: sched_dequeue_def)
qed

lemma remove_banded:
  assumes b: "sched_banded s qs"
  shows "\<exists>r s' qs'. queue_remove (Some t) s = Some (r, s') \<and> sched_banded s' qs' \<and> same_but_next (tcb s) (tcb s') \<and> t \<notin> set (queued qs')"
proof (cases "t \<in> set (queued qs)")
  case False
  then have "queue_remove (Some t) s = Some (False, s)"
    using b queue_remove_bands_absent [of bands s qs t] by (simp add: queue_remove_def sched_banded_def sched_rep_def set_queued)
  with b False show ?thesis by auto
next
  case True
  then obtain i where i: "i \<in> set bands" "t \<in> set (qs i)" by (auto simp: set_queued)
  then obtain ys zs where qi: "qs i = ys @ t # zs" and ys: "t \<notin> set ys" by (meson split_list_first)
  have dist: "distinct (queued qs)" using b by (simp add: sched_banded_def sched_rep_def)
  then have "t \<notin> set (qs j)" if "j \<in> set bands" "j \<noteq> i" for j using i that by (auto simp: distinct_queued)
  then have "queue_remove (Some t) s = Some (True, queue_unlink i (pred_of None ys) t s)"
    using queue_remove_bands_found [of bands s qs i ys t zs] b i(1) qi ys
    by (simp add: queue_remove_def sched_banded_def sched_rep_def)
  moreover have "t \<notin> set (queued (qs(i := ys @ zs)))" by (simp add: queued_filter [OF dist i(1) qi])
  ultimately show ?thesis using unlink_banded [OF b i(1) qi] same_but_next_unlink by blast
qed

lemma banded_state: "sched_banded s qs \<Longrightarrow> sched_banded (set_tcb t ((tcb s t)\<lparr>t_state := st\<rparr>) s) qs"
  "sched_banded s qs \<Longrightarrow> sched_banded (set_tcb t ((tcb s t)\<lparr>t_state := st, t_ticks_remaining := n\<rparr>) s) qs"
  by (simp_all add: banded_set)

lemma yield_banded:
  assumes b: "sched_banded s qs"
  shows "\<exists>r s' qs'. sched_yield tp s = Some (r, s') \<and> sched_banded s' qs'"
proof (cases tp)
  case (Some t)
  have "sched_banded ((set_tcb t ((tcb s t)\<lparr>t_state := PROCESS_STATE_READY,
      t_ticks_remaining := SCHED_DEFAULT_QUANTUM\<rparr>) s)\<lparr>s_preempt_requested := False\<rparr>) qs"
    using banded_state(2) [OF b] by simp
  from enqueue_banded [OF this, of "Some t"] b Some show ?thesis by (auto simp: sched_yield_def Let_def)
qed (use b in \<open>auto simp: sched_yield_def\<close>)

lemma tick_banded: "sched_banded s qs \<Longrightarrow> sched_banded (sched_tick tp s) qs"
proof (cases tp)
  case (Some t)
  assume b: "sched_banded s qs"
  have same: "sched_banded (set_tcb t x s) qs"
    if "t_next x = t_next (tcb s t)" "t_priority x = t_priority (tcb s t)" for x
    using b that by (simp add: banded_set)
  have "sched_banded (u\<lparr>s_preempt_requested := True, s_state := SCHED_PREEMPT\<rparr>) qs" if "sched_banded u qs" for u
    using that by (simp add: sched_banded_def sched_rep_def)
  then show ?thesis using Some same by (simp add: sched_tick_def Let_def)
qed (simp add: sched_tick_def)

lemma block_banded:
  assumes b: "sched_banded s qs"
  shows "\<exists>r s' qs'. sched_block tp s = Some (r, s') \<and> sched_banded s' qs'"
proof (cases tp)
  case (Some t)
  obtain r s1 qs1 where s1: "queue_remove (Some t) s = Some (r, s1)" "sched_banded s1 qs1"
    using remove_banded [OF b, of t] by blast
  with b Some banded_state(1) [OF s1(2), of t] banded_state(1) [OF b, of t] show ?thesis
    by (cases "t_state (tcb s t)") (auto simp: sched_block_def)
qed (use b in \<open>auto simp: sched_block_def\<close>)

lemma unblock_banded:
  assumes b: "sched_banded s qs"
  shows "\<exists>r s' qs'. sched_unblock tp s = Some (r, s') \<and> sched_banded s' qs'"
proof (cases tp)
  case (Some t)
  from enqueue_banded [OF banded_state(1) [OF b], of "Some t" t PROCESS_STATE_READY] b Some
  show ?thesis by (auto simp: sched_unblock_def)
qed (use b in \<open>auto simp: sched_unblock_def\<close>)

lemma next_from_banded:
  assumes b: "sched_banded s qs"
  shows "\<exists>qs'. sched_banded (snd (next_from cur s)) qs'"
proof -
  obtain r s' qs' where d: "sched_dequeue s = (r, s')" "sched_banded s' qs'"
    "\<And>t. r = Some t \<Longrightarrow> t \<notin> set (queued qs')" "r = None \<Longrightarrow> s' = s \<and> queued qs' = []"
    using dequeue_banded [OF b] by metis
  have "sched_banded (s'\<lparr>s_state := SCHED_IDLE\<rparr>) qs'" if "r = None"
    using d that by (simp add: sched_banded_def sched_rep_def)
  moreover have "sched_banded (set_tcb t x s') qs'" if "r = Some t" for t x
    using d that by (intro banded_set) simp_all
  ultimately show ?thesis using d by (cases r) (auto simp: next_from_def)
qed

lemma next_banded:
  assumes b: "sched_banded s qs"
  shows "\<exists>r s' qs'. sched_next cur s = Some (r, s') \<and> sched_banded s' qs'"
proof (cases "preempts cur s")
  case False
  then show ?thesis using next_from_banded [OF b, of cur] sched_next_cases(1) by (metis prod.collapse)
next
  case True
  then obtain t where cur: "cur = Some t" by (auto simp: preempts_def split: option.splits)
  have "sched_banded (set_tcb t ((tcb s t)\<lparr>t_state := PROCESS_STATE_READY,
      t_ticks_remaining := SCHED_DEFAULT_QUANTUM\<rparr>) (s\<lparr>s_preempt_requested := False\<rparr>)) qs"
    using b by (intro banded_set) simp_all
  from enqueue_banded [OF this, of "Some t"] obtain r s1 qs1 where s1: "sched_enqueue (Some t)
      (set_tcb t ((tcb s t)\<lparr>t_state := PROCESS_STATE_READY, t_ticks_remaining := SCHED_DEFAULT_QUANTUM\<rparr>)
        (s\<lparr>s_preempt_requested := False\<rparr>)) = Some (r, s1)" "sched_banded s1 qs1" by blast
  then show ?thesis
    using next_from_banded [OF s1(2), of None] sched_next_cases(2) [OF True [unfolded cur] s1(1)] cur
    by (metis prod.collapse)
qed

lemma undo_banded:
  assumes b: "sched_banded s qs"
  shows "\<exists>s' qs'. undo_block t s = Some s' \<and> sched_banded s' qs'"
  using enqueue_banded [OF banded_state(1) [OF b], of "Some t" t PROCESS_STATE_READY] banded_state(1)
  by (fastforce simp: undo_block_def sched_set_current_def)

lemma switch_banded: "sched_banded s qs \<Longrightarrow> sched_banded (sched_context_switch prev nxt s) qs"
  by (auto simp: sched_context_switch_def banded_state split: option.split)

subsection \<open>Reachable states\<close>

text \<open>A thread is in none of the run queues.\<close>

definition unlinked :: "tptr \<Rightarrow> sched \<Rightarrow> bool" where
  "unlinked t s \<longleftrightarrow> list_all (\<lambda>i. queue_contains (tcb s) (Some (s_queues s i)) (Some t) = Some False) bands"

lemma unlinked_banded: "sched_banded s qs \<Longrightarrow> unlinked t s \<longleftrightarrow> t \<notin> set (queued qs)"
proof -
  assume "sched_banded s qs"
  then have "queue_contains (tcb s) (Some (s_queues s i)) (Some t) = Some (t \<in> set (qs i))" if "i \<in> set bands" for i
    using that by (intro queue_contains_rep) (simp add: sched_banded_def sched_rep_def)
  then show ?thesis by (auto simp: unlinked_def list_all_iff set_queued)
qed

text \<open>
  The ways the kernel moves the scheduler. \<open>sched_step False\<close>: the calls of the interface; the two
  forms of a dispatch, which switches to the thread that \<open>sched_dequeue\<close> (system calls and
  channels) or \<open>sched_next\<close> (timer) returned; any write to the control block of a thread that is in no
  run queue, which is how a thread is created, started, given a priority and put back to
  RUNNING; and a write to fields the scheduler does not read. \<open>sched_step True\<close>: the paths that write
  the state of a thread that may be in a run queue, which are the undo code and, in
  \<open>process_exit\<close>, the write of ZOMBIE to every thread of the process.
\<close>

inductive sched_step :: "bool \<Rightarrow> sched \<Rightarrow> sched \<Rightarrow> bool" where
  step_enqueue: "sched_enqueue tp s = Some (r, s') \<Longrightarrow> sched_step False s s'"
| step_dequeue: "sched_dequeue s = (r, s') \<Longrightarrow> sched_step False s s'"
| step_yield: "sched_yield tp s = Some (r, s') \<Longrightarrow> sched_step False s s'"
| step_tick: "sched_step False s (sched_tick tp s)"
| step_block: "sched_block tp s = Some (r, s') \<Longrightarrow> sched_step False s s'"
| step_unblock: "sched_unblock tp s = Some (r, s') \<Longrightarrow> sched_step False s s'"
| step_next: "sched_next cur s = Some (r, s') \<Longrightarrow> sched_step False s s'"
| step_take: "sched_dequeue s = (nxt, s1) \<Longrightarrow> sched_step False s (sched_context_switch prev nxt s1)"
| step_dispatch: "sched_next cur s = Some (nxt, s1) \<Longrightarrow> sched_step False s (sched_context_switch prev nxt s1)"
| step_set_current: "sched_step False s (sched_set_current tp s)"
| step_thread: "unlinked t s \<Longrightarrow> sched_step False s (set_tcb t b s)"
| step_fields: "t_next b = t_next (tcb s t) \<Longrightarrow> t_state b = t_state (tcb s t) \<Longrightarrow> t_priority b = t_priority (tcb s t)
    \<Longrightarrow> sched_step False s (set_tcb t b s)"
| step_undo: "undo_block t s = Some s' \<Longrightarrow> sched_step True s s'"
| step_state: "sched_step True s (set_tcb t ((tcb s t)\<lparr>t_state := st\<rparr>) s)"

text \<open>The flag of a reachable state says whether a step of the second kind led to it.\<close>

inductive sched_reachable :: "bool \<Rightarrow> sched \<Rightarrow> bool" where
  reach_init: "sched_reachable False (sched_init m)"
| reach_step: "sched_reachable d s \<Longrightarrow> sched_step e s s' \<Longrightarrow> sched_reachable (d \<or> e) s'"

lemma sched_step_banded:
  assumes b: "sched_banded s qs" and "sched_step e s s'"
  shows "\<exists>qs'. sched_banded s' qs'"
  using assms(2)
proof cases
  case (step_dequeue r)
  then show ?thesis using dequeue_banded [OF b] by (metis prod.inject)
next
  case (step_take nxt s1 prev)
  then show ?thesis using dequeue_banded [OF b] switch_banded by (metis prod.inject)
next
  case (step_dispatch cur nxt s1 prev)
  then show ?thesis using next_banded [OF b, of cur] switch_banded by fastforce
next
  case (step_thread t b')
  then show ?thesis using banded_set [OF b] unlinked_banded [OF b] by blast
next
  case (step_fields b' t)
  then show ?thesis using banded_set [OF b] by blast
next
  case (step_enqueue tp r)
  then show ?thesis using enqueue_banded [OF b, of tp] by auto
next
  case (step_yield tp r)
  then show ?thesis using yield_banded [OF b, of tp] by auto
next
  case (step_block tp r)
  then show ?thesis using block_banded [OF b, of tp] by auto
next
  case (step_unblock tp r)
  then show ?thesis using unblock_banded [OF b, of tp] by auto
next
  case (step_next cur r)
  then show ?thesis using next_banded [OF b, of cur] by auto
next
  case (step_undo t)
  then show ?thesis using undo_banded [OF b, of t] by auto
qed (use tick_banded [OF b] banded_state(1) [OF b] b in \<open>auto simp: sched_set_current_def\<close>)

lemma sched_enqueue_keeps:
  assumes "sched_ok s qs" and "sched_enqueue tp s = Some (r, s')"
  shows "\<exists>qs'. sched_ok s' qs'"
proof (cases tp)
  case (Some t)
  obtain u where "sched_enqueue (Some t) s = Some (can_enqueue s qs t, u)"
    and "sched_ok u (enqueued s qs t)"
    by (rule sched_enqueue_rep [OF assms(1)])
  with assms(2) Some show ?thesis by auto
qed (use assms in \<open>auto simp: sched_enqueue_def\<close>)

lemma sched_dequeue_keeps:
  assumes "sched_ok s qs" and "sched_dequeue s = (r, s')"
  shows "\<exists>qs'. sched_ok s' qs'"
proof (cases "queued qs")
  case (Cons t ts)
  obtain u qs' where "sched_dequeue s = (Some t, u)" and "sched_ok u qs'"
    by (rule sched_dequeue_head [OF assms(1) Cons])
  with assms(2) show ?thesis by auto
qed (use assms in \<open>auto simp: sched_dequeue_empty\<close>)

lemma sched_block_keeps:
  assumes "sched_ok s qs" and "sched_block tp s = Some (r, s')"
  shows "\<exists>qs'. sched_ok s' qs'"
proof (cases tp)
  case (Some t)
  obtain b u qs' where "sched_block (Some t) s = Some (b, u)" and "sched_ok u qs'"
    by (rule sched_block_ok [OF assms(1)])
  with assms(2) Some show ?thesis by auto
qed (use assms in \<open>auto simp: sched_block_def\<close>)

lemma sched_unblock_keeps:
  assumes "sched_ok s qs" and "sched_unblock tp s = Some (r, s')"
  shows "\<exists>qs'. sched_ok s' qs'"
proof (cases "\<exists>t. tp = Some t \<and> t_state (tcb s t) = PROCESS_STATE_BLOCKED")
  case True
  then obtain t where t: "tp = Some t" "t_state (tcb s t) = PROCESS_STATE_BLOCKED" by blast
  obtain b u qs' where "sched_unblock (Some t) s = Some (b, u)" and "sched_ok u qs'"
    by (rule sched_unblock_ok [OF assms(1) t(2)])
  with assms(2) t(1) show ?thesis by auto
next
  case False
  then have "s' = s" using assms(2) by (cases tp) (auto simp: sched_unblock_def)
  with assms(1) show ?thesis by blast
qed

lemma sched_dispatch_keeps:
  assumes "sched_ok s qs" and "sched_next cur s = Some (nxt, s')"
  shows "\<exists>qs'. sched_ok (sched_context_switch prev nxt s') qs'"
proof -
  obtain qs' where "sched_ok s' qs'" and "\<And>n. nxt = Some n \<Longrightarrow> n \<notin> set (queued qs')"
    using sched_next_unqueued [OF assms] by blast
  then have "sched_ok (sched_context_switch prev nxt s') qs'"
    by (auto simp: sched_context_switch_def sched_ok_set_unqueued split: option.split)
  then show ?thesis by blast
qed

lemma sched_take_keeps:
  assumes "sched_ok s qs" and "sched_dequeue s = (nxt, s')"
  shows "\<exists>qs'. sched_ok (sched_context_switch prev nxt s') qs'"
proof (cases "queued qs")
  case Nil
  then have "nxt = None" "s' = s" using assms sched_dequeue_empty [OF assms(1)] by simp_all
  then show ?thesis using assms(1) by (auto simp: sched_context_switch_def split: option.split)
next
  case (Cons t ts)
  obtain u qs' where u: "sched_dequeue s = (Some t, u)" "sched_ok u qs'" "queued qs' = ts"
    by (rule sched_dequeue_head [OF assms(1) Cons])
  have "distinct (t # ts)" using assms(1) Cons by (simp add: sched_ok_def sched_rep_def)
  then have "sched_ok (sched_context_switch prev (Some t) u) qs'"
    using u by (auto simp: sched_context_switch_def sched_ok_set_unqueued split: option.split)
  then show ?thesis using u(1) assms(2) by auto
qed

lemma sched_step_keeps:
  assumes ok: "sched_ok s qs" and "sched_step False s s'"
  shows "\<exists>qs'. sched_ok s' qs'"
  using assms(2)
proof cases
  case (step_yield tp r)
  with sched_yield_ok [OF ok, of tp] show ?thesis by auto
next
  case (step_next cur r)
  with sched_next_unqueued [OF ok] show ?thesis by blast
next
  case (step_tick tp)
  with sched_tick_ok [OF ok] show ?thesis by blast
next
  case (step_thread t b)
  moreover have "sched_banded s qs" using ok by (simp add: sched_ok_iff)
  ultimately show ?thesis using ok unlinked_banded sched_ok_set_unqueued by metis
next
  case (step_fields b t)
  then show ?thesis using sched_ok_set_same [OF ok] by blast
qed (use ok sched_take_keeps sched_enqueue_keeps sched_dequeue_keeps sched_block_keeps sched_unblock_keeps
      sched_dispatch_keeps in \<open>auto simp: sched_set_current_def\<close>)

text \<open>
  How a running thread gives up the processor: it is blocked, the first ready thread is taken
  and switched to.
\<close>

lemma block_and_switch:
  assumes ok: "sched_ok s qs" and cur: "t_state (tcb s cur) = PROCESS_STATE_RUNNING"
    and q: "queued qs = n # ts"
  obtains s1 s2 qs2 where "sched_block (Some cur) s = Some (True, s1)" and "sched_dequeue s1 = (Some n, s2)"
    and "sched_ok (sched_context_switch (Some cur) (Some n) s2) qs2" and "queued qs2 = ts"
    and "s_current (sched_context_switch (Some cur) (Some n) s2) = Some n"
    and "\<forall>x. t_state (tcb (sched_context_switch (Some cur) (Some n) s2) x) =
      (if x = n then PROCESS_STATE_RUNNING else if x = cur then PROCESS_STATE_BLOCKED
       else t_state (tcb s x))"
    and "\<forall>x. t_priority (tcb (sched_context_switch (Some cur) (Some n) s2) x) = t_priority (tcb s x)"
proof -
  have cur': "cur \<notin> set (queued qs)" using sched_ok_not_queued [OF ok] cur by simp
  obtain s1 qs1 where s1: "sched_block (Some cur) s = Some (t_state (tcb s cur) \<in> {PROCESS_STATE_BLOCKED,
      PROCESS_STATE_RUNNING} \<or> cur \<in> set (queued qs), s1)" "sched_ok s1 qs1"
    and q1: "queued qs1 = filter (\<lambda>x. x \<noteq> cur) (queued qs)"
    and st: "\<forall>x. t_state (tcb s1 x) =
      (if x = cur \<and> (t_state (tcb s cur) = PROCESS_STATE_RUNNING \<or> cur \<in> set (queued qs))
       then PROCESS_STATE_BLOCKED else t_state (tcb s x))"
    and pr: "\<forall>x. t_priority (tcb s1 x) = t_priority (tcb s x)"
    by (rule sched_block_ok [OF ok, of cur])
  have "queued qs1 = n # ts" using q1 q cur' by (auto simp: filter_id_conv)
  then obtain s2 qs2 where s2: "sched_dequeue s1 = (Some n, s2)" "sched_ok s2 qs2" "queued qs2 = ts"
    "same_but_next (tcb s1) (tcb s2)"
    using sched_dequeue_head [OF s1(2)] by metis
  have "distinct (n # ts)" using ok q by (simp add: sched_ok_def sched_rep_def)
  then have "n \<notin> set (queued qs2)" using s2(3) by simp
  show ?thesis
  proof (rule that)
    show "sched_block (Some cur) s = Some (True, s1)" using s1(1) cur by simp
    show "sched_ok (sched_context_switch (Some cur) (Some n) s2) qs2"
      using s2(2) \<open>n \<notin> _\<close> by (simp add: sched_context_switch_def sched_ok_set_unqueued)
  qed (use s2 st pr cur in \<open>auto simp: sched_context_switch_def set_tcb_def same_but_next_fields\<close>)
qed

lemma sched_reachable_ok: "sched_reachable d s \<Longrightarrow> \<exists>qs. sched_banded s qs \<and> (d \<or> sched_ok s qs)"
proof (induction rule: sched_reachable.induct)
  case (reach_init m)
  then show ?case using sched_ok_init [of m] by (auto simp: sched_ok_iff)
next
  case (reach_step d s e s')
  show ?case
  proof (cases "d \<or> e")
    case True
    then show ?thesis using reach_step sched_step_banded by blast
  next
    case False
    then show ?thesis using reach_step sched_step_keeps [of s _ s'] by (auto simp: sched_ok_iff)
  qed
qed

text \<open>In every such state the operations return.\<close>

lemma banded_returns:
  assumes "sched_banded s qs"
  shows "sched_enqueue tp s \<noteq> None \<and> sched_yield tp s \<noteq> None \<and> sched_block tp s \<noteq> None \<and> sched_unblock tp s \<noteq> None
    \<and> sched_next tp s \<noteq> None \<and> undo_block t s \<noteq> None"
  using enqueue_banded [OF assms, of tp] yield_banded [OF assms, of tp] block_banded [OF assms, of tp]
    unblock_banded [OF assms, of tp] next_banded [OF assms, of tp] undo_banded [OF assms, of t] by auto

subsection \<open>The run queues as a priority queue\<close>

text \<open>
  What a dispatcher relies on: the queue hides an order of waiting threads, and a removal
  takes the first of it. \<open>drain\<close> is the client: at most \<open>n\<close> removals in a row.
\<close>

fun drain :: "('s \<Rightarrow> 't option \<times> 's) \<Rightarrow> nat \<Rightarrow> 's \<Rightarrow> 't list \<times> 's" where
  "drain deq 0 s = ([], s)"
| "drain deq (Suc n) s =
     (case deq s of
        (None, s') \<Rightarrow> ([], s')
      | (Some t, s') \<Rightarrow> (let (ts, s'') = drain deq n s' in (t # ts, s'')))"

locale ready_queue =
  fixes rep :: "'s \<Rightarrow> 'q \<Rightarrow> bool" and order :: "'q \<Rightarrow> 't list" and deq :: "'s \<Rightarrow> 't option \<times> 's"
  assumes deq_empty: "rep s q \<Longrightarrow> order q = [] \<Longrightarrow> deq s = (None, s)"
    and deq_first: "rep s q \<Longrightarrow> order q = t # ts \<Longrightarrow>
      \<exists>s' q'. deq s = (Some t, s') \<and> rep s' q' \<and> order q' = ts"
begin

lemma drain_takes:
  "rep s q \<Longrightarrow> \<exists>s' q'. drain deq n s = (take n (order q), s') \<and> rep s' q' \<and> order q' = drop n (order q)"
proof (induction n arbitrary: s q)
  case 0
  then show ?case by auto
next
  case (Suc n)
  show ?case
  proof (cases "order q")
    case Nil
    with Suc.prems deq_empty show ?thesis by auto
  next
    case (Cons t ts)
    with Suc.prems deq_first obtain s1 q1 where "deq s = (Some t, s1)" "rep s1 q1" "order q1 = ts"
      by blast
    moreover from this Suc.IH obtain s2 q2
      where "drain deq n s1 = (take n ts, s2)" "rep s2 q2" "order q2 = drop n ts" by blast
    ultimately show ?thesis using Cons by auto
  qed
qed

end

interpretation rq: ready_queue sched_ok queued sched_dequeue
proof
  show "sched_ok s qs \<Longrightarrow> queued qs = [] \<Longrightarrow> sched_dequeue s = (None, s)" for s qs
    by (rule sched_dequeue_empty)
  show "\<exists>s' qs'. sched_dequeue s = (Some t, s') \<and> sched_ok s' qs' \<and> queued qs' = ts"
    if "sched_ok s qs" "queued qs = t # ts" for s qs t ts
    by (rule sched_dequeue_head [OF that]) blast
qed

lemma queued_sorted:
  assumes "sched_ok s qs"
  shows "sorted (map (\<lambda>t. unat (t_priority (tcb s t))) (queued qs))"
proof -
  let ?p = "\<lambda>t. unat (t_priority (tcb s t))"
  have "map ?p (qs i) = replicate (length (qs i)) i" if "i \<in> set bands" for i
  proof -
    have "map ?p (qs i) = map (\<lambda>_. i) (qs i)"
      using assms that by (intro map_cong) (simp_all add: sched_ok_def)
    then show ?thesis by (simp only: map_replicate_const)
  qed
  then have "map (map ?p \<circ> qs) bands = map (\<lambda>i. replicate (length (qs i)) i) bands" by simp
  then have "map ?p (queued qs) = concat (map (\<lambda>i. replicate (length (qs i)) i) bands)"
    unfolding queued_def map_concat map_map by (rule arg_cong)
  then show ?thesis using sorted_replicates [of bands] by (simp add: bands_def)
qed

subsection \<open>Properties\<close>

text \<open>A state with two ready threads of the default priority, for the witnesses.\<close>

definition example_tcbs :: tcbs where
  "example_tcbs = (\<lambda>t. thread_zeroed\<lparr>t_state := PROCESS_STATE_READY, t_priority := 4\<rparr>)"

definition example_sched :: sched where
  "example_sched = queue_append 4 2 (queue_append 4 1 (sched_init example_tcbs))"

definition example_lists :: "nat \<Rightarrow> tptr list" where
  "example_lists = (\<lambda>_. [])(4 := [1, 2])"

lemma example_ok: "sched_ok example_sched example_lists"
proof -
  have "sched_ok (queue_append 4 1 (sched_init example_tcbs)) ((\<lambda>_. [])(4 := [] @ [1]))"
    by (rule queue_append_ok [OF sched_ok_init])
      (simp_all add: sched_init_def example_tcbs_def queued_def bands_def)
  from queue_append_ok [OF this, of 2 4]
  have "sched_ok example_sched ((\<lambda>_. [])(4 := [1, 2]))"
    unfolding example_sched_def
    by (simp add: sched_init_def example_tcbs_def queued_def bands_def queue_append_blocks)
  then show ?thesis by (simp add: example_lists_def)
qed

lemma example_queued: "queued example_lists = [1, 2]"
  by (simp add: queued_def example_lists_def bands_def)

lemma example_reachable: "sched_reachable False example_sched"
proof -
  let ?s1 = "queue_append 4 1 (sched_init example_tcbs)"
  have "sched_enqueue (Some 1) (sched_init example_tcbs) = Some (True, ?s1)"
    unfolding sched_enqueue_accepts [OF sched_ok_init]
    by (simp add: sched_init_def example_tcbs_def queued_def bands_def)
  moreover have "sched_ok ?s1 ((\<lambda>_. [])(4 := [] @ [1]))"
    by (rule queue_append_ok [OF sched_ok_init])
      (simp_all add: sched_init_def example_tcbs_def queued_def bands_def)
  then have "sched_enqueue (Some 2) ?s1 = Some (True, example_sched)"
    unfolding example_sched_def sched_enqueue_accepts [OF \<open>sched_ok ?s1 _\<close>]
    by (simp add: sched_init_def example_tcbs_def queued_def bands_def queue_append_blocks)
  ultimately show ?thesis
    using reach_step [OF reach_step [OF reach_init step_enqueue] step_enqueue] by fastforce
qed

text \<open>
  C6. In every state the scheduler can reach, the eight run queues are acyclic, disjoint and
  NULL-terminated, every queued thread sits in the band of its priority, the tails, the
  counts, the total and the idle flag agree with the queues, and every operation returns. The
  queued threads are moreover READY as long as the kernel has neither undone a block nor
  ended a process, the two paths that write the state of a thread that may be in a queue.
  Not among the steps is a change of the priority of a thread while it is in a queue.
\<close>

theorem sched_reachable_wf:
  assumes "sched_reachable written s"
  shows "\<exists>qs. sched_banded s qs \<and> (written \<or> (\<forall>t \<in> set (queued qs). t_state (tcb s t) = PROCESS_STATE_READY))
    \<and> (\<forall>tp t. sched_enqueue tp s \<noteq> None \<and> sched_yield tp s \<noteq> None \<and> sched_block tp s \<noteq> None
         \<and> sched_unblock tp s \<noteq> None \<and> sched_next tp s \<noteq> None \<and> undo_block t s \<noteq> None)"
  using sched_reachable_ok [OF assms] banded_returns by (auto simp: sched_ok_iff)

theorem sched_reachable_wf_witness:
  "sched_reachable False example_sched \<and> (\<exists>qs. sched_banded example_sched qs
     \<and> list_all (\<lambda>t. t_state (tcb example_sched t) = PROCESS_STATE_READY) (queued qs))"
  using sched_reachable_wf [OF example_reachable] example_reachable by (auto simp: list_all_iff)

text \<open>
  C14. Removing threads one after the other hands them out in strict priority order and, at
  equal priority, in the order in which they were queued: \<open>n\<close> calls of \<open>sched_dequeue\<close>
  return the first \<open>n\<close> threads of the order the run queues represent, that order is sorted
  by priority, and what is left is the rest of it.
\<close>

theorem sched_dequeue_drains:
  assumes "sched_ok s qs"
  shows "\<exists>s' qs'. drain sched_dequeue n s = (take n (queued qs), s') \<and> sched_ok s' qs'
    \<and> queued qs' = drop n (queued qs)
    \<and> sorted (map (\<lambda>t. unat (t_priority (tcb s t))) (queued qs))"
  using rq.drain_takes [OF assms, of n] queued_sorted [OF assms] by blast

theorem sched_dequeue_drains_witness:
  "\<exists>s' qs'. drain sched_dequeue 5 example_sched = ([1, 2], s') \<and> sched_ok s' qs' \<and> queued qs' = []"
  using sched_dequeue_drains [OF example_ok, of 5] by (auto simp: example_queued)

text \<open>
  C32. \<open>sched_enqueue\<close> returns on every thread. It accepts exactly a READY thread of a valid
  priority that is in no queue while fewer than 32 threads wait, and then puts it behind
  every thread of its own or a more urgent priority and before every less urgent one; a
  refused call leaves the scheduler as it was.
\<close>

theorem sched_enqueue_spec:
  assumes "sched_ok s qs"
  shows "\<exists>s' qs'. sched_enqueue (Some t) s = Some (can_enqueue s qs t, s') \<and> sched_ok s' qs'
    \<and> (if can_enqueue s qs t
       then queued qs' =
         takeWhile (\<lambda>x. unat (t_priority (tcb s x)) \<le> unat (t_priority (tcb s t))) (queued qs) @ t #
         dropWhile (\<lambda>x. unat (t_priority (tcb s x)) \<le> unat (t_priority (tcb s t))) (queued qs)
       else s' = s \<and> qs' = qs)"
proof -
  obtain s' where s': "sched_enqueue (Some t) s = Some (can_enqueue s qs t, s')"
    "sched_ok s' (enqueued s qs t)" "\<not> can_enqueue s qs t \<longrightarrow> s' = s"
    by (rule sched_enqueue_rep [OF assms, of t])
  show ?thesis
  proof (cases "can_enqueue s qs t")
    case True
    then have "unat (t_priority (tcb s t)) < 8" by (simp add: can_enqueue_def)
    from queued_append_position [OF assms this, of t] True s' show ?thesis
      by (auto simp: enqueued_def Let_def)
  next
    case False
    with s' show ?thesis by (auto simp: enqueued_def)
  qed
qed

theorem sched_enqueue_spec_witness:
  "\<exists>s' qs'. sched_enqueue (Some 3) example_sched = Some (True, s') \<and> sched_ok s' qs'
     \<and> queued qs' = [1, 2, 3]"
  using sched_enqueue_spec [OF example_ok, of 3]
  by (simp add: can_enqueue_def example_queued example_sched_def queue_append_blocks
      sched_init_def example_tcbs_def)

text \<open>
  C33. \<open>sched_next\<close> always returns on well-formed run queues and keeps them well formed. It
  hands out the first thread in the order of the bands, after a preempted current thread was
  put at the back of its band, with a quantum left; with nothing ready it hands back the
  current thread while that one is still running and was not preempted, and no thread
  otherwise.
\<close>

theorem sched_next_spec:
  assumes "sched_ok s qs"
  shows "\<exists>r s' qs'. sched_next cur s = Some (r, s') \<and> sched_ok s' qs'
    \<and> queued qs' = tl (queued (requeued cur s qs))
    \<and> (case queued (requeued cur s qs) of
         [] \<Rightarrow> r = (if preempts cur s then None else case cur of None \<Rightarrow> None | Some t \<Rightarrow>
                      if t_state (tcb s t) = PROCESS_STATE_RUNNING then Some t else None)
       | t # ts \<Rightarrow> r = Some t \<and> t_ticks_remaining (tcb s' t) > 0)"
  using sched_next_rep [OF assms, of cur] by blast

theorem sched_next_spec_witness:
  "\<exists>s' qs'. sched_next None example_sched = Some (Some 1, s') \<and> queued qs' = [2]
     \<and> t_ticks_remaining (tcb s' 1) > 0"
  using sched_next_spec [OF example_ok, of None] by (auto simp: requeued_def example_queued)

text \<open>
  C34. Blocking a ready thread takes it out of the run queues and nothing else, and unblocking
  it afterwards always succeeds and puts it behind every thread of its own or a more urgent
  priority and before every less urgent one: both calls return, the thread is READY again
  and no other thread changes its state.
\<close>

theorem sched_block_unblock:
  assumes ok: "sched_ok s qs" and t: "t \<in> set (queued qs)"
  shows "\<exists>s1 qs1 s2 qs2. sched_block (Some t) s = Some (True, s1) \<and> sched_ok s1 qs1
    \<and> queued qs1 = filter (\<lambda>x. x \<noteq> t) (queued qs) \<and> t_state (tcb s1 t) = PROCESS_STATE_BLOCKED
    \<and> sched_unblock (Some t) s1 = Some (True, s2) \<and> sched_ok s2 qs2
    \<and> queued qs2 =
        takeWhile (\<lambda>x. unat (t_priority (tcb s x)) \<le> unat (t_priority (tcb s t))) (queued qs1) @ t #
        dropWhile (\<lambda>x. unat (t_priority (tcb s x)) \<le> unat (t_priority (tcb s t))) (queued qs1)
    \<and> t_state (tcb s2 t) = PROCESS_STATE_READY
    \<and> (\<forall>x. x \<noteq> t \<longrightarrow> t_state (tcb s1 x) = t_state (tcb s x) \<and> t_state (tcb s2 x) = t_state (tcb s x))"
proof -
  obtain s1 qs1 where s1: "sched_block (Some t) s = Some (t_state (tcb s t) \<in> {PROCESS_STATE_BLOCKED,
      PROCESS_STATE_RUNNING} \<or> t \<in> set (queued qs), s1)" "sched_ok s1 qs1"
    and q1: "queued qs1 = filter (\<lambda>x. x \<noteq> t) (queued qs)"
    and st: "\<forall>x. t_state (tcb s1 x) =
      (if x = t \<and> (t_state (tcb s t) = PROCESS_STATE_RUNNING \<or> t \<in> set (queued qs))
       then PROCESS_STATE_BLOCKED else t_state (tcb s x))"
    and pr: "\<forall>x. t_priority (tcb s1 x) = t_priority (tcb s x)"
    by (rule sched_block_ok [OF ok, of t])
  have blocked: "t_state (tcb s1 t) = PROCESS_STATE_BLOCKED" using st t by simp
  let ?m = "make_ready t s1"
  obtain s2 where s2: "sched_unblock (Some t) s1 = Some (can_enqueue ?m qs1 t, s2)"
    "sched_ok s2 (enqueued ?m qs1 t)" "same_but_next (tcb ?m) (tcb s2)"
    by (rule sched_unblock_ok [OF s1(2) blocked])
  have "length (queued qs1) < length (queued qs)"
    unfolding q1 using t by (intro length_filter_less) auto
  moreover have "length (queued qs) \<le> 32" using ok by (simp add: sched_ok_def sched_rep_def)
  ultimately have can: "can_enqueue ?m qs1 t"
    using sched_ok_queued(3) [OF ok t] q1 pr by (simp add: can_enqueue_def make_ready_def set_tcb_def)
  have m: "sched_ok ?m qs1" using make_ready_ok [OF s1(2)] q1 by simp
  have prm: "t_priority (tcb ?m x) = t_priority (tcb s x)" for x using pr by (simp add: make_ready_def set_tcb_def)
  have "queued (enqueued ?m qs1 t) =
      takeWhile (\<lambda>x. unat (t_priority (tcb s x)) \<le> unat (t_priority (tcb s t))) (queued qs1) @ t #
      dropWhile (\<lambda>x. unat (t_priority (tcb s x)) \<le> unat (t_priority (tcb s t))) (queued qs1)"
    using queued_append_position [OF m, of "unat (t_priority (tcb ?m t))" t] can
    by (simp add: enqueued_def Let_def can_enqueue_def prm)
  moreover have "t_state (tcb s2 x) = (if x = t then PROCESS_STATE_READY else t_state (tcb s x))" for x
    using same_but_next_fields(1) [OF s2(3), of x] st by (auto simp: make_ready_def set_tcb_def)
  ultimately show ?thesis
    using s1 s2(1,2) q1 t blocked st can by (intro exI [of _ s1] exI [of _ qs1] exI [of _ s2] exI) simp
qed

theorem sched_block_unblock_witness:
  "\<exists>s1 s2 qs2. sched_block (Some 1) example_sched = Some (True, s1) \<and> sched_unblock (Some 1) s1 = Some (True, s2)
     \<and> sched_ok s2 qs2 \<and> queued qs2 = [2, 1]"
proof -
  have "t_priority (tcb example_sched x) = 4" for x
    by (simp add: example_sched_def queue_append_blocks sched_init_def example_tcbs_def)
  then show ?thesis using sched_block_unblock [OF example_ok, of 1] by (auto simp: example_queued)
qed

end
