(* ===== verification/Resource_Pool.thy ===== *)
theory Resource_Pool
  imports Kernel_Prelude
begin

text \<open>
  The contract of the kernel's pools (kernel stacks, page frames): an allocation hands out
  resources that nobody holds, a release takes one back. \<open>pool_run\<close> is a client that allocates
  and releases in any order; the locale shows that no resource is ever held twice, and the
  component theories interpret it on their own operations.
\<close>

datatype ('q, 'r) pool_req = Acquire 'q | Give_back 'r

fun pool_run ::
  "('q \<Rightarrow> 's \<Rightarrow> 'r list \<times> 's) \<Rightarrow> ('r \<Rightarrow> 's \<Rightarrow> 's) \<Rightarrow> ('q, 'r) pool_req list \<Rightarrow> 'r list \<Rightarrow> 's \<Rightarrow> 'r list \<times> 's" where
  "pool_run alloc release [] held s = (held, s)"
| "pool_run alloc release (Acquire q # rs) held s =
     (case alloc q s of (new, s') \<Rightarrow> pool_run alloc release rs (new @ held) s')"
| "pool_run alloc release (Give_back r # rs) held s =
     (if r \<in> set held then pool_run alloc release rs (remove1 r held) (release r s)
      else pool_run alloc release rs held s)"

text \<open>An operation that hands out at most one resource.\<close>

definition single :: "('s \<Rightarrow> 'r option \<times> 's) \<Rightarrow> unit \<Rightarrow> 's \<Rightarrow> 'r list \<times> 's" where
  "single alloc u s = (case alloc s of (None, s') \<Rightarrow> ([], s') | (Some r, s') \<Rightarrow> ([r], s'))"

locale resource_pool =
  fixes inv :: "'s \<Rightarrow> bool" and live :: "'s \<Rightarrow> 'r set"
    and alloc :: "'q \<Rightarrow> 's \<Rightarrow> 'r list \<times> 's" and release :: "'r \<Rightarrow> 's \<Rightarrow> 's"
  assumes alloc_fresh: "inv s \<Longrightarrow> alloc q s = (new, s') \<Longrightarrow>
      distinct new \<and> set new \<inter> live s = {} \<and> live s' = live s \<union> set new \<and> inv s'"
    and release_live: "inv s \<Longrightarrow> r \<in> live s \<Longrightarrow> live (release r s) = live s - {r} \<and> inv (release r s)"
begin

lemma run_exclusive:
  assumes "inv s" and "distinct held" and "set held \<subseteq> live s"
    and "pool_run alloc release rs held s = (held', s')"
  shows "inv s' \<and> distinct held' \<and> set held' \<subseteq> live s' \<and> live s' - set held' = live s - set held"
  using assms
proof (induction rs arbitrary: held s)
  case (Cons q rs)
  show ?case
  proof (cases q)
    case (Acquire x)
    obtain new s1 where a: "alloc x s = (new, s1)" by fastforce
    note n = alloc_fresh [OF Cons.prems(1) a]
    have "distinct (new @ held)" "set (new @ held) \<subseteq> live s1" "live s1 - set (new @ held) = live s - set held"
      using n Cons.prems(2,3) by auto
    then show ?thesis using n Cons.prems Cons.IH [of s1 "new @ held"] a Acquire by auto
  next
    case (Give_back r)
    show ?thesis
    proof (cases "r \<in> set held")
      case True
      then have "live (release r s) = live s - {r}" "inv (release r s)"
        using release_live [OF Cons.prems(1), of r] Cons.prems(3) by auto
      then show ?thesis
        using Cons.prems Cons.IH [of "release r s" "remove1 r held"] True Give_back by auto
    qed (use Cons Give_back in simp)
  qed
qed simp

end

end
