(* ===== verification/Kstack.thy ===== *)
theory Kstack
  imports Scheduler Resource_Pool
begin

text \<open>
  The kernel stack pool of \<^verbatim>\<open>src/kernel/sched/kstack.c\<close> and the register save and
  restore of \<^verbatim>\<open>arch/x86_64/context_switch.asm\<close> and
  \<^verbatim>\<open>arch/aarch64/context_switch.S\<close>. The address \<open>base\<close> of the static array
  \<open>s_kstacks\<close> and the address \<open>tramp\<close> of the trampoline are fixed by the linker and are
  arguments of the definitions. Stack memory is a store of 64-bit words; every access of
  the modelled code is an aligned 8-byte access.
\<close>

subsection \<open>The stack pool\<close>

abbreviation (input) KSTACK_COUNT :: nat where "KSTACK_COUNT \<equiv> 32"
abbreviation (input) KSTACK_SIZE :: u64 where "KSTACK_SIZE \<equiv> 65536"

type_synonym kstack_used = "nat \<Rightarrow> bool"

text \<open>\<open>&s_kstacks[i][KSTACK_SIZE]\<close>, the address just past stack \<open>i\<close>.\<close>

definition kstack_top :: "u64 \<Rightarrow> nat \<Rightarrow> u64" where
  "kstack_top base i = base + of_nat i * KSTACK_SIZE + KSTACK_SIZE"

definition kstack_init :: "kstack_used \<Rightarrow> kstack_used" where
  "kstack_init used = fold (\<lambda>i u. u(i := False)) [0..<KSTACK_COUNT] used"

fun kstack_alloc_loop :: "u64 \<Rightarrow> nat list \<Rightarrow> kstack_used \<Rightarrow> u64 option \<times> kstack_used" where
  "kstack_alloc_loop base [] used = (None, used)"
| "kstack_alloc_loop base (i # is) used =
     (if \<not> used i then (Some (kstack_top base i), used(i := True))
      else kstack_alloc_loop base is used)"

definition kstack_alloc :: "u64 \<Rightarrow> kstack_used \<Rightarrow> u64 option \<times> kstack_used" where
  "kstack_alloc base used = kstack_alloc_loop base [0..<KSTACK_COUNT] used"

fun kstack_free_loop :: "u64 \<Rightarrow> u64 \<Rightarrow> nat list \<Rightarrow> kstack_used \<Rightarrow> kstack_used" where
  "kstack_free_loop base addr [] used = used"
| "kstack_free_loop base addr (i # is) used =
     (if kstack_top base i = addr then used(i := False) else kstack_free_loop base addr is used)"

definition kstack_free :: "u64 \<Rightarrow> u64 option \<Rightarrow> kstack_used \<Rightarrow> kstack_used" where
  "kstack_free base tp used =
     (case tp of
        None \<Rightarrow> used
      | Some a \<Rightarrow> kstack_free_loop base a [0..<KSTACK_COUNT] used)"

subsection \<open>The initial frame of a thread\<close>

type_synonym qmem = "u64 \<Rightarrow> u64"



subsection \<open>The assembly context switch\<close>

text \<open>
  \<open>sched_x86_context_switch\<close> is entered by a call, so the word at \<open>rsp\<close> is the return
  address of the caller.
\<close>

record x86_regs =
  rip :: u64
  rsp :: u64
  rbp :: u64
  rbx :: u64
  r12 :: u64
  r13 :: u64
  r14 :: u64
  r15 :: u64

definition x86_push :: "(x86_regs \<Rightarrow> u64) \<Rightarrow> x86_regs \<times> qmem \<Rightarrow> x86_regs \<times> qmem" where
  "x86_push r st = (case st of (g, mem) \<Rightarrow>
     (g\<lparr>rsp := rsp g - 8\<rparr>, mem(rsp g - 8 := r g)))"

definition x86_pop :: "(u64 \<Rightarrow> x86_regs \<Rightarrow> x86_regs) \<Rightarrow> x86_regs \<times> qmem \<Rightarrow> x86_regs \<times> qmem" where
  "x86_pop upd st = (case st of (g, mem) \<Rightarrow> ((upd (mem (rsp g)) g)\<lparr>rsp := rsp g + 8\<rparr>, mem))"

definition sched_x86_context_switch ::
  "tptr \<Rightarrow> tptr \<Rightarrow> x86_regs \<times> qmem \<times> tcbs \<Rightarrow> x86_regs \<times> qmem \<times> tcbs" where
  "sched_x86_context_switch prev nxt st =
     (case st of (g, mem, m) \<Rightarrow>
       (let (g1, mem1) = (x86_push r15 \<circ> x86_push r14 \<circ> x86_push r13 \<circ> x86_push r12
                            \<circ> x86_push rbx \<circ> x86_push rbp) (g, mem);
            m1 = m(prev := (m prev)\<lparr>t_ctx := (t_ctx (m prev))\<lparr>ctx_sp := rsp g1\<rparr>\<rparr>);
            g2 = g1\<lparr>rsp := ctx_sp (t_ctx (m1 nxt))\<rparr>;
            (g3, mem3) = (x86_pop (\<lambda>v. rip_update (\<lambda>_. v)) \<circ> x86_pop (\<lambda>v. rbp_update (\<lambda>_. v))
                            \<circ> x86_pop (\<lambda>v. rbx_update (\<lambda>_. v)) \<circ> x86_pop (\<lambda>v. r12_update (\<lambda>_. v))
                            \<circ> x86_pop (\<lambda>v. r13_update (\<lambda>_. v)) \<circ> x86_pop (\<lambda>v. r14_update (\<lambda>_. v))
                            \<circ> x86_pop (\<lambda>v. r15_update (\<lambda>_. v))) (g2, mem1)
        in (g3, mem3, m1)))"

record aa64_regs =
  pc :: u64
  xsp :: u64
  x19 :: u64
  x20 :: u64
  x21 :: u64
  x22 :: u64
  x23 :: u64
  x24 :: u64
  x25 :: u64
  x26 :: u64
  x27 :: u64
  x28 :: u64
  x29 :: u64
  x30 :: u64

definition aa64_stp ::
  "(aa64_regs \<Rightarrow> u64) \<Rightarrow> (aa64_regs \<Rightarrow> u64) \<Rightarrow> aa64_regs \<times> qmem \<Rightarrow> aa64_regs \<times> qmem" where
  "aa64_stp a b st = (case st of (g, mem) \<Rightarrow>
     (g\<lparr>xsp := xsp g - 16\<rparr>, mem(xsp g - 16 := a g, xsp g - 16 + 8 := b g)))"

definition aa64_ldp ::
  "(u64 \<Rightarrow> u64 \<Rightarrow> aa64_regs \<Rightarrow> aa64_regs) \<Rightarrow> aa64_regs \<times> qmem \<Rightarrow> aa64_regs \<times> qmem" where
  "aa64_ldp upd st = (case st of (g, mem) \<Rightarrow>
     ((upd (mem (xsp g)) (mem (xsp g + 8)) g)\<lparr>xsp := xsp g + 16\<rparr>, mem))"

definition sched_aa64_context_switch ::
  "tptr \<Rightarrow> tptr \<Rightarrow> aa64_regs \<times> qmem \<times> tcbs \<Rightarrow> aa64_regs \<times> qmem \<times> tcbs" where
  "sched_aa64_context_switch prev nxt st =
     (case st of (g, mem, m) \<Rightarrow>
       (let (g1, mem1) = (aa64_stp x29 x30 \<circ> aa64_stp x27 x28 \<circ> aa64_stp x25 x26
                            \<circ> aa64_stp x23 x24 \<circ> aa64_stp x21 x22 \<circ> aa64_stp x19 x20) (g, mem);
            m1 = m(prev := (m prev)\<lparr>t_ctx := (t_ctx (m prev))\<lparr>ctx_sp := xsp g1\<rparr>\<rparr>);
            g2 = g1\<lparr>xsp := ctx_sp (t_ctx (m1 nxt))\<rparr>;
            (g3, mem3) = (aa64_ldp (\<lambda>v w. x19_update (\<lambda>_. v) \<circ> x20_update (\<lambda>_. w))
                            \<circ> aa64_ldp (\<lambda>v w. x21_update (\<lambda>_. v) \<circ> x22_update (\<lambda>_. w))
                            \<circ> aa64_ldp (\<lambda>v w. x23_update (\<lambda>_. v) \<circ> x24_update (\<lambda>_. w))
                            \<circ> aa64_ldp (\<lambda>v w. x25_update (\<lambda>_. v) \<circ> x26_update (\<lambda>_. w))
                            \<circ> aa64_ldp (\<lambda>v w. x27_update (\<lambda>_. v) \<circ> x28_update (\<lambda>_. w))
                            \<circ> aa64_ldp (\<lambda>v w. x29_update (\<lambda>_. v) \<circ> x30_update (\<lambda>_. w))) (g2, mem1)
        in (g3\<lparr>pc := x30 g3\<rparr>, mem3, m1)))"

subsection \<open>The pool hands out each stack once\<close>

definition kstack_live :: "u64 \<Rightarrow> kstack_used \<Rightarrow> u64 set" where
  "kstack_live base used = {kstack_top base i | i. i < KSTACK_COUNT \<and> used i}"

lemma kstack_top_inj:
  assumes "kstack_top base i = kstack_top base j" and "i < 32" and "j < 32"
  shows "i = j"
proof -
  have "(of_nat i * 65536 :: u64) = of_nat j * 65536" using assms(1) by (simp add: kstack_top_def)
  then have "(of_nat (i * 65536) :: u64) = of_nat (j * 65536)" by simp
  then show ?thesis using assms(2,3) by (subst (asm) word_of_nat_eq_iff) (simp add: take_bit_nat_eq_self)
qed

lemma kstack_alloc_loop_Some:
  assumes "kstack_alloc_loop base is used = (Some a, used')"
  shows "\<exists>i \<in> set is. \<not> used i \<and> a = kstack_top base i \<and> used' = used(i := True)"
  using assms by (induction "is") (auto split: if_splits)

lemma kstack_alloc_loop_None:
  assumes "kstack_alloc_loop base is used = (None, used')"
  shows "used' = used \<and> (\<forall>i \<in> set is. used i)"
  using assms by (induction "is") (auto split: if_splits)

lemma kstack_free_loop_top:
  assumes "i \<in> set is" and "set is \<subseteq> {..<32}"
  shows "kstack_free_loop base (kstack_top base i) is used = used(i := False)"
  using assms by (induction "is") (auto dest: kstack_top_inj)

lemma kstack_free_top:
  "i < 32 \<Longrightarrow> kstack_free base (Some (kstack_top base i)) used = used(i := False)"
  unfolding kstack_free_def option.case by (rule kstack_free_loop_top) auto

lemma kstack_live_upd:
  assumes "i < 32"
  shows "kstack_live base (used(i := b)) =
    (if b then insert (kstack_top base i) (kstack_live base used)
     else kstack_live base used - {kstack_top base i})"
  using assms by (auto simp: kstack_live_def dest: kstack_top_inj)

interpretation kp: resource_pool "\<lambda>_. True" "kstack_live base" "single (kstack_alloc base)"
  "\<lambda>a. kstack_free base (Some a)" for base
proof
  fix q :: unit and s s' new
  assume a: "single (kstack_alloc base) q s = (new, s')"
  show "distinct new \<and> set new \<inter> kstack_live base s = {}
    \<and> kstack_live base s' = kstack_live base s \<union> set new \<and> True"
  proof (cases "fst (kstack_alloc base s)")
    case None
    then have "kstack_alloc base s = (None, s')" "new = []"
      using a by (auto simp: single_def split: prod.splits option.splits)
    then show ?thesis by (auto simp: kstack_alloc_def dest!: kstack_alloc_loop_None)
  next
    case (Some r)
    then have "kstack_alloc base s = (Some r, s')" "new = [r]"
      using a by (auto simp: single_def split: prod.splits option.splits)
    moreover from this obtain i where "i < 32" "\<not> s i" "r = kstack_top base i" "s' = s(i := True)"
      unfolding kstack_alloc_def by (auto dest!: kstack_alloc_loop_Some)
    ultimately show ?thesis
      by (auto simp: kstack_live_upd) (auto simp: kstack_live_def dest: kstack_top_inj)
  qed
next
  fix s r
  assume "r \<in> kstack_live base s"
  then obtain i where "i < 32" "r = kstack_top base i" by (auto simp: kstack_live_def)
  then show "kstack_live base (kstack_free base (Some r) s) = kstack_live base s - {r} \<and> True"
    by (simp add: kstack_free_top kstack_live_upd)
qed

lemma kstack_init_used: "i < 32 \<Longrightarrow> \<not> kstack_init used i"
proof -
  have "fold (\<lambda>i u. u(i := False)) xs u i = (if i \<in> set xs then False else u i)" for xs u
    by (induction xs arbitrary: u) auto
  then show "i < 32 \<Longrightarrow> ?thesis" by (simp only: kstack_init_def) simp
qed

lemma unat_kstack_top:
  assumes "unat base + 32 * 65536 < 2 ^ 64" and "i < 32"
  shows "unat (kstack_top base i) = unat base + (i + 1) * 65536"
proof -
  have "kstack_top base i = of_nat (unat base + (i + 1) * 65536)"
    by (simp add: kstack_top_def algebra_simps)
  moreover have "unat base + (i + 1) * 65536 < 2 ^ 64" using assms by simp
  ultimately show ?thesis by (simp add: unat_of_nat take_bit_nat_eq_self del: of_nat_add of_nat_mult)
qed

text \<open>
  C16. However threads are created and destroyed, no two of them hold overlapping kernel
  stacks: after any sequence of allocations and releases that starts from \<open>kstack_init\<close>,
  the stacks handed out and not yet returned are pairwise distinct and their 64 KiB ranges
  are disjoint, and there are at most 32 of them.
\<close>

theorem kstack_exclusive:
  assumes "unat base + 32 * 65536 < 2 ^ 64"
    and "pool_run (single (kstack_alloc base)) (\<lambda>a. kstack_free base (Some a)) reqs [] (kstack_init used) = (held, used')"
  shows "distinct held \<and> length held \<le> 32
    \<and> (\<forall>a \<in> set held. \<forall>b \<in> set held. a \<noteq> b \<longrightarrow>
         unat a + 65536 \<le> unat b \<or> unat b + 65536 \<le> unat a)"
proof -
  have "kstack_live base (kstack_init used) = {}"
    by (auto simp: kstack_live_def kstack_init_used)
  then have held: "distinct held" "set held \<subseteq> kstack_live base used'"
    using kp.run_exclusive [OF _ _ _ assms(2)] by simp_all
  have "kstack_live base used' \<subseteq> kstack_top base ` {..<32}" by (auto simp: kstack_live_def)
  with held have sub: "set held \<subseteq> kstack_top base ` {..<32}" by blast
  then have "card (set held) \<le> card (kstack_top base ` {..<32})" by (intro card_mono) simp_all
  also have "\<dots> \<le> card {..<32::nat}" by (rule card_image_le) simp
  finally have "length held \<le> 32" using held(1) by (simp add: distinct_card)
  moreover have "unat a + 65536 \<le> unat b \<or> unat b + 65536 \<le> unat a"
    if ab: "a \<in> set held" "b \<in> set held" "a \<noteq> b" for a b
  proof -
    obtain i j where ij: "a = kstack_top base i" "i < 32" "b = kstack_top base j" "j < 32"
      using sub ab by blast
    with ab(3) have "i < j \<or> j < i" by (metis linorder_neqE_nat)
    with ij show ?thesis using unat_kstack_top [OF assms(1)] by auto
  qed
  ultimately show ?thesis using held(1) by blast
qed

definition example_pool_reqs :: "(unit, u64) pool_req list" where
  "example_pool_reqs = [Acquire (), Acquire (), Give_back 69632, Acquire ()]"

definition example_pool :: "u64 list \<times> kstack_used" where
  "example_pool = pool_run (single (kstack_alloc 4096)) (\<lambda>a. kstack_free 4096 (Some a)) example_pool_reqs []
     (kstack_init (\<lambda>_. True))"

lemma example_pool_held: "fst example_pool = [69632, 135168]"
  by code_simp

theorem kstack_exclusive_witness:
  "fst example_pool = [69632, 135168] \<and> distinct (fst example_pool) \<and> length (fst example_pool) \<le> 32"
  using kstack_exclusive [of 4096 example_pool_reqs "\<lambda>_. True" "fst example_pool" "snd example_pool"]
    example_pool_held
  by (simp add: example_pool_def)

subsection \<open>Dispatching and resuming a thread\<close>

text \<open>The \<open>n\<close> words below a stack pointer.\<close>

definition frame_words :: "u64 \<Rightarrow> nat \<Rightarrow> u64 set" where
  "frame_words sp n = (\<lambda>k. sp - 8 * of_nat k) ` {1..n}"

lemma frame_words_6: "frame_words sp 6 = {sp - 8, sp - 16, sp - 24, sp - 32, sp - 40, sp - 48}"
proof -
  have "{1..6::nat} = {1, 2, 3, 4, 5, 6}" by auto
  then show ?thesis by (simp add: frame_words_def)
qed


lemma frame_words_12:
  "frame_words sp 12 = frame_words sp 6 \<union> {sp - 56, sp - 64, sp - 72, sp - 80, sp - 88, sp - 96}"
proof -
  have "{1..12::nat} = {1..6} \<union> {7, 8, 9, 10, 11, 12}" by auto
  then show ?thesis by (simp add: frame_words_def)
qed

definition x86_saved :: "x86_regs \<Rightarrow> qmem \<Rightarrow> qmem" where
  "x86_saved g mem = mem(rsp g - 8 := rbp g, rsp g - 16 := rbx g, rsp g - 24 := r12 g,
     rsp g - 32 := r13 g, rsp g - 40 := r14 g, rsp g - 48 := r15 g)"

lemma x86_switch_eval:
  "sched_x86_context_switch p n (g, mem, m) =
    (let m1 = m(p := (m p)\<lparr>t_ctx := (t_ctx (m p))\<lparr>ctx_sp := rsp g - 48\<rparr>\<rparr>);
         s = ctx_sp (t_ctx (m1 n));
         f = x86_saved g mem
     in (\<lparr>rip = f (s + 48), rsp = s + 56, rbp = f (s + 40), rbx = f (s + 32), r12 = f (s + 24),
          r13 = f (s + 16), r14 = f (s + 8), r15 = f s\<rparr>, f, m1))"
  by (cases g) (simp add: sched_x86_context_switch_def x86_push_def x86_pop_def x86_saved_def Let_def
      ac_simps del: fun_upd_apply)

lemma x86_saved_reads:
  "x86_saved g mem (rsp g) = mem (rsp g)" "x86_saved g mem (rsp g - 8) = rbp g"
  "x86_saved g mem (rsp g - 16) = rbx g" "x86_saved g mem (rsp g - 24) = r12 g"
  "x86_saved g mem (rsp g - 32) = r13 g" "x86_saved g mem (rsp g - 40) = r14 g"
  "x86_saved g mem (rsp g - 48) = r15 g"
  by (simp_all add: x86_saved_def)

lemma x86_saved_other: "a \<notin> frame_words (rsp g) 6 \<Longrightarrow> x86_saved g mem a = mem a"
  by (simp add: x86_saved_def frame_words_6)


definition aa64_saved :: "aa64_regs \<Rightarrow> qmem \<Rightarrow> qmem" where
  "aa64_saved g mem = mem(xsp g - 16 := x19 g, xsp g - 8 := x20 g, xsp g - 32 := x21 g,
     xsp g - 24 := x22 g, xsp g - 48 := x23 g, xsp g - 40 := x24 g, xsp g - 64 := x25 g,
     xsp g - 56 := x26 g, xsp g - 80 := x27 g, xsp g - 72 := x28 g, xsp g - 96 := x29 g,
     xsp g - 88 := x30 g)"

lemma aa64_switch_eval:
  "sched_aa64_context_switch p n (g, mem, m) =
    (let m1 = m(p := (m p)\<lparr>t_ctx := (t_ctx (m p))\<lparr>ctx_sp := xsp g - 96\<rparr>\<rparr>);
         s = ctx_sp (t_ctx (m1 n));
         f = aa64_saved g mem
     in (\<lparr>pc = f (s + 8), xsp = s + 96, x19 = f (s + 80), x20 = f (s + 88), x21 = f (s + 64),
          x22 = f (s + 72), x23 = f (s + 48), x24 = f (s + 56), x25 = f (s + 32), x26 = f (s + 40),
          x27 = f (s + 16), x28 = f (s + 24), x29 = f s, x30 = f (s + 8)\<rparr>, f, m1))"
  by (cases g) (simp add: sched_aa64_context_switch_def aa64_stp_def aa64_ldp_def aa64_saved_def Let_def
      ac_simps del: fun_upd_apply)

lemma aa64_saved_reads:
  "aa64_saved g mem (xsp g - 96) = x29 g" "aa64_saved g mem (xsp g - 88) = x30 g"
  "aa64_saved g mem (xsp g - 80) = x27 g" "aa64_saved g mem (xsp g - 72) = x28 g"
  "aa64_saved g mem (xsp g - 64) = x25 g" "aa64_saved g mem (xsp g - 56) = x26 g"
  "aa64_saved g mem (xsp g - 48) = x23 g" "aa64_saved g mem (xsp g - 40) = x24 g"
  "aa64_saved g mem (xsp g - 32) = x21 g" "aa64_saved g mem (xsp g - 24) = x22 g"
  "aa64_saved g mem (xsp g - 16) = x19 g" "aa64_saved g mem (xsp g - 8) = x20 g"
  by (simp_all add: aa64_saved_def)

lemma aa64_saved_other: "a \<notin> frame_words (xsp g) 12 \<Longrightarrow> aa64_saved g mem a = mem a"
  by (simp add: aa64_saved_def frame_words_12 frame_words_6)




definition example_regs :: "u64 \<Rightarrow> x86_regs" where
  "example_regs a = \<lparr>rip = 0, rsp = a, rbp = 1, rbx = 2, r12 = 3, r13 = 4, r14 = 5, r15 = 6\<rparr>"



definition example_aregs :: "u64 \<Rightarrow> aa64_regs" where
  "example_aregs a = \<lparr>pc = 0, xsp = a, x19 = 1, x20 = 2, x21 = 3, x22 = 4, x23 = 5, x24 = 6,
     x25 = 7, x26 = 8, x27 = 9, x28 = 10, x29 = 11, x30 = 12\<rparr>"


text \<open>
  C22. A suspended thread resumes where it left off on x86_64: when a thread switches away and
  a later switch returns to it, with its save area and its saved stack pointer untouched in
  between, every callee-saved register has its old value, the return address of the first
  call is popped into rip, and the stack pointer is back above it.
\<close>

theorem x86_switch_resumes:
  assumes "sched_x86_context_switch p n (g, mem, m) = (g1, mem1, m1)"
    and "ctx_sp (t_ctx (mh p)) = ctx_sp (t_ctx (m1 p))"
    and "\<forall>a \<in> insert (rsp g) (frame_words (rsp g) 6). memh a = mem1 a"
    and "q \<noteq> p" and "frame_words (rsp h) 6 \<inter> insert (rsp g) (frame_words (rsp g) 6) = {}"
  shows "\<exists>st. sched_x86_context_switch q p (h, memh, mh) = (g\<lparr>rip := mem (rsp g), rsp := rsp g + 8\<rparr>, st)"
proof -
  have f: "x86_saved h memh a = x86_saved g mem a"
    if "a \<in> insert (rsp g) (frame_words (rsp g) 6)" for a
  proof -
    have "a \<notin> frame_words (rsp h) 6" using assms(5) that by blast
    moreover have "mem1 = x86_saved g mem" using assms(1) by (simp add: x86_switch_eval Let_def)
    ultimately show ?thesis using assms(3) that by (auto simp: x86_saved_other)
  qed
  have sp: "ctx_sp (t_ctx (mh p)) = rsp g - 48"
    using assms(1,2) by (auto simp: x86_switch_eval Let_def)
  have "x86_saved h memh (rsp g) = mem (rsp g)" "x86_saved h memh (rsp g - 8) = rbp g"
    "x86_saved h memh (rsp g - 16) = rbx g" "x86_saved h memh (rsp g - 24) = r12 g"
    "x86_saved h memh (rsp g - 32) = r13 g" "x86_saved h memh (rsp g - 40) = r14 g"
    "x86_saved h memh (rsp g - 48) = r15 g"
    by (subst f, simp add: frame_words_6, simp add: x86_saved_reads)+
  then show ?thesis
    using assms(4) sp by (cases g) (simp add: x86_switch_eval Let_def)
qed

theorem x86_switch_resumes_witness:
  "\<exists>g1 mem1 m1 st. sched_x86_context_switch 1 2 (example_regs 65536, \<lambda>_. 7, example_tcbs) = (g1, mem1, m1)
     \<and> sched_x86_context_switch 2 1 (example_regs 131072, mem1, m1)
         = ((example_regs 65536)\<lparr>rip := 7, rsp := 65544\<rparr>, st)"
proof -
  obtain g1 mem1 m1 where
    sw: "sched_x86_context_switch 1 2 (example_regs 65536, \<lambda>_. 7, example_tcbs) = (g1, mem1, m1)"
    by (metis prod_cases3)
  have "frame_words (rsp (example_regs 131072)) 6
      \<inter> insert (rsp (example_regs 65536)) (frame_words (rsp (example_regs 65536)) 6) = {}"
    by (simp add: frame_words_6 example_regs_def)
  with x86_switch_resumes [OF sw, of m1 mem1 2 "example_regs 131072"] sw show ?thesis
    by (auto simp: example_regs_def)
qed

text \<open>
  C23. The same on AArch64, where the resumed thread continues at its saved link register
  with its stack pointer as it was.
\<close>

theorem aa64_switch_resumes:
  assumes "sched_aa64_context_switch p n (g, mem, m) = (g1, mem1, m1)"
    and "ctx_sp (t_ctx (mh p)) = ctx_sp (t_ctx (m1 p))"
    and "\<forall>a \<in> frame_words (xsp g) 12. memh a = mem1 a"
    and "q \<noteq> p" and "frame_words (xsp h) 12 \<inter> frame_words (xsp g) 12 = {}"
  shows "\<exists>st. sched_aa64_context_switch q p (h, memh, mh) = (g\<lparr>pc := x30 g\<rparr>, st)"
proof -
  have f: "aa64_saved h memh a = aa64_saved g mem a" if "a \<in> frame_words (xsp g) 12" for a
  proof -
    have "a \<notin> frame_words (xsp h) 12" using assms(5) that by blast
    moreover have "mem1 = aa64_saved g mem" using assms(1) by (simp add: aa64_switch_eval Let_def)
    ultimately show ?thesis using assms(3) that by (simp add: aa64_saved_other)
  qed
  have sp: "ctx_sp (t_ctx (mh p)) = xsp g - 96"
    using assms(1,2) by (auto simp: aa64_switch_eval Let_def)
  have "aa64_saved h memh (xsp g - 96) = x29 g" "aa64_saved h memh (xsp g - 88) = x30 g"
    "aa64_saved h memh (xsp g - 80) = x27 g" "aa64_saved h memh (xsp g - 72) = x28 g"
    "aa64_saved h memh (xsp g - 64) = x25 g" "aa64_saved h memh (xsp g - 56) = x26 g"
    "aa64_saved h memh (xsp g - 48) = x23 g" "aa64_saved h memh (xsp g - 40) = x24 g"
    "aa64_saved h memh (xsp g - 32) = x21 g" "aa64_saved h memh (xsp g - 24) = x22 g"
    "aa64_saved h memh (xsp g - 16) = x19 g" "aa64_saved h memh (xsp g - 8) = x20 g"
    by (subst f, simp add: frame_words_12 frame_words_6, simp add: aa64_saved_reads)+
  then show ?thesis
    using assms(4) sp by (cases g) (simp add: aa64_switch_eval Let_def)
qed

theorem aa64_switch_resumes_witness:
  "\<exists>g1 mem1 m1 st. sched_aa64_context_switch 1 2 (example_aregs 65536, \<lambda>_. 7, example_tcbs) = (g1, mem1, m1)
     \<and> sched_aa64_context_switch 2 1 (example_aregs 131072, mem1, m1) = ((example_aregs 65536)\<lparr>pc := 12\<rparr>, st)"
proof -
  obtain g1 mem1 m1 where
    sw: "sched_aa64_context_switch 1 2 (example_aregs 65536, \<lambda>_. 7, example_tcbs) = (g1, mem1, m1)"
    by (metis prod_cases3)
  have "frame_words (xsp (example_aregs 131072)) 12 \<inter> frame_words (xsp (example_aregs 65536)) 12 = {}"
    by (simp add: frame_words_12 frame_words_6 example_aregs_def)
  with aa64_switch_resumes [OF sw, of m1 mem1 2 "example_aregs 131072"] sw show ?thesis
    by (auto simp: example_aregs_def)
qed

end
