(* ===== verification/Handle_Table.thy ===== *)
theory Handle_Table
  imports Kernel_Prelude
begin

text \<open>
  Generational handles, as the IPC channel pool and the interrupt router use them: a handle
  carries the slot number in its low byte and a generation above it. The locale states what
  a client of such a table relies on (a new handle was never issued before, a handle is
  valid exactly between its creation and its release) and proves it for any sequence of
  requests.
\<close>

subsection \<open>Encoding\<close>

text \<open>\<open>((generation & 0x00FFFFFFu) << 8u) | (i + 1u)\<close>\<close>

definition gen_handle :: "u32 \<Rightarrow> u32 \<Rightarrow> u32" where
  "gen_handle g i = (push_bit 8 (g AND 0x00FFFFFF) OR (i + 1))"

lemma drop_bit_small: "unat (y :: u32) < 2 ^ n \<Longrightarrow> drop_bit n y = 0"
  unfolding word_unat_eq_iff unat_drop_bit_eq by (simp add: drop_bit_eq_div)

lemma drop_bit_byte: "unat (y :: u32) < 256 \<Longrightarrow> drop_bit 8 y = 0"
  using drop_bit_small [of y 8] by simp

lemma take_bit_gen_handle:
  assumes "unat y < 256"
  shows "(push_bit 8 x OR y :: u32) AND 0xFF = y"
proof -
  have "(0xFF :: u32) = mask 8" by (simp add: mask_eq_exp_minus_1)
  moreover have "y AND mask 8 = y"
    using drop_bit_byte [OF assms]
    by (simp add: take_bit_eq_self_iff_drop_bit_eq_0 flip: take_bit_eq_mask)
  moreover have "push_bit 8 x AND mask 8 = 0"
    by (simp add: take_bit_push_bit flip: take_bit_eq_mask)
  ultimately show ?thesis by (simp add: bit.conj_disj_distrib2)
qed

lemma drop_bit_gen_handle:
  assumes "unat y < 256"
  shows "drop_bit 8 (push_bit 8 (g AND 0x00FFFFFF) OR y :: u32) = g AND 0x00FFFFFF"
proof -
  have "drop_bit 8 y = 0" using assms by (rule drop_bit_byte)
  moreover have "drop_bit 8 (push_bit 8 (g AND mask 24)) = g AND mask 24"
    by (rule bit_word_eqI) (auto simp: bit_simps)
  moreover have "(0x00FFFFFF :: u32) = mask 24" by (simp add: mask_eq_exp_minus_1)
  ultimately show ?thesis by simp
qed

lemma and_24:
  "unat g < 2 ^ 24 \<Longrightarrow> (g :: u32) AND 0x00FFFFFF = g"
proof -
  assume "unat g < 2 ^ 24"
  then have "drop_bit 24 g = 0" by (rule drop_bit_small)
  then have "g AND mask 24 = g"
    by (simp add: take_bit_eq_self_iff_drop_bit_eq_0 flip: take_bit_eq_mask)
  then show ?thesis by (simp add: mask_eq_exp_minus_1)
qed

text \<open>What the two users need: the slot and the generation can be read back.\<close>

lemma gen_handle_slot:
  assumes "i < 16"
  shows "gen_handle g (of_nat i) AND 0xFF = of_nat i + 1" and "gen_handle g (of_nat i) \<noteq> 0"
proof -
  have "unat (of_nat i + 1 :: u32) < 256"
    using assms unat_of_nat_u32 [of "Suc i"] by (simp add: ac_simps)
  then show slot: "gen_handle g (of_nat i) AND 0xFF = of_nat i + 1"
    unfolding gen_handle_def by (rule take_bit_gen_handle)
  have "(of_nat i + 1 :: u32) \<noteq> 0"
    using assms of_nat_u32_eq_0 [of "Suc i"] by (simp add: ac_simps)
  with slot show "gen_handle g (of_nat i) \<noteq> 0" by auto
qed

lemma gen_handle_generation:
  assumes "i < 16" and "unat g < 2 ^ 24"
  shows "drop_bit 8 (gen_handle g (of_nat i)) = g"
proof -
  have "unat (of_nat i + 1 :: u32) < 256"
    using assms unat_of_nat_u32 [of "Suc i"] by (simp add: ac_simps)
  then show ?thesis using drop_bit_gen_handle and_24 [OF assms(2)] unfolding gen_handle_def by metis
qed

lemma unat_gen_handle:
  assumes "i < 16" and "unat g < 2 ^ 24"
  shows "unat (gen_handle g (of_nat i)) = 256 * unat g + i + 1"
proof -
  let ?h = "gen_handle g (of_nat i)"
  have "unat ?h div 256 = unat g"
    using gen_handle_generation [OF assms] unat_drop_bit_eq [of 8 ?h] by (simp add: drop_bit_eq_div)
  moreover have "unat ?h mod 256 = i + 1"
    using gen_handle_slot(1) [OF assms(1), of g] unat_and_byte [of ?h] unat_of_nat_u32 [of "Suc i"] assms(1)
    by (simp add: add.commute)
  ultimately show ?thesis using div_mult_mod_eq [of "unat ?h" 256] by simp
qed

subsection \<open>The contract\<close>

text \<open>
  \<open>rep n I L s\<close>: in state \<open>s\<close> the handles \<open>I\<close> have been issued, \<open>L\<close> of them are still
  valid, and \<open>n\<close> more may be issued before a generation is used twice.
\<close>

datatype ('a, 'h) handle_req = Create 'a | Destroy 'h

fun handle_run ::
  "('a \<Rightarrow> 's \<Rightarrow> 'h option \<times> 's) \<Rightarrow> ('h \<Rightarrow> 's \<Rightarrow> bool \<times> 's) \<Rightarrow> ('a, 'h) handle_req list \<Rightarrow> 's \<Rightarrow> 'h list \<times> 's" where
  "handle_run create destroy [] s = ([], s)"
| "handle_run create destroy (Create x # rs) s =
     (case create x s of
        (None, s') \<Rightarrow> handle_run create destroy rs s'
      | (Some h, s') \<Rightarrow> (let (hs, s'') = handle_run create destroy rs s' in (h # hs, s'')))"
| "handle_run create destroy (Destroy h # rs) s = handle_run create destroy rs (snd (destroy h s))"

text \<open>The number of creations among the requests.\<close>

fun creations :: "('a, 'h) handle_req list \<Rightarrow> nat" where
  "creations [] = 0"
| "creations (Create x # rs) = Suc (creations rs)"
| "creations (Destroy h # rs) = creations rs"

locale handle_table =
  fixes rep :: "nat \<Rightarrow> 'h set \<Rightarrow> 'h set \<Rightarrow> 's \<Rightarrow> bool"
    and create :: "'a \<Rightarrow> 's \<Rightarrow> 'h option \<times> 's"
    and destroy :: "'h \<Rightarrow> 's \<Rightarrow> bool \<times> 's"
    and valid :: "'h \<Rightarrow> 's \<Rightarrow> bool"
  assumes live_issued: "rep n I L s \<Longrightarrow> L \<subseteq> I"
    and create_some: "rep (Suc n) I L s \<Longrightarrow> create x s = (Some h, s') \<Longrightarrow>
      h \<notin> I \<and> rep n (insert h I) (insert h L) s'"
    and create_none: "rep (Suc n) I L s \<Longrightarrow> create x s = (None, s') \<Longrightarrow> rep n I L s'"
    and destroy_step: "rep n I L s \<Longrightarrow> destroy h s = (b, s') \<Longrightarrow> b = (h \<in> L) \<and> rep n I (L - {h}) s'"
    and valid_live: "rep n I L s \<Longrightarrow> valid h s \<longleftrightarrow> h \<in> L"
begin

lemma run_fresh:
  assumes "rep n I L s" and "creations rs \<le> n" and "handle_run create destroy rs s = (hs, s')"
  shows "distinct hs \<and> set hs \<inter> I = {} \<and> (\<exists>L'. rep (n - creations rs) (I \<union> set hs) L' s')"
  using assms
proof (induction rs arbitrary: n I L s hs)
  case (Cons r rs)
  show ?case
  proof (cases r)
    case (Create x)
    then obtain k where k: "n = Suc k" "creations rs \<le> k" using Cons.prems(2) by (cases n) auto
    obtain y s1 where c: "create x s = (y, s1)" by fastforce
    show ?thesis
    proof (cases y)
      case None
      have "rep k I L s1" using Cons.prems(1) c None k create_none by blast
      from Cons.IH [OF this k(2), of hs] Cons.prems(3) show ?thesis using c None Create k by simp
    next
      case (Some h)
      have new: "h \<notin> I" "rep k (insert h I) (insert h L) s1"
        using Cons.prems(1) c Some k create_some by blast+
      obtain hs1 where hs: "handle_run create destroy rs s1 = (hs1, s')" "hs = h # hs1"
        using Cons.prems(3) c Some Create by (auto split: prod.splits)
      from Cons.IH [OF new(2) k(2) hs(1)] new(1) hs(2) k Create show ?thesis by auto
    qed
  next
    case (Destroy h)
    obtain b s1 where d: "destroy h s = (b, s1)" by fastforce
    then have "rep n I (L - {h}) s1" using Cons.prems(1) destroy_step by blast
    from Cons.IH [OF this, of hs] Cons.prems(2,3) show ?thesis using d Destroy by simp
  qed
qed auto

text \<open>A handle that was released stays invalid, whatever is created or released later.\<close>

lemma run_stale:
  assumes "rep n I L s" and "creations rs \<le> n" and "h \<in> I" and "h \<notin> L"
    and "handle_run create destroy rs s = (hs, s')"
  shows "\<not> valid h s'"
  using assms
proof (induction rs arbitrary: n I L s hs)
  case (Cons r rs)
  show ?case
  proof (cases r)
    case (Create x)
    then obtain k where k: "n = Suc k" "creations rs \<le> k" using Cons.prems(2) by (cases n) auto
    obtain y s1 where c: "create x s = (y, s1)" by fastforce
    show ?thesis
    proof (cases y)
      case None
      have "rep k I L s1" using Cons.prems(1) c None k create_none by blast
      from Cons.IH [OF this k(2), of hs] Cons.prems show ?thesis using c None Create by simp
    next
      case (Some g)
      have new: "g \<notin> I" "rep k (insert g I) (insert g L) s1"
        using Cons.prems(1) c Some k create_some by blast+
      from Cons.IH [OF new(2) k(2)] new(1) Cons.prems show ?thesis
        using c Some Create by (auto split: prod.splits)
    qed
  next
    case (Destroy g)
    obtain b s1 where d: "destroy g s = (b, s1)" by fastforce
    then have "rep n I (L - {g}) s1" using Cons.prems(1) destroy_step by blast
    from Cons.IH [OF this, of hs] Cons.prems show ?thesis using d Destroy by simp
  qed
qed (use valid_live in auto)

end

end
