(* ===== verification/Bounded_Fifo.thy ===== *)
theory Bounded_Fifo
  imports Kernel_Prelude
begin

text \<open>
  The contract of a bounded message channel: a send is accepted exactly while fewer than
  \<open>cap\<close> messages wait, a receive hands out the oldest one. The client \<open>fifo_run\<close> sends and
  receives in any order and records the result of every call; the locale shows that these
  are the results of a queue of capacity \<open>cap\<close> (\<open>fifo_spec\<close>), so that the accepted messages are
  received in the order they were sent, with none lost and none duplicated.
\<close>

datatype 'm fifo_req = Send 'm | Receive

datatype 'm fifo_res = Sent bool | Received "'m option"

fun fifo_run ::
  "('m \<Rightarrow> 's \<Rightarrow> (bool \<times> 's) option) \<Rightarrow> ('s \<Rightarrow> ('m option \<times> 's) option) \<Rightarrow> 'm fifo_req list \<Rightarrow> 's
     \<Rightarrow> ('m fifo_res list \<times> 's) option" where
  "fifo_run send recv [] s = Some ([], s)"
| "fifo_run send recv (Send m # rs) s =
     do {
       (b, s1) \<leftarrow> send m s;
       (res, s2) \<leftarrow> fifo_run send recv rs s1;
       Some (Sent b # res, s2)
     }"
| "fifo_run send recv (Receive # rs) s =
     do {
       (r, s1) \<leftarrow> recv s;
       (res, s2) \<leftarrow> fifo_run send recv rs s1;
       Some (Received r # res, s2)
     }"

text \<open>The reference: the results and the messages left of a queue of capacity \<open>cap\<close> that starts with \<open>q\<close>.\<close>

fun fifo_spec :: "nat \<Rightarrow> 'm fifo_req list \<Rightarrow> 'm list \<Rightarrow> 'm fifo_res list \<times> 'm list" where
  "fifo_spec cap [] q = ([], q)"
| "fifo_spec cap (Send m # rs) q =
     (if length q < cap then apfst ((#) (Sent True)) (fifo_spec cap rs (q @ [m]))
      else apfst ((#) (Sent False)) (fifo_spec cap rs q))"
| "fifo_spec cap (Receive # rs) q =
     (case q of
        [] \<Rightarrow> apfst ((#) (Received None)) (fifo_spec cap rs [])
      | m # q1 \<Rightarrow> apfst ((#) (Received (Some m))) (fifo_spec cap rs q1))"

text \<open>The messages that were accepted and those that were received, in order.\<close>

fun accepted :: "'m fifo_req list \<Rightarrow> 'm fifo_res list \<Rightarrow> 'm list" where
  "accepted (Send m # rs) (Sent b # res) = (if b then m # accepted rs res else accepted rs res)"
| "accepted (r # rs) (x # res) = accepted rs res"
| "accepted _ _ = []"

fun received :: "'m fifo_res list \<Rightarrow> 'm list" where
  "received (Received (Some m) # res) = m # received res"
| "received (x # res) = received res"
| "received [] = []"

lemma fifo_spec_conserves:
  "fifo_spec cap rs q = (res, q') \<Longrightarrow> received res @ q' = q @ accepted rs res"
proof (induction cap rs q arbitrary: res q' rule: fifo_spec.induct)
  case (2 cap m rs q)
  then show ?case by (auto simp: apfst_def map_prod_def split: if_splits prod.splits)
next
  case (3 cap rs q)
  then show ?case by (auto simp: apfst_def map_prod_def split: list.splits prod.splits)
qed simp

primrec req_ok :: "('m \<Rightarrow> bool) \<Rightarrow> 'm fifo_req \<Rightarrow> bool" where
  "req_ok ok (Send m) = ok m"
| "req_ok ok Receive = True"

locale bounded_fifo =
  fixes rep :: "'s \<Rightarrow> 'm list \<Rightarrow> bool" and ok :: "'m \<Rightarrow> bool" and cap :: nat
    and send :: "'m \<Rightarrow> 's \<Rightarrow> (bool \<times> 's) option" and recv :: "'s \<Rightarrow> ('m option \<times> 's) option"
  assumes rep_bound: "rep s q \<Longrightarrow> length q \<le> cap"
    and send_room: "rep s q \<Longrightarrow> ok m \<Longrightarrow> length q < cap \<Longrightarrow>
      \<exists>s'. send m s = Some (True, s') \<and> rep s' (q @ [m])"
    and send_full: "rep s q \<Longrightarrow> ok m \<Longrightarrow> length q = cap \<Longrightarrow> \<exists>s'. send m s = Some (False, s') \<and> rep s' q"
    and recv_first: "rep s (m # q) \<Longrightarrow> \<exists>s'. recv s = Some (Some m, s') \<and> rep s' q"
    and recv_empty: "rep s [] \<Longrightarrow> \<exists>s'. recv s = Some (None, s') \<and> rep s' []"
begin

lemma run_fifo:
  assumes "rep s q" and "\<forall>r \<in> set rs. req_ok ok r"
  shows "\<exists>s'. fifo_run send recv rs s = Some (fst (fifo_spec cap rs q), s') \<and> rep s' (snd (fifo_spec cap rs q))"
  using assms
proof (induction rs arbitrary: s q)
  case Nil
  then show ?case by auto
next
  case (Cons r rs)
  show ?case
  proof (cases r)
    case (Send m)
    with Cons.prems have m: "ok m" by simp
    show ?thesis
    proof (cases "length q < cap")
      case True
      with send_room [OF Cons.prems(1) m] obtain s1
        where s1: "send m s = Some (True, s1)" "rep s1 (q @ [m])" by blast
      from Cons.IH [OF s1(2)] Cons.prems(2) s1 Send True show ?thesis by auto
    next
      case False
      with rep_bound [OF Cons.prems(1)] send_full [OF Cons.prems(1) m] obtain s1
        where s1: "send m s = Some (False, s1)" "rep s1 q" by force
      from Cons.IH [OF s1(2)] Cons.prems(2) s1 Send False show ?thesis by auto
    qed
  next
    case Receive
    show ?thesis
    proof (cases q)
      case Nil
      with recv_empty Cons.prems(1) obtain s1 where s1: "recv s = Some (None, s1)" "rep s1 []"
        by blast
      from Cons.IH [OF s1(2)] Cons.prems(2) s1 Nil Receive show ?thesis by auto
    next
      case Cons': (Cons m q1)
      with recv_first Cons.prems(1) obtain s1 where s1: "recv s = Some (Some m, s1)" "rep s1 q1"
        by blast
      from Cons.IH [OF s1(2)] Cons.prems(2) s1 Cons' Receive show ?thesis by auto
    qed
  qed
qed

end

end
