(* ===== verification/Ipc.thy ===== *)
theory Ipc
  imports Scheduler Handle_Table Bounded_Fifo
begin

text \<open>
  The message channels of \<^verbatim>\<open>src/kernel/ipc/ipc.c\<close>: a pool of sixteen ring buffers named
  by generational handles, with the scheduler calls that wake and suspend threads. A call
  that may switch to another thread is split at the switch: the model returns
  \<open>Switched\<close> there, and an inductive relation puts the pieces together with arbitrary
  steps of the other threads in between.
\<close>

subsection \<open>Data\<close>

type_synonym ipc_handle_t = u32
type_synonym ipc_result_t = int

abbreviation (input) IPC_OK :: ipc_result_t where "IPC_OK \<equiv> 0"
abbreviation (input) IPC_ERR_INVAL :: ipc_result_t where "IPC_ERR_INVAL \<equiv> - 1"
abbreviation (input) IPC_ERR_FULL :: ipc_result_t where "IPC_ERR_FULL \<equiv> - 2"
abbreviation (input) IPC_ERR_EMPTY :: ipc_result_t where "IPC_ERR_EMPTY \<equiv> - 3"
abbreviation (input) IPC_ERR_AGAIN :: ipc_result_t where "IPC_ERR_AGAIN \<equiv> - 4"
abbreviation (input) IPC_ERR_TYPE :: ipc_result_t where "IPC_ERR_TYPE \<equiv> - 5"
abbreviation (input) IPC_ERR_CLOSED :: ipc_result_t where "IPC_ERR_CLOSED \<equiv> - 6"
abbreviation (input) IPC_ERR_NOSLOT :: ipc_result_t where "IPC_ERR_NOSLOT \<equiv> - 7"

abbreviation (input) IPC_HANDLE_INVALID :: ipc_handle_t where "IPC_HANDLE_INVALID \<equiv> 0"
abbreviation (input) IPC_MSG_TYPE_ANY :: u32 where "IPC_MSG_TYPE_ANY \<equiv> 0"
abbreviation (input) IPC_MSG_TYPE_USER :: u32 where "IPC_MSG_TYPE_USER \<equiv> 0x00010000"
abbreviation (input) IPC_CHANNEL_CAPACITY :: u32 where "IPC_CHANNEL_CAPACITY \<equiv> 8"
abbreviation (input) IPC_MAX_CHANNELS :: nat where "IPC_MAX_CHANNELS \<equiv> 16"
abbreviation (input) IPC_PAYLOAD_WORDS :: nat where "IPC_PAYLOAD_WORDS \<equiv> 8"

text \<open>The payload is the array of eight 64-bit words.\<close>

record ipc_message_t =
  m_type :: u32
  m_payload_len :: u32
  m_payload :: "u64 list"

datatype channel_state_t = CHAN_FREE | CHAN_OPEN | CHAN_CLOSED

record ipc_channel_t =
  c_state :: channel_state_t
  c_handle :: ipc_handle_t
  c_head :: u32
  c_tail :: u32
  c_count :: u32
  c_ring :: "nat \<Rightarrow> ipc_message_t"
  c_blocked_sender :: "tptr option"
  c_blocked_receiver :: "tptr option"

record ipc_sys =
  i_sched :: sched
  s_channels :: "nat \<Rightarrow> ipc_channel_t"
  s_next_generation :: u32

definition set_chan :: "nat \<Rightarrow> ipc_channel_t \<Rightarrow> ipc_sys \<Rightarrow> ipc_sys" where
  "set_chan i c s = s\<lparr>s_channels := (s_channels s)(i := c)\<rparr>"

subsection \<open>Helpers\<close>

definition chan_from_handle :: "ipc_handle_t \<Rightarrow> ipc_sys \<Rightarrow> nat option" where
  "chan_from_handle h s =
     (if h = IPC_HANDLE_INVALID then None
      else
        (let idx = h AND 0xFF
         in if idx = 0 \<or> idx > of_nat IPC_MAX_CHANNELS then None
            else if c_handle (s_channels s (unat (idx - 1))) \<noteq> h then None
            else Some (unat (idx - 1))))"

definition msg_copy :: "ipc_message_t \<Rightarrow> ipc_message_t \<Rightarrow> ipc_message_t" where
  "msg_copy dst src =
     fold (\<lambda>i d. d\<lparr>m_payload := (m_payload d)[i := m_payload src ! i]\<rparr>) [0..<IPC_PAYLOAD_WORDS]
       (dst\<lparr>m_type := m_type src, m_payload_len := m_payload_len src\<rparr>)"

definition ipc_result_name :: "ipc_result_t \<Rightarrow> string" where
  "ipc_result_name r =
     (if r = IPC_OK then ''IPC_OK''
      else if r = IPC_ERR_INVAL then ''IPC_ERR_INVAL''
      else if r = IPC_ERR_FULL then ''IPC_ERR_FULL''
      else if r = IPC_ERR_EMPTY then ''IPC_ERR_EMPTY''
      else if r = IPC_ERR_AGAIN then ''IPC_ERR_AGAIN''
      else if r = IPC_ERR_TYPE then ''IPC_ERR_TYPE''
      else if r = IPC_ERR_CLOSED then ''IPC_ERR_CLOSED''
      else if r = IPC_ERR_NOSLOT then ''IPC_ERR_NOSLOT''
      else ''IPC_ERR_UNKNOWN'')"

subsection \<open>The channel pool\<close>

text \<open>\<open>ipc_init\<close> and \<open>ipc_channel_destroy\<close> reset a slot the same way; the ring keeps its contents.\<close>

definition chan_reset :: "ipc_channel_t \<Rightarrow> ipc_channel_t" where
  "chan_reset c = c\<lparr>c_state := CHAN_FREE, c_handle := IPC_HANDLE_INVALID, c_head := 0, c_tail := 0,
     c_count := 0, c_blocked_sender := None, c_blocked_receiver := None\<rparr>"

definition ipc_init :: "ipc_sys \<Rightarrow> ipc_sys" where
  "ipc_init s =
     (fold (\<lambda>i s. set_chan i (chan_reset (s_channels s i)) s) [0..<IPC_MAX_CHANNELS] s)
       \<lparr>s_next_generation := 1\<rparr>"

fun create_loop :: "nat list \<Rightarrow> ipc_sys \<Rightarrow> ipc_handle_t \<times> ipc_sys" where
  "create_loop [] s = (IPC_HANDLE_INVALID, s)"
| "create_loop (i # is) s =
     (if c_state (s_channels s i) = CHAN_FREE then
        (let generation = s_next_generation s;
             g1 = generation + 1;
             g2 = (if g1 = 0 then 1 else g1);
             h0 = gen_handle generation (of_nat i);
             h = (if h0 = IPC_HANDLE_INVALID then of_nat i + 1 else h0);
             c = (s_channels s i)\<lparr>c_state := CHAN_OPEN, c_handle := h, c_head := 0, c_tail := 0,
                    c_count := 0, c_blocked_sender := None, c_blocked_receiver := None\<rparr>
         in (h, set_chan i c (s\<lparr>s_next_generation := g2\<rparr>)))
      else create_loop is s)"

definition ipc_channel_create :: "ipc_sys \<Rightarrow> ipc_handle_t \<times> ipc_sys" where
  "ipc_channel_create s = create_loop [0..<IPC_MAX_CHANNELS] s"

definition ipc_channel_destroy :: "ipc_handle_t \<Rightarrow> ipc_sys \<Rightarrow> ipc_result_t \<times> ipc_sys" where
  "ipc_channel_destroy h s =
     (if h = IPC_HANDLE_INVALID then (IPC_ERR_INVAL, s)
      else case chan_from_handle h s of
        None \<Rightarrow> (IPC_ERR_INVAL, s)
      | Some i \<Rightarrow>
          if c_state (s_channels s i) = CHAN_FREE then (IPC_ERR_INVAL, s)
          else (IPC_OK, set_chan i (chan_reset (s_channels s i)) s))"

definition ipc_channel_is_open :: "ipc_handle_t \<Rightarrow> ipc_sys \<Rightarrow> bool" where
  "ipc_channel_is_open h s =
     (if h = IPC_HANDLE_INVALID then False
      else case chan_from_handle h s of
        None \<Rightarrow> False
      | Some i \<Rightarrow> c_state (s_channels s i) = CHAN_OPEN)"

definition ipc_channel_len :: "ipc_handle_t \<Rightarrow> ipc_sys \<Rightarrow> u32" where
  "ipc_channel_len h s =
     (if h = IPC_HANDLE_INVALID then 0
      else case chan_from_handle h s of
        None \<Rightarrow> 0
      | Some i \<Rightarrow> if c_state (s_channels s i) \<noteq> CHAN_OPEN then 0 else c_count (s_channels s i))"

subsection \<open>Sending and receiving without waiting\<close>

text \<open>
  The checks every message operation starts with; \<open>null\<close> says that the message pointer is
  NULL. The right value is the slot of the open channel.
\<close>

definition open_chan :: "ipc_handle_t \<Rightarrow> bool \<Rightarrow> ipc_sys \<Rightarrow> ipc_result_t + nat" where
  "open_chan h null s =
     (if h = IPC_HANDLE_INVALID \<or> null then Inl IPC_ERR_INVAL
      else case chan_from_handle h s of
        None \<Rightarrow> Inl IPC_ERR_INVAL
      | Some i \<Rightarrow>
          (case c_state (s_channels s i) of
             CHAN_FREE \<Rightarrow> Inl IPC_ERR_INVAL
           | CHAN_CLOSED \<Rightarrow> Inl IPC_ERR_CLOSED
           | CHAN_OPEN \<Rightarrow> Inr i))"

text \<open>\<open>if (waiter != NULL) (void)sched_unblock(waiter)\<close>\<close>

definition wake :: "tptr option \<Rightarrow> sched \<Rightarrow> sched option" where
  "wake waiter sc =
     (case waiter of
        None \<Rightarrow> Some sc
      | Some t \<Rightarrow> do { (_, sc') \<leftarrow> sched_unblock (Some t) sc; Some sc' })"

definition ipc_trysend ::
  "ipc_handle_t \<Rightarrow> ipc_message_t option \<Rightarrow> ipc_sys \<Rightarrow> (ipc_result_t \<times> ipc_sys) option" where
  "ipc_trysend h msg s =
     (case (open_chan h (msg = None) s, msg) of
        (Inl e, _) \<Rightarrow> Some (e, s)
      | (Inr i, None) \<Rightarrow> Some (IPC_ERR_INVAL, s)
      | (Inr i, Some m) \<Rightarrow>
          (let c = s_channels s i
           in if c_count c \<ge> IPC_CHANNEL_CAPACITY then Some (IPC_ERR_FULL, s)
              else
                (let t = unat (c_tail c);
                     c1 = c\<lparr>c_ring := (c_ring c)(t := msg_copy (c_ring c t) m),
                            c_tail := (c_tail c + 1) mod IPC_CHANNEL_CAPACITY,
                            c_count := c_count c + 1\<rparr>;
                     c2 = c1\<lparr>c_blocked_receiver := None\<rparr>
                 in do {
                      sc \<leftarrow> wake (c_blocked_receiver c1) (i_sched s);
                      Some (IPC_OK, (set_chan i c2 s)\<lparr>i_sched := sc\<rparr>)
                    })))"

text \<open>The receiver's buffer \<open>out\<close> is returned updated.\<close>

definition ipc_tryrecv ::
  "ipc_handle_t \<Rightarrow> u32 \<Rightarrow> ipc_message_t option \<Rightarrow> ipc_sys
     \<Rightarrow> (ipc_result_t \<times> ipc_message_t option \<times> ipc_sys) option" where
  "ipc_tryrecv h type_filter out s =
     (case (open_chan h (out = None) s, out) of
        (Inl e, _) \<Rightarrow> Some (e, out, s)
      | (Inr i, None) \<Rightarrow> Some (IPC_ERR_INVAL, out, s)
      | (Inr i, Some dst) \<Rightarrow>
          (let c = s_channels s i
           in if c_count c = 0 then Some (IPC_ERR_EMPTY, out, s)
              else
                (let head_msg = c_ring c (unat (c_head c))
                 in if type_filter \<noteq> IPC_MSG_TYPE_ANY \<and> m_type head_msg \<noteq> type_filter
                    then Some (IPC_ERR_TYPE, out, s)
                    else
                      (let c1 = c\<lparr>c_head := (c_head c + 1) mod IPC_CHANNEL_CAPACITY,
                                  c_count := c_count c - 1\<rparr>;
                           c2 = c1\<lparr>c_blocked_sender := None\<rparr>
                       in do {
                            sc \<leftarrow> wake (c_blocked_sender c1) (i_sched s);
                            Some (IPC_OK, Some (msg_copy dst head_msg), (set_chan i c2 s)\<lparr>i_sched := sc\<rparr>)
                          }))))"

subsection \<open>Sending and receiving with waiting\<close>

text \<open>
  One pass through the loop of \<open>ipc_send\<close> or \<open>ipc_recv\<close> ends with a result or with a switch
  to another thread; in the second case the loop continues when the scheduler comes back.
\<close>

datatype ipc_outcome = Returned ipc_result_t | Switched tptr

definition ipc_send_iter ::
  "ipc_handle_t \<Rightarrow> ipc_message_t option \<Rightarrow> nat \<Rightarrow> ipc_sys \<Rightarrow> (ipc_outcome \<times> ipc_sys) option" where
  "ipc_send_iter h msg i s =
     do {
       (r, s1) \<leftarrow> ipc_trysend h msg s;
       if r \<noteq> IPC_ERR_FULL then Some (Returned r, s1)
       else
         (case sched_get_current (i_sched s1) of
            None \<Rightarrow> Some (Returned IPC_ERR_AGAIN, s1)
          | Some cur \<Rightarrow>
              do {
                let s2 = set_chan i ((s_channels s1 i)\<lparr>c_blocked_sender := Some cur\<rparr>) s1;
                (blocked, sc) \<leftarrow> sched_block (Some cur) (i_sched s2);
                let s3 = s2\<lparr>i_sched := sc\<rparr>;
                let s4 = set_chan i ((s_channels s3 i)\<lparr>c_blocked_sender := None\<rparr>) s3;
                if \<not> blocked then Some (Returned IPC_ERR_AGAIN, s4)
                else
                  (case sched_dequeue sc of
                     (None, sc1) \<Rightarrow>
                       do {
                         sc2 \<leftarrow> undo_block cur sc1;
                         Some (Returned IPC_ERR_AGAIN, s4\<lparr>i_sched := sc2\<rparr>)
                       }
                   | (Some n, sc1) \<Rightarrow>
                       Some (Switched n, s3\<lparr>i_sched := sched_context_switch (Some cur) (Some n) sc1\<rparr>))
              })
     }"

definition ipc_send ::
  "ipc_handle_t \<Rightarrow> ipc_message_t option \<Rightarrow> ipc_sys \<Rightarrow> (ipc_outcome \<times> ipc_sys) option" where
  "ipc_send h msg s =
     (case open_chan h (msg = None) s of
        Inl e \<Rightarrow> Some (Returned e, s)
      | Inr i \<Rightarrow> ipc_send_iter h msg i s)"

definition ipc_recv_iter ::
  "ipc_handle_t \<Rightarrow> u32 \<Rightarrow> ipc_message_t option \<Rightarrow> nat \<Rightarrow> ipc_sys
     \<Rightarrow> (ipc_outcome \<times> ipc_message_t option \<times> ipc_sys) option" where
  "ipc_recv_iter h type_filter out i s =
     do {
       (r, out1, s1) \<leftarrow> ipc_tryrecv h type_filter out s;
       if r \<noteq> IPC_ERR_EMPTY then Some (Returned r, out1, s1)
       else
         (case sched_get_current (i_sched s1) of
            None \<Rightarrow> Some (Returned IPC_ERR_AGAIN, out1, s1)
          | Some cur \<Rightarrow>
              do {
                let s2 = set_chan i ((s_channels s1 i)\<lparr>c_blocked_receiver := Some cur\<rparr>) s1;
                (blocked, sc) \<leftarrow> sched_block (Some cur) (i_sched s2);
                let s3 = s2\<lparr>i_sched := sc\<rparr>;
                let s4 = set_chan i ((s_channels s3 i)\<lparr>c_blocked_receiver := None\<rparr>) s3;
                if \<not> blocked then Some (Returned IPC_ERR_AGAIN, out1, s4)
                else
                  (case sched_dequeue sc of
                     (None, sc1) \<Rightarrow>
                       do {
                         sc2 \<leftarrow> undo_block cur sc1;
                         Some (Returned IPC_ERR_AGAIN, out1, s4\<lparr>i_sched := sc2\<rparr>)
                       }
                   | (Some n, sc1) \<Rightarrow>
                       Some (Switched n, out1, s3\<lparr>i_sched := sched_context_switch (Some cur) (Some n) sc1\<rparr>))
              })
     }"

definition ipc_recv ::
  "ipc_handle_t \<Rightarrow> u32 \<Rightarrow> ipc_message_t option \<Rightarrow> ipc_sys
     \<Rightarrow> (ipc_outcome \<times> ipc_message_t option \<times> ipc_sys) option" where
  "ipc_recv h type_filter out s =
     (case open_chan h (out = None) s of
        Inl e \<Rightarrow> Some (Returned e, out, s)
      | Inr i \<Rightarrow> ipc_recv_iter h type_filter out i s)"

subsection \<open>The ring buffer as a queue\<close>

definition msg_ok :: "ipc_message_t \<Rightarrow> bool" where
  "msg_ok m \<longleftrightarrow> length (m_payload m) = IPC_PAYLOAD_WORDS"

definition chan_abs :: "ipc_channel_t \<Rightarrow> ipc_message_t list" where
  "chan_abs c = map (\<lambda>k. c_ring c ((unat (c_head c) + k) mod 8)) [0..<unat (c_count c)]"

definition ring_wf :: "ipc_channel_t \<Rightarrow> bool" where
  "ring_wf c \<longleftrightarrow> unat (c_head c) < 8 \<and> unat (c_count c) \<le> 8
     \<and> unat (c_tail c) = (unat (c_head c) + unat (c_count c)) mod 8 \<and> (\<forall>k < 8. msg_ok (c_ring c k))"

lemma msg_copy_eq:
  assumes "msg_ok src" and "msg_ok dst"
  shows "msg_copy dst src = src"
proof -
  have upd: "fold (\<lambda>i d. d\<lparr>m_payload := (m_payload d)[i := m_payload src ! i]\<rparr>) [0..<n] d
      = d\<lparr>m_payload := take n (m_payload src) @ drop n (m_payload d)\<rparr>"
    if "n \<le> 8" "length (m_payload d) = 8" for n d
    using that
  proof (induction n)
    case (Suc n)
    then have "n < length (m_payload src)" using assms(1) by (simp add: msg_ok_def)
    with Suc show ?case
      by (simp add: take_Suc_conv_app_nth list_update_append1 Cons_nth_drop_Suc [symmetric] min_def list_update_append)
  qed simp
  show ?thesis
    using assms upd [of 8 "dst\<lparr>m_type := m_type src, m_payload_len := m_payload_len src\<rparr>"]
    by (cases src; cases dst) (simp add: msg_copy_def msg_ok_def)
qed

lemma unat_inc: "unat (x :: u32) < 2 ^ 31 \<Longrightarrow> unat (x + 1) = unat x + 1"
proof -
  assume "unat x < 2 ^ 31"
  then show ?thesis using unat_of_nat_u32 [of "unat x + 1"] by (simp add: add.commute)
qed

lemma ring_slots_differ: "k < n \<Longrightarrow> n < 8 \<Longrightarrow> (h + k) mod 8 \<noteq> (h + n) mod (8 :: nat)"
proof
  assume "k < n" "n < 8" "(h + k) mod 8 = (h + n) mod (8 :: nat)"
  then have "8 dvd (h + n) - (h + k)" by (metis mod_eq_dvd_iff_nat nat_add_left_cancel_le nat_less_le)
  with \<open>k < n\<close> \<open>n < 8\<close> show False by (auto dest!: dvd_imp_le)
qed

lemma ring_step: "((h + a) mod 8 + b) mod 8 = (h + (a + b)) mod (8 :: nat)"
  by (simp add: mod_add_left_eq add.assoc)

lemma unat_dec: "(x :: u32) \<noteq> 0 \<Longrightarrow> unat (x - 1) = unat x - 1"
  by (simp add: unat_minus_one)

lemma unat_ring_next: "unat (x :: u32) < 8 \<Longrightarrow> unat ((x + 1) mod 8) = (unat x + 1) mod 8"
  by (simp add: unat_mod_distrib unat_inc)

definition chan_push :: "ipc_message_t \<Rightarrow> ipc_channel_t \<Rightarrow> ipc_channel_t" where
  "chan_push m c = c\<lparr>c_ring := (c_ring c)(unat (c_tail c) := msg_copy (c_ring c (unat (c_tail c))) m),
     c_tail := (c_tail c + 1) mod IPC_CHANNEL_CAPACITY, c_count := c_count c + 1\<rparr>"

definition chan_pop :: "ipc_channel_t \<Rightarrow> ipc_channel_t" where
  "chan_pop c = c\<lparr>c_head := (c_head c + 1) mod IPC_CHANNEL_CAPACITY, c_count := c_count c - 1\<rparr>"

lemma length_chan_abs: "length (chan_abs c) = unat (c_count c)"
  by (simp add: chan_abs_def)

lemma chan_push_abs:
  assumes "ring_wf c" and "unat (c_count c) < 8" and "msg_ok m"
  shows "chan_abs (chan_push m c) = chan_abs c @ [m]" and "ring_wf (chan_push m c)"
proof -
  let ?h = "unat (c_head c)" and ?n = "unat (c_count c)"
  have t: "unat (c_tail c) = (?h + ?n) mod 8" and cp: "msg_copy (c_ring c (unat (c_tail c))) m = m"
    using assms by (auto simp: ring_wf_def msg_copy_eq)
  have n: "unat (c_count c + 1) = ?n + 1" using assms(2) by (simp add: unat_inc)
  have "(?h + k) mod 8 \<noteq> (?h + ?n) mod 8" if "k < ?n" for k
    using that assms(2) by (rule ring_slots_differ)
  then show "chan_abs (chan_push m c) = chan_abs c @ [m]"
    using cp by (simp add: chan_abs_def chan_push_def n t)
  have "unat (c_tail c) < 8" using t by simp
  have "unat ((c_tail c + 1) mod 8) = (?h + (?n + 1)) mod 8"
    unfolding unat_ring_next [OF \<open>unat (c_tail c) < 8\<close>] t
    by (rule ring_step)
  then show "ring_wf (chan_push m c)"
    using assms n cp by (auto simp: ring_wf_def chan_push_def)
qed

lemma chan_pop_abs:
  assumes "ring_wf c" and "c_count c \<noteq> 0"
  shows "chan_abs c = c_ring c (unat (c_head c)) # chan_abs (chan_pop c)" and "ring_wf (chan_pop c)"
proof -
  let ?h = "unat (c_head c)" and ?n = "unat (c_count c)"
  have h: "?h < 8" "unat ((c_head c + 1) mod 8) = (?h + 1) mod 8"
    using assms(1) unat_ring_next [of "c_head c"] by (auto simp: ring_wf_def)
  obtain k where k: "?n = Suc k" using assms(2) by (metis not0_implies_Suc unat_eq_zero)
  then have n: "unat (c_count c - 1) = k" using unat_dec [OF assms(2)] by simp
  have "[0..<Suc k] = 0 # map Suc [0..<k]" by (simp add: map_Suc_upt upt_conv_Cons)
  moreover have "((?h + 1) mod 8 + j) mod 8 = (?h + Suc j) mod 8" for j
    using ring_step [of ?h 1 j] by simp
  ultimately show "chan_abs c = c_ring c (unat (c_head c)) # chan_abs (chan_pop c)"
    using h by (simp add: chan_abs_def chan_pop_def k n)
  have "((?h + 1) mod 8 + k) mod 8 = (?h + Suc k) mod 8"
    using ring_step [of ?h 1 k] by simp
  then show "ring_wf (chan_pop c)"
    using assms(1) h k n by (simp add: ring_wf_def chan_pop_def)
qed

lemma chan_empty_abs: "c_count c = 0 \<longleftrightarrow> chan_abs c = []"
  by (metis length_0_conv length_chan_abs unat_eq_zero)

subsection \<open>The channel pool invariant\<close>

text \<open>
  A slot is free or open, a free slot has no handle, the low byte of an open slot's handle
  names the slot, and every ring is well formed.
\<close>

definition chan_wf :: "nat \<Rightarrow> ipc_channel_t \<Rightarrow> bool" where
  "chan_wf i c \<longleftrightarrow> ring_wf c \<and> c_state c \<noteq> CHAN_CLOSED
     \<and> (c_state c = CHAN_FREE \<longrightarrow> c_handle c = 0)
     \<and> (c_state c = CHAN_OPEN \<longrightarrow> c_handle c \<noteq> 0 \<and> c_handle c AND 0xFF = of_nat i + 1)"

definition ipc_inv :: "ipc_sys \<Rightarrow> bool" where
  "ipc_inv s \<longleftrightarrow> (\<forall>i < 16. chan_wf i (s_channels s i))"

lemma chan_from_handle_Some:
  assumes "chan_from_handle h s = Some i"
  shows "i < 16 \<and> c_handle (s_channels s i) = h \<and> h \<noteq> 0"
proof -
  have "unat (x - 1) < 16" if "x \<noteq> 0" "\<not> 16 < x" for x :: u32
    using that unat_dec [of x] by (simp add: word_less_nat_alt unat_eq_zero [symmetric])
  from this [of "h AND 0xFF"] assms show ?thesis
    by (auto simp: chan_from_handle_def Let_def split: if_splits)
qed

lemma chan_from_handle_slot:
  assumes "i < 16" and "c_handle (s_channels s i) = h" and "h \<noteq> 0" and "h AND 0xFF = of_nat i + 1"
  shows "chan_from_handle h s = Some i"
proof -
  have u: "unat (of_nat i + 1 :: u32) = Suc i"
    using assms(1) unat_of_nat_u32 [of "Suc i"] by (simp add: add.commute)
  then have "(of_nat i + 1 :: u32) \<noteq> 0" by (metis unat_0 nat.distinct(1))
  moreover have "\<not> of_nat i + 1 > (16 :: u32)" using assms(1) by (simp add: word_less_nat_alt u)
  moreover have "unat (of_nat i + 1 - 1 :: u32) = i" using assms(1) unat_of_nat_u32 [of i] by simp
  ultimately show ?thesis using assms by (simp add: chan_from_handle_def)
qed

lemma chan_from_handle_inv:
  assumes "ipc_inv s"
  shows "chan_from_handle h s = Some i \<longleftrightarrow>
    i < 16 \<and> c_state (s_channels s i) = CHAN_OPEN \<and> c_handle (s_channels s i) = h"
proof
  assume a: "chan_from_handle h s = Some i"
  with assms have "chan_wf i (s_channels s i)" using chan_from_handle_Some by (auto simp: ipc_inv_def)
  with chan_from_handle_Some [OF a]
  show "i < 16 \<and> c_state (s_channels s i) = CHAN_OPEN \<and> c_handle (s_channels s i) = h"
    by (cases "c_state (s_channels s i)") (auto simp: chan_wf_def)
next
  assume "i < 16 \<and> c_state (s_channels s i) = CHAN_OPEN \<and> c_handle (s_channels s i) = h"
  moreover from this assms have "chan_wf i (s_channels s i)" by (simp add: ipc_inv_def)
  ultimately show "chan_from_handle h s = Some i"
    by (intro chan_from_handle_slot) (auto simp: chan_wf_def)
qed

lemma open_chan_inv:
  assumes "ipc_inv s"
  shows "open_chan h null s = Inr i \<longleftrightarrow> \<not> null \<and> chan_from_handle h s = Some i"
    and "open_chan h null s = Inl e \<longleftrightarrow> e = IPC_ERR_INVAL \<and> (null \<or> chan_from_handle h s = None)"
proof -
  have op: "c_state (s_channels s j) = CHAN_OPEN" "h \<noteq> 0" if "chan_from_handle h s = Some j" for j
    using chan_from_handle_inv [OF assms, of h j] chan_from_handle_Some [OF that] that by simp_all
  show "open_chan h null s = Inr i \<longleftrightarrow> \<not> null \<and> chan_from_handle h s = Some i"
    using op by (cases "chan_from_handle h s") (auto simp: open_chan_def)
  show "open_chan h null s = Inl e \<longleftrightarrow> e = IPC_ERR_INVAL \<and> (null \<or> chan_from_handle h s = None)"
    using op by (cases "chan_from_handle h s") (auto simp: open_chan_def)
qed

lemma is_open_inv:
  "ipc_inv s \<Longrightarrow> ipc_channel_is_open h s \<longleftrightarrow> (\<exists>i. chan_from_handle h s = Some i)"
  using chan_from_handle_inv [of s h] chan_from_handle_Some [of h s]
  by (cases "chan_from_handle h s") (auto simp: ipc_channel_is_open_def)

lemma chan_handle_inj:
  assumes "ipc_inv s" and "i < 16" and "j < 16" and "c_handle (s_channels s i) = c_handle (s_channels s j)"
    and "c_state (s_channels s i) = CHAN_OPEN" and "c_state (s_channels s j) = CHAN_OPEN"
  shows "i = j"
  using assms chan_from_handle_inv [OF assms(1), of "c_handle (s_channels s i)"] by (metis option.inject)

lemma set_chan_simps [simp]:
  "s_channels (set_chan i c s) = (s_channels s)(i := c)" "i_sched (set_chan i c s) = i_sched s"
  "s_next_generation (set_chan i c s) = s_next_generation s"
  by (simp_all add: set_chan_def)

lemma ipc_inv_set_chan: "ipc_inv s \<Longrightarrow> chan_wf i c \<Longrightarrow> ipc_inv (set_chan i c s)"
  by (simp add: ipc_inv_def)

lemma ipc_inv_other [simp]:
  "ipc_inv (s\<lparr>i_sched := sc\<rparr>) = ipc_inv s" "ipc_inv (s\<lparr>s_next_generation := g\<rparr>) = ipc_inv s"
  by (simp_all add: ipc_inv_def)

lemma chan_wf_reset: "ring_wf c \<Longrightarrow> chan_wf i (chan_reset c)"
  by (simp add: chan_wf_def chan_reset_def ring_wf_def)

text \<open>The state after \<open>ipc_init\<close>, whatever the memory held before.\<close>

definition ring_mem_ok :: "ipc_sys \<Rightarrow> bool" where
  "ring_mem_ok s \<longleftrightarrow> (\<forall>i < 16. \<forall>k < 8. msg_ok (c_ring (s_channels s i) k))"

lemma fold_set_chan:
  "distinct xs \<Longrightarrow> s_channels (fold (\<lambda>i s. set_chan i (f (s_channels s i)) s) xs s) j =
    (if j \<in> set xs then f (s_channels s j) else s_channels s j)"
  by (induction xs arbitrary: s) auto

lemma ipc_init_channels: "i < 16 \<Longrightarrow> s_channels (ipc_init s) i = chan_reset (s_channels s i)"
  unfolding ipc_init_def using fold_set_chan [of "[0..<16]" chan_reset s i] by (simp del: upt_Suc upt_rec_numeral)

lemma ipc_init_inv: "ring_mem_ok s \<Longrightarrow> ipc_inv (ipc_init s)"
  unfolding ipc_inv_def
  by (auto simp: ipc_init_channels chan_wf_def chan_reset_def ring_wf_def ring_mem_ok_def)

lemma ipc_init_sched [simp]: "i_sched (ipc_init s) = i_sched s" "s_next_generation (ipc_init s) = 1"
proof -
  have "i_sched (fold (\<lambda>i s. set_chan i (chan_reset (s_channels s i)) s) xs s) = i_sched s" for xs
    by (induction xs arbitrary: s) auto
  then show "i_sched (ipc_init s) = i_sched s" by (simp add: ipc_init_def)
qed (simp add: ipc_init_def)

subsection \<open>Channel handles\<close>

definition open_handles :: "ipc_sys \<Rightarrow> u32 set" where
  "open_handles s = {c_handle (s_channels s i) | i. i < 16 \<and> c_state (s_channels s i) = CHAN_OPEN}"

lemma open_handles_iff:
  "ipc_inv s \<Longrightarrow> h \<in> open_handles s \<longleftrightarrow> (\<exists>i. chan_from_handle h s = Some i)"
  by (auto simp: open_handles_def chan_from_handle_inv)

definition other_handles :: "nat \<Rightarrow> ipc_sys \<Rightarrow> u32 set" where
  "other_handles i s = {c_handle (s_channels s j) | j. j < 16 \<and> j \<noteq> i \<and> c_state (s_channels s j) = CHAN_OPEN}"

lemma open_handles_set_chan:
  "i < 16 \<Longrightarrow> open_handles (set_chan i c s) =
    (if c_state c = CHAN_OPEN then insert (c_handle c) (other_handles i s) else other_handles i s)"
  by (auto simp: open_handles_def other_handles_def)

lemma other_handles_simps:
  "c_state (s_channels s i) \<noteq> CHAN_OPEN \<Longrightarrow> other_handles i s = open_handles s"
  "ipc_inv s \<Longrightarrow> i < 16 \<Longrightarrow> c_state (s_channels s i) = CHAN_OPEN \<Longrightarrow>
     other_handles i s = open_handles s - {c_handle (s_channels s i)}"
  "other_handles i (s\<lparr>s_next_generation := g\<rparr>) = other_handles i s"
  by (auto simp: open_handles_def other_handles_def dest: chan_handle_inj)

text \<open>A slot taken by \<open>ipc_channel_create\<close>.\<close>

definition opened :: "nat \<Rightarrow> ipc_sys \<Rightarrow> ipc_channel_t" where
  "opened i s = (s_channels s i)\<lparr>c_state := CHAN_OPEN, c_handle := gen_handle (s_next_generation s) (of_nat i),
     c_head := 0, c_tail := 0, c_count := 0, c_blocked_sender := None, c_blocked_receiver := None\<rparr>"

lemma create_loop_cases:
  assumes "set is \<subseteq> {..<16}"
  shows "(create_loop is s = (0, s) \<and> (\<forall>i \<in> set is. c_state (s_channels s i) \<noteq> CHAN_FREE))
    \<or> (\<exists>i \<in> set is. c_state (s_channels s i) = CHAN_FREE
        \<and> create_loop is s = (gen_handle (s_next_generation s) (of_nat i),
            set_chan i (opened i s) (s\<lparr>s_next_generation :=
              (if s_next_generation s + 1 = 0 then 1 else s_next_generation s + 1)\<rparr>)))"
  using assms
proof (induction "is")
  case (Cons i "is")
  then have "gen_handle (s_next_generation s) (of_nat i) \<noteq> 0" by (intro gen_handle_slot) simp
  with Cons show ?case by (auto simp: Let_def opened_def)
qed simp

lemma create_cases:
  obtains "ipc_channel_create s = (0, s)"
  | i where "i < 16" and "c_state (s_channels s i) = CHAN_FREE"
    and "ipc_channel_create s = (gen_handle (s_next_generation s) (of_nat i),
            set_chan i (opened i s) (s\<lparr>s_next_generation :=
              (if s_next_generation s + 1 = 0 then 1 else s_next_generation s + 1)\<rparr>))"
proof -
  have "set [0..<16] \<subseteq> {..<16::nat}" by auto
  from create_loop_cases [OF this, of s] that show ?thesis
    unfolding ipc_channel_create_def by fastforce
qed

lemma opened_wf: "ipc_inv s \<Longrightarrow> i < 16 \<Longrightarrow> chan_wf i (opened i s)"
  using gen_handle_slot [of i "s_next_generation s"]
  by (auto simp: chan_wf_def opened_def ring_wf_def ipc_inv_def)

lemma create_inv:
  assumes "ipc_inv s" and "ipc_channel_create s = (h, s')"
  shows "ipc_inv s' \<and> i_sched s' = i_sched s"
  by (rule create_cases [of s]) (use assms in \<open>auto intro!: ipc_inv_set_chan opened_wf\<close>)

lemma destroy_cases:
  assumes "ipc_inv s"
  shows "ipc_channel_destroy h s =
    (case chan_from_handle h s of
       None \<Rightarrow> (IPC_ERR_INVAL, s)
     | Some i \<Rightarrow> (IPC_OK, set_chan i (chan_reset (s_channels s i)) s))"
proof (cases "chan_from_handle h s")
  case (Some i)
  then have "c_state (s_channels s i) = CHAN_OPEN" "h \<noteq> 0"
    using chan_from_handle_inv [OF assms, of h i] chan_from_handle_Some [OF Some] by simp_all
  with Some show ?thesis by (simp add: ipc_channel_destroy_def)
qed (simp add: ipc_channel_destroy_def)

lemma destroy_inv:
  assumes "ipc_inv s" and "ipc_channel_destroy h s = (r, s')"
  shows "ipc_inv s' \<and> i_sched s' = i_sched s"
proof -
  have "chan_wf i (chan_reset (s_channels s i))" if "chan_from_handle h s = Some i" for i
    using assms(1) chan_from_handle_Some [OF that] by (intro chan_wf_reset) (simp add: ipc_inv_def chan_wf_def)
  then show ?thesis
    using assms by (auto simp: destroy_cases intro: ipc_inv_set_chan split: option.splits)
qed

text \<open>\<open>I\<close> are the handles issued so far, \<open>n\<close> more may follow before generation \<open>2 ^ 24\<close>.\<close>

definition chan_handles :: "nat \<Rightarrow> u32 set \<Rightarrow> u32 set \<Rightarrow> ipc_sys \<Rightarrow> bool" where
  "chan_handles n I L s \<longleftrightarrow> ipc_inv s \<and> L = open_handles s \<and> open_handles s \<subseteq> I
     \<and> (\<forall>h \<in> I. unat (drop_bit 8 h) < unat (s_next_generation s))
     \<and> unat (s_next_generation s) + n < 2 ^ 24"

definition create_opt :: "unit \<Rightarrow> ipc_sys \<Rightarrow> u32 option \<times> ipc_sys" where
  "create_opt _ s = (case ipc_channel_create s of (h, s') \<Rightarrow> (if h = 0 then None else Some h, s'))"

definition destroy_ok :: "u32 \<Rightarrow> ipc_sys \<Rightarrow> bool \<times> ipc_sys" where
  "destroy_ok h s = (case ipc_channel_destroy h s of (r, s') \<Rightarrow> (r = IPC_OK, s'))"

lemma create_handles:
  assumes rep: "chan_handles (Suc n) I L s" and i: "i < 16" "c_state (s_channels s i) = CHAN_FREE"
  defines "h \<equiv> gen_handle (s_next_generation s) (of_nat i)"
    and "s' \<equiv> set_chan i (opened i s) (s\<lparr>s_next_generation := s_next_generation s + 1\<rparr>)"
  shows "h \<notin> I" and "chan_handles n (insert h I) (insert h L) s'"
proof -
  have g: "unat (s_next_generation s) < 2 ^ 24" using rep by (simp add: chan_handles_def)
  have gen: "drop_bit 8 h = s_next_generation s" unfolding h_def by (rule gen_handle_generation [OF i(1) g])
  then show "h \<notin> I" using rep by (auto simp: chan_handles_def)
  have inc: "unat (s_next_generation s + 1) = unat (s_next_generation s) + 1"
    using g by (simp add: unat_inc)
  have "open_handles s' = insert h (open_handles s)"
    using i by (simp add: s'_def h_def open_handles_set_chan other_handles_simps opened_def)
  moreover have "ipc_inv s'"
    using rep i unfolding s'_def by (intro ipc_inv_set_chan opened_wf) (simp_all add: chan_handles_def)
  ultimately show "chan_handles n (insert h I) (insert h L) s'"
    using rep gen inc by (auto simp: chan_handles_def s'_def)
qed

interpretation ch: handle_table chan_handles create_opt destroy_ok ipc_channel_is_open
proof
  fix n I L s h b s' x
  show "chan_handles n I L s \<Longrightarrow> L \<subseteq> I" by (simp add: chan_handles_def)
  show "ipc_channel_is_open h s = (h \<in> L)" if "chan_handles n I L s"
    using that by (simp add: chan_handles_def is_open_inv open_handles_iff)
  have inc: "s_next_generation s + 1 \<noteq> 0" if "chan_handles (Suc n) I L s"
  proof -
    have "unat (s_next_generation s) < 2 ^ 31" using that by (simp add: chan_handles_def)
    from unat_inc [OF this] show ?thesis by (metis Suc_eq_plus1 nat.distinct(1) unat_0)
  qed
  show "h \<notin> I \<and> chan_handles n (insert h I) (insert h L) s'"
    if "chan_handles (Suc n) I L s" "create_opt x s = (Some h, s')"
    by (rule create_cases [of s])
      (use that inc [OF that(1)] in \<open>auto simp: create_opt_def dest: create_handles split: if_splits\<close>)
  show "chan_handles n I L s'" if rep: "chan_handles (Suc n) I L s" and cr: "create_opt x s = (None, s')"
  proof (rule create_cases [of s])
    assume "ipc_channel_create s = (0, s)"
    with rep cr show ?thesis by (simp add: create_opt_def chan_handles_def)
  next
    fix i assume "i < 16" "ipc_channel_create s = (gen_handle (s_next_generation s) (of_nat i),
      set_chan i (opened i s) (s\<lparr>s_next_generation :=
        (if s_next_generation s + 1 = 0 then 1 else s_next_generation s + 1)\<rparr>))"
    with cr gen_handle_slot(2) [OF \<open>i < 16\<close>] show ?thesis by (simp add: create_opt_def split: if_splits)
  qed
  show "b = (h \<in> L) \<and> chan_handles n I (L - {h}) s'"
    if rep: "chan_handles n I L s" and d: "destroy_ok h s = (b, s')"
  proof (cases "chan_from_handle h s")
    case None
    then show ?thesis
      using rep d by (auto simp: destroy_ok_def destroy_cases chan_handles_def open_handles_iff)
  next
    case (Some i)
    have inv: "ipc_inv s" and L: "L = open_handles s" using rep by (simp_all add: chan_handles_def)
    have i: "i < 16" "c_state (s_channels s i) = CHAN_OPEN" "c_handle (s_channels s i) = h"
      using chan_from_handle_inv [OF inv] Some by simp_all
    have s': "b" "s' = set_chan i (chan_reset (s_channels s i)) s"
      using d Some by (auto simp: destroy_ok_def destroy_cases [OF inv])
    have "ipc_channel_destroy h s = (0, s')" using Some s' by (simp add: destroy_cases [OF inv])
    then have "ipc_inv s'" using destroy_inv [OF inv] by blast
    moreover have "open_handles s' = L - {h}"
      using i L s' inv by (simp add: open_handles_set_chan chan_reset_def other_handles_simps)
    moreover have "h \<in> L" using L i by (auto simp: open_handles_def)
    ultimately show ?thesis using rep s' by (auto simp: chan_handles_def)
  qed
qed

text \<open>
  C25. Channel handles are never confused, for as long as fewer than \<open>2 ^ 24\<close> channels have
  been asked for: starting from \<open>ipc_init\<close>, any sequence of creations and destructions issues
  pairwise distinct handles.
\<close>

theorem ipc_handles_fresh:
  assumes "ring_mem_ok s" and "creations reqs + 1 < 2 ^ 24"
    and "handle_run create_opt destroy_ok reqs (ipc_init s) = (hs, s')"
  shows "distinct hs"
proof -
  have "open_handles (ipc_init s) = {}"
    by (auto simp: open_handles_def ipc_init_channels chan_reset_def)
  then have "chan_handles (creations reqs) {} {} (ipc_init s)"
    using assms ipc_init_inv by (simp add: chan_handles_def)
  from ch.run_fresh [OF this _ assms(3)] show ?thesis by simp
qed

definition example_chan :: ipc_channel_t where
  "example_chan = \<lparr>c_state = CHAN_FREE, c_handle = 0, c_head = 0, c_tail = 0, c_count = 0,
     c_ring = (\<lambda>_. \<lparr>m_type = 0, m_payload_len = 0, m_payload = replicate 8 0\<rparr>),
     c_blocked_sender = None, c_blocked_receiver = None\<rparr>"

definition example_ipc :: ipc_sys where
  "example_ipc = \<lparr>i_sched = example_sched, s_channels = (\<lambda>_. example_chan), s_next_generation = 0\<rparr>"

lemma example_ipc_ok: "ring_mem_ok example_ipc"
  by (simp add: ring_mem_ok_def example_ipc_def example_chan_def msg_ok_def)

definition example_reqs :: "(unit, u32) handle_req list" where
  "example_reqs = [Create (), Create (), Destroy 0x101, Create ()]"

theorem ipc_handles_fresh_witness:
  "ring_mem_ok example_ipc
     \<and> distinct (fst (handle_run create_opt destroy_ok example_reqs (ipc_init example_ipc)))"
proof -
  have "creations example_reqs + 1 < 2 ^ 24" by (simp add: example_reqs_def)
  from ipc_handles_fresh [OF example_ipc_ok this prod.collapse [symmetric]] example_ipc_ok
  show ?thesis by blast
qed

text \<open>
  C26. A destroyed channel stays closed to its old handle: once \<open>ipc_channel_destroy\<close> has
  succeeded, no later sequence of creations and destructions makes the handle valid again,
  even though the slot is reused, for as long as fewer than \<open>2 ^ 24\<close> channels have been
  created.
\<close>

theorem ipc_stale_handle_rejected:
  assumes "ring_mem_ok s" and "creations reqs1 + creations reqs2 + 1 < 2 ^ 24"
    and "handle_run create_opt destroy_ok reqs1 (ipc_init s) = (hs, s1)"
    and "ipc_channel_destroy h s1 = (IPC_OK, s2)"
    and "handle_run create_opt destroy_ok reqs2 s2 = (hs', s3)"
  shows "\<not> ipc_channel_is_open h s3"
proof -
  have "open_handles (ipc_init s) = {}"
    by (auto simp: open_handles_def ipc_init_channels chan_reset_def)
  then have "chan_handles (creations reqs1 + creations reqs2) {} {} (ipc_init s)"
    using assms ipc_init_inv by (simp add: chan_handles_def)
  from ch.run_fresh [OF this _ assms(3)] obtain L
    where r1: "chan_handles (creations reqs2) (set hs) L s1" by auto
  moreover have "destroy_ok h s1 = (True, s2)" using assms(4) by (simp add: destroy_ok_def)
  ultimately have "h \<in> L" "chan_handles (creations reqs2) (set hs) (L - {h}) s2"
    using ch.destroy_step by blast+
  moreover have "L \<subseteq> set hs" using r1 ch.live_issued by blast
  ultimately show ?thesis using ch.run_stale [OF _ _ _ _ assms(5)] by auto
qed

definition example_opened :: ipc_sys where
  "example_opened = snd (ipc_channel_create (ipc_init example_ipc))"

lemma example_opened_run:
  "handle_run create_opt destroy_ok [Create ()] (ipc_init example_ipc) = ([0x101], example_opened)"
  and example_opened_chan: "chan_from_handle 0x101 example_opened = Some 0"
proof -
  have up: "[0..<16::nat] = 0 # [1..<16]" by (simp add: upt_conv_Cons)
  have free: "c_state (s_channels (ipc_init example_ipc) 0) = CHAN_FREE"
    by (simp add: ipc_init_channels chan_reset_def)
  have cr: "ipc_channel_create (ipc_init example_ipc) = (0x101, example_opened)"
    "c_handle (s_channels example_opened 0) = 0x101"
    unfolding example_opened_def ipc_channel_create_def up
    by (simp_all add: free Let_def gen_handle_def)
  then show "handle_run create_opt destroy_ok [Create ()] (ipc_init example_ipc) = ([0x101], example_opened)"
    by (simp add: create_opt_def)
  from cr(2) show "chan_from_handle 0x101 example_opened = Some 0"
    by (simp add: chan_from_handle_def)
qed

theorem ipc_stale_handle_rejected_witness:
  "fst (ipc_channel_destroy 0x101 example_opened) = IPC_OK
   \<and> \<not> ipc_channel_is_open 0x101
       (snd (handle_run create_opt destroy_ok [Create ()] (snd (ipc_channel_destroy 0x101 example_opened))))"
proof -
  have "ipc_inv example_opened"
    using create_inv [OF ipc_init_inv [OF example_ipc_ok]] unfolding example_opened_def
    by (metis prod.collapse)
  then have ok: "ipc_channel_destroy 0x101 example_opened
      = (IPC_OK, snd (ipc_channel_destroy 0x101 example_opened))"
    by (simp add: destroy_cases example_opened_chan)
  have "creations [Create () :: (unit, u32) handle_req] + creations [Create () :: (unit, u32) handle_req] + 1 < 2 ^ 24" by simp
  from ipc_stale_handle_rejected [OF example_ipc_ok this example_opened_run ok prod.collapse [symmetric]] ok
  show ?thesis by (metis fst_conv)
qed

subsection \<open>Sending and receiving\<close>

definition ipc_ok :: "ipc_sys \<Rightarrow> bool" where
  "ipc_ok s \<longleftrightarrow> ipc_inv s \<and> (\<exists>qs. sched_ok (i_sched s) qs)"

lemma wake_returns:
  assumes "sched_ok sc qs"
  shows "\<exists>sc' qs'. wake w sc = Some sc' \<and> sched_ok sc' qs'"
proof (cases w)
  case (Some t)
  show ?thesis
  proof (cases "t_state (tcb sc t) = PROCESS_STATE_BLOCKED")
    case True
    obtain sc' where "sched_unblock (Some t) sc = Some (can_enqueue (make_ready t sc) qs t, sc')"
      and "sched_ok sc' (enqueued (make_ready t sc) qs t)"
      by (rule sched_unblock_ok [OF assms True])
    with Some show ?thesis by (auto simp: wake_def)
  next
    case False
    with Some assms show ?thesis by (auto simp: wake_def sched_unblock_refuses)
  qed
qed (use assms in \<open>auto simp: wake_def\<close>)

lemma trysend_eval:
  assumes "ipc_inv s"
  shows "ipc_trysend h msg s =
    (case (msg, chan_from_handle h s) of
       (Some m, Some i) \<Rightarrow>
         if unat (c_count (s_channels s i)) = 8 then Some (IPC_ERR_FULL, s)
         else map_option (\<lambda>sc. (IPC_OK,
                (set_chan i ((chan_push m (s_channels s i))\<lparr>c_blocked_receiver := None\<rparr>) s)\<lparr>i_sched := sc\<rparr>))
              (wake (c_blocked_receiver (s_channels s i)) (i_sched s))
     | _ \<Rightarrow> Some (IPC_ERR_INVAL, s))"
proof (cases "chan_from_handle h s")
  case None
  then have "open_chan h (msg = None) s = Inl (- 1)" using open_chan_inv(2) [OF assms] by simp
  with None show ?thesis by (simp add: ipc_trysend_def split: option.split)
next
  case (Some i)
  have op: "open_chan h False s = Inr i" "open_chan h True s = Inl (- 1)"
    using open_chan_inv [OF assms] Some by simp_all
  have "chan_wf i (s_channels s i)" using assms chan_from_handle_Some [OF Some] by (simp add: ipc_inv_def)
  then have "c_count (s_channels s i) \<ge> 8 \<longleftrightarrow> unat (c_count (s_channels s i)) = 8"
    by (auto simp: chan_wf_def ring_wf_def word_le_nat_alt)
  with Some op show ?thesis
    by (auto simp: ipc_trysend_def Let_def chan_push_def split: option.split Option.bind_split)
qed

lemma tryrecv_eval:
  assumes "ipc_inv s"
  shows "ipc_tryrecv h ty out s =
    (case (out, chan_from_handle h s) of
       (Some dst, Some i) \<Rightarrow>
         (case chan_abs (s_channels s i) of
            [] \<Rightarrow> Some (IPC_ERR_EMPTY, out, s)
          | m # ms \<Rightarrow>
              if ty \<noteq> IPC_MSG_TYPE_ANY \<and> m_type m \<noteq> ty then Some (IPC_ERR_TYPE, out, s)
              else map_option (\<lambda>sc. (IPC_OK, Some (msg_copy dst m),
                     (set_chan i ((chan_pop (s_channels s i))\<lparr>c_blocked_sender := None\<rparr>) s)\<lparr>i_sched := sc\<rparr>))
                   (wake (c_blocked_sender (s_channels s i)) (i_sched s)))
     | _ \<Rightarrow> Some (IPC_ERR_INVAL, out, s))"
proof (cases "chan_from_handle h s")
  case None
  then have "open_chan h (out = None) s = Inl (- 1)" using open_chan_inv(2) [OF assms] by simp
  with None show ?thesis by (simp add: ipc_tryrecv_def split: option.split)
next
  case (Some i)
  have op: "open_chan h False s = Inr i" "open_chan h True s = Inl (- 1)"
    using open_chan_inv [OF assms] Some by simp_all
  have wf: "ring_wf (s_channels s i)"
    using assms chan_from_handle_Some [OF Some] by (simp add: ipc_inv_def chan_wf_def)
  show ?thesis
  proof (cases "c_count (s_channels s i) = 0")
    case True
    then have "chan_abs (s_channels s i) = []" by (simp add: chan_empty_abs)
    with Some op True show ?thesis by (simp add: ipc_tryrecv_def split: option.split)
  next
    case False
    from chan_pop_abs(1) [OF wf False] False Some op show ?thesis
      by (auto simp: ipc_tryrecv_def Let_def chan_pop_def split: option.split Option.bind_split)
  qed
qed

lemma chan_wf_waiters [simp]:
  "chan_wf i (c\<lparr>c_blocked_receiver := w\<rparr>) = chan_wf i c" "chan_wf i (c\<lparr>c_blocked_sender := w\<rparr>) = chan_wf i c"
  "chan_abs (c\<lparr>c_blocked_receiver := w\<rparr>) = chan_abs c" "chan_abs (c\<lparr>c_blocked_sender := w\<rparr>) = chan_abs c"
  by (simp_all add: chan_wf_def ring_wf_def chan_abs_def)

lemma chan_push_fields [simp]:
  "c_state (chan_push m c) = c_state c" "c_handle (chan_push m c) = c_handle c"
  "c_state (chan_pop c) = c_state c" "c_handle (chan_pop c) = c_handle c"
  by (simp_all add: chan_push_def chan_pop_def)

lemma chan_push_wf: "chan_wf i c \<Longrightarrow> unat (c_count c) < 8 \<Longrightarrow> msg_ok m \<Longrightarrow> chan_wf i (chan_push m c)"
  using chan_push_abs(2) [of c m] by (simp add: chan_wf_def)

lemma chan_pop_wf: "chan_wf i c \<Longrightarrow> c_count c \<noteq> 0 \<Longrightarrow> chan_wf i (chan_pop c)"
  using chan_pop_abs(2) [of c] by (simp add: chan_wf_def)

lemma chan_from_handle_cong:
  assumes "\<And>j. c_handle (s_channels s' j) = c_handle (s_channels s j)"
  shows "chan_from_handle h s' = chan_from_handle h s"
  using assms by (simp add: chan_from_handle_def Let_def)

text \<open>\<open>chan_holds h s q\<close>: the channel named \<open>h\<close> is open and its messages are \<open>q\<close>, oldest first.\<close>

definition chan_holds :: "ipc_handle_t \<Rightarrow> ipc_sys \<Rightarrow> ipc_message_t list \<Rightarrow> bool" where
  "chan_holds h s q \<longleftrightarrow> ipc_ok s \<and> (\<exists>i. chan_from_handle h s = Some i \<and> chan_abs (s_channels s i) = q)"

lemma chan_holds_slot:
  assumes "chan_holds h s q"
  obtains i qs where "chan_from_handle h s = Some i" and "chan_abs (s_channels s i) = q" and "ipc_inv s"
    and "i < 16" and "chan_wf i (s_channels s i)" and "sched_ok (i_sched s) qs"
  using assms chan_from_handle_Some by (fastforce simp: chan_holds_def ipc_ok_def ipc_inv_def)

text \<open>The frame of a message operation on slot \<open>i\<close>: every other channel keeps its messages.\<close>

definition others_same :: "ipc_handle_t \<Rightarrow> ipc_sys \<Rightarrow> ipc_sys \<Rightarrow> bool" where
  "others_same h s s' \<longleftrightarrow> (\<forall>g q. g \<noteq> h \<longrightarrow> chan_holds g s q \<longrightarrow> chan_holds g s' q)"

lemma chan_step:
  assumes i: "chan_from_handle h s = Some i" and inv: "ipc_inv s"
    and c: "chan_wf i c" "c_handle c = h" "chan_abs c = q'" and sc: "sched_ok sc qs"
    and s': "s' = (set_chan i c s)\<lparr>i_sched := sc\<rparr>"
  shows "chan_holds h s' q'" and "others_same h s s'"
proof -
  have h: "c_handle (s_channels s i) = h" using chan_from_handle_Some [OF i] by simp
  have same: "chan_from_handle g s' = chan_from_handle g s" for g
    using c(2) h by (intro chan_from_handle_cong) (simp add: s')
  have ok: "ipc_ok s'" using inv c(1) sc by (auto simp: ipc_ok_def s' ipc_inv_set_chan)
  then show "chan_holds h s' q'" using i c(3) same by (auto simp: chan_holds_def s')
  have "chan_from_handle g s \<noteq> Some i" if "g \<noteq> h" for g
    using that h chan_from_handle_Some by blast
  then have "s_channels s' j = s_channels s j" if "g \<noteq> h" "chan_from_handle g s = Some j" for g j
    using that by (auto simp: s')
  then show "others_same h s s'" using ok same by (simp add: others_same_def chan_holds_def) metis
qed

lemma trysend_room:
  assumes "chan_holds h s q" and "msg_ok m" and "length q < 8"
  obtains s' where "ipc_trysend h (Some m) s = Some (IPC_OK, s')" and "chan_holds h s' (q @ [m])"
    and "others_same h s s'"
proof -
  obtain i qs where i: "chan_from_handle h s = Some i" "chan_abs (s_channels s i) = q" "ipc_inv s"
    "i < 16" "chan_wf i (s_channels s i)" "sched_ok (i_sched s) qs" using assms(1) by (rule chan_holds_slot)
  let ?c = "s_channels s i"
  obtain sc qs' where sc: "wake (c_blocked_receiver ?c) (i_sched s) = Some sc" "sched_ok sc qs'"
    using wake_returns [OF i(6)] by blast
  have cnt: "unat (c_count ?c) < 8" using i(2) assms(3) length_chan_abs [of ?c] by simp
  have wf: "chan_wf i (chan_push m ?c)" and abs: "chan_abs (chan_push m ?c) = q @ [m]"
    using chan_push_wf [OF i(5) cnt assms(2)] chan_push_abs(1) [OF _ cnt assms(2)] i(2,5)
    by (auto simp: chan_wf_def)
  show ?thesis
  proof (rule that)
    show "ipc_trysend h (Some m) s = Some (IPC_OK,
        (set_chan i ((chan_push m ?c)\<lparr>c_blocked_receiver := None\<rparr>) s)\<lparr>i_sched := sc\<rparr>)"
      using i sc cnt by (simp add: trysend_eval)
  qed (rule chan_step [OF i(1,3) _ _ _ sc(2) refl];
      use wf abs chan_from_handle_Some [OF i(1)] in simp)+
qed

lemma trysend_full:
  assumes "chan_holds h s q" and "length q = 8"
  shows "ipc_trysend h (Some m) s = Some (IPC_ERR_FULL, s)"
proof -
  obtain i where "chan_from_handle h s = Some i" "chan_abs (s_channels s i) = q" "ipc_inv s"
    using assms(1) by (rule chan_holds_slot)
  with assms(2) length_chan_abs [of "s_channels s i"] show ?thesis by (simp add: trysend_eval)
qed

lemma tryrecv_first:
  assumes "chan_holds h s (m # q)" and "msg_ok dst" and "ty = 0 \<or> m_type m = ty"
  obtains s' where "ipc_tryrecv h ty (Some dst) s = Some (IPC_OK, Some m, s')" and "chan_holds h s' q"
    and "others_same h s s'"
proof -
  obtain i qs where i: "chan_from_handle h s = Some i" "chan_abs (s_channels s i) = m # q" "ipc_inv s"
    "i < 16" "chan_wf i (s_channels s i)" "sched_ok (i_sched s) qs" using assms(1) by (rule chan_holds_slot)
  let ?c = "s_channels s i"
  obtain sc qs' where sc: "wake (c_blocked_sender ?c) (i_sched s) = Some sc" "sched_ok sc qs'"
    using wake_returns [OF i(6)] by blast
  have wf: "ring_wf ?c" using i(5) by (simp add: chan_wf_def)
  have cnt: "c_count ?c \<noteq> 0" using i(2) by (simp add: chan_empty_abs)
  have abs: "m = c_ring ?c (unat (c_head ?c))" "chan_abs (chan_pop ?c) = q"
    using chan_pop_abs(1) [OF wf cnt] i(2) by simp_all
  then have copy: "msg_copy dst m = m" using wf assms(2) by (intro msg_copy_eq) (auto simp: ring_wf_def)
  show ?thesis
  proof (rule that)
    show "ipc_tryrecv h ty (Some dst) s = Some (IPC_OK, Some m,
        (set_chan i ((chan_pop ?c)\<lparr>c_blocked_sender := None\<rparr>) s)\<lparr>i_sched := sc\<rparr>)"
      using i sc assms(3) copy by (auto simp: tryrecv_eval)
  qed (rule chan_step [OF i(1,3) _ _ _ sc(2) refl];
      use chan_pop_wf [OF i(5) cnt] abs chan_from_handle_Some [OF i(1)] in simp)+
qed

lemma tryrecv_refuses:
  assumes "chan_holds h s q"
  shows "q = [] \<Longrightarrow> ipc_tryrecv h ty (Some dst) s = Some (IPC_ERR_EMPTY, Some dst, s)"
    and "q = m # ms \<Longrightarrow> ty \<noteq> 0 \<Longrightarrow> m_type m \<noteq> ty \<Longrightarrow>
      ipc_tryrecv h ty (Some dst) s = Some (IPC_ERR_TYPE, Some dst, s)"
proof -
  obtain i where "chan_from_handle h s = Some i" "chan_abs (s_channels s i) = q" "ipc_inv s"
    using assms(1) by (rule chan_holds_slot)
  then show "q = [] \<Longrightarrow> ipc_tryrecv h ty (Some dst) s = Some (IPC_ERR_EMPTY, Some dst, s)"
    and "q = m # ms \<Longrightarrow> ty \<noteq> 0 \<Longrightarrow> m_type m \<noteq> ty \<Longrightarrow>
      ipc_tryrecv h ty (Some dst) s = Some (IPC_ERR_TYPE, Some dst, s)"
    by (simp_all add: tryrecv_eval)
qed

text \<open>The operations of one channel as a bounded queue.\<close>

definition zero_msg :: ipc_message_t where
  "zero_msg = \<lparr>m_type = 0, m_payload_len = 0, m_payload = replicate IPC_PAYLOAD_WORDS 0\<rparr>"

definition send_op :: "ipc_handle_t \<Rightarrow> ipc_message_t \<Rightarrow> ipc_sys \<Rightarrow> (bool \<times> ipc_sys) option" where
  "send_op h m s = map_option (\<lambda>(r, s'). (r = IPC_OK, s')) (ipc_trysend h (Some m) s)"

definition recv_op :: "ipc_handle_t \<Rightarrow> ipc_sys \<Rightarrow> (ipc_message_t option \<times> ipc_sys) option" where
  "recv_op h s = map_option (\<lambda>(r, out, s'). (if r = IPC_OK then out else None, s'))
     (ipc_tryrecv h IPC_MSG_TYPE_ANY (Some zero_msg) s)"

lemma zero_msg_ok: "msg_ok zero_msg"
  by (simp add: msg_ok_def zero_msg_def)

lemma chan_holds_bound: "chan_holds h s q \<Longrightarrow> length q \<le> 8"
  by (erule chan_holds_slot) (auto simp: chan_wf_def ring_wf_def length_chan_abs [symmetric])

interpretation cf: bounded_fifo "chan_holds h" msg_ok 8 "send_op h" "recv_op h" for h
proof
  fix s q m
  show "chan_holds h s q \<Longrightarrow> length q \<le> 8" by (rule chan_holds_bound)
  show "\<exists>s'. send_op h m s = Some (True, s') \<and> chan_holds h s' (q @ [m])"
    if "chan_holds h s q" "msg_ok m" "length q < 8"
    by (rule trysend_room [OF that]) (auto simp: send_op_def)
  show "\<exists>s'. send_op h m s = Some (False, s') \<and> chan_holds h s' q"
    if "chan_holds h s q" "msg_ok m" "length q = 8"
    using that by (simp add: send_op_def trysend_full)
  show "\<exists>s'. recv_op h s = Some (Some m, s') \<and> chan_holds h s' q" if "chan_holds h s (m # q)"
    by (rule tryrecv_first [OF that zero_msg_ok, of 0]) (auto simp: recv_op_def)
  show "\<exists>s'. recv_op h s = Some (None, s') \<and> chan_holds h s' []" if "chan_holds h s []"
    using that tryrecv_refuses(1) [OF that refl] by (simp add: recv_op_def)
qed

lemma example_opened_ok: "chan_holds 0x101 example_opened []"
proof -
  have inv: "ipc_inv example_opened" and sc: "i_sched example_opened = example_sched"
    using create_inv [OF ipc_init_inv [OF example_ipc_ok]] unfolding example_opened_def
    by (metis prod.collapse, metis prod.collapse ipc_init_sched(1) ipc_sys.select_convs(1) example_ipc_def)
  have up: "[0..<16::nat] = 0 # [1..<16]" by (simp add: upt_conv_Cons)
  have "chan_abs (s_channels example_opened 0) = []"
    unfolding example_opened_def ipc_channel_create_def up
    by (simp add: ipc_init_channels chan_reset_def Let_def chan_abs_def)
  with inv sc example_ok example_opened_chan show ?thesis by (auto simp: chan_holds_def ipc_ok_def)
qed

definition example_msg :: "u32 \<Rightarrow> ipc_message_t" where
  "example_msg ty = \<lparr>m_type = ty, m_payload_len = 8, m_payload = [1, 2, 3, 4, 5, 6, 7, 8]\<rparr>"

lemma example_msg_ok: "msg_ok (example_msg ty)"
  by (simp add: msg_ok_def example_msg_def)

text \<open>
  C9. A channel is a bounded FIFO of capacity eight: however sends and receives on an open
  channel follow one another, every call returns with the result a queue of capacity eight
  gives (a send is accepted exactly while fewer than eight messages wait, a receive hands out
  the oldest message, or none exactly when none waits), and the channel ends up holding
  what that queue holds. So the messages received followed by those still waiting are the
  messages that waited at the start followed by the accepted ones: none is lost, duplicated
  or reordered, although the buffer wraps around and blocked threads are woken in between.
\<close>

theorem ipc_channel_fifo:
  assumes "chan_holds h s q" and "\<forall>r \<in> set reqs. req_ok msg_ok r"
  shows "\<exists>res s' q'. fifo_run (send_op h) (recv_op h) reqs s = Some (res, s') \<and> chan_holds h s' q'
    \<and> fifo_spec 8 reqs q = (res, q') \<and> received res @ q' = q @ accepted reqs res \<and> length q' \<le> 8"
  using cf.run_fifo [OF assms] chan_holds_bound fifo_spec_conserves
  by (metis prod.collapse)

theorem ipc_channel_fifo_witness:
  "\<exists>s'. fifo_run (send_op 0x101) (recv_op 0x101)
      [Send (example_msg 5), Send (example_msg 6), Receive] example_opened =
      Some ([Sent True, Sent True, Received (Some (example_msg 5))], s')
    \<and> chan_holds 0x101 s' [example_msg 6]"
  using ipc_channel_fifo [OF example_opened_ok, of "[Send (example_msg 5), Send (example_msg 6), Receive]"]
    example_msg_ok by auto

lemma is_open_holds: "ipc_ok s \<Longrightarrow> ipc_channel_is_open h s \<longleftrightarrow> (\<exists>q. chan_holds h s q)"
  by (auto simp: is_open_inv ipc_ok_def chan_holds_def)

lemma trysend_not_open:
  assumes "ipc_ok s" and "\<not> ipc_channel_is_open h s \<or> msg = None"
  shows "ipc_trysend h msg s = Some (IPC_ERR_INVAL, s)"
  using assms by (auto simp: ipc_ok_def trysend_eval is_open_inv split: option.split)

lemma tryrecv_not_open:
  assumes "ipc_ok s" and "\<not> ipc_channel_is_open h s \<or> out = None"
  shows "ipc_tryrecv h ty out s = Some (IPC_ERR_INVAL, out, s)"
  using assms by (auto simp: ipc_ok_def tryrecv_eval is_open_inv split: option.split)

text \<open>What a successful operation does to the thread \<open>w\<close> that waited on the other side.\<close>

definition woken :: "tptr option \<Rightarrow> sched \<Rightarrow> sched \<Rightarrow> bool" where
  "woken w sc sc' \<longleftrightarrow> (case w of None \<Rightarrow> sc' = sc | Some t \<Rightarrow> \<exists>b. sched_unblock (Some t) sc = Some (b, sc'))"

lemma wake_woken: "wake w sc = Some sc' \<Longrightarrow> woken w sc sc'"
  by (auto simp: wake_def woken_def split: option.splits Option.bind_splits)

lemma trysend_wakes:
  assumes "ipc_inv s" and "ipc_trysend h (Some m) s = Some (IPC_OK, s')" and "chan_from_handle h s = Some i"
  shows "c_blocked_receiver (s_channels s' i) = None \<and> woken (c_blocked_receiver (s_channels s i)) (i_sched s) (i_sched s')"
  using assms by (auto simp: trysend_eval split: if_splits intro: wake_woken)

lemma tryrecv_wakes:
  assumes "ipc_inv s" and "ipc_tryrecv h ty (Some dst) s = Some (IPC_OK, out, s')" and "chan_from_handle h s = Some i"
  shows "c_blocked_sender (s_channels s' i) = None \<and> woken (c_blocked_sender (s_channels s i)) (i_sched s) (i_sched s')"
  using assms by (auto simp: tryrecv_eval split: if_splits list.splits intro: wake_woken)

text \<open>
  C35. \<open>ipc_trysend\<close> on every branch. On an open channel with room it succeeds, appends the
  message, unblocks the thread that waits to receive and forgets it, and leaves the
  messages of every other channel alone; on a full channel it reports IPC_ERR_FULL and
  changes nothing; with a NULL message or a handle that names no open channel it reports
  IPC_ERR_INVAL and changes nothing. The last case includes the handle of a destroyed
  channel, for which the header announces IPC_ERR_CLOSED: the code does not keep to it.
\<close>

theorem ipc_trysend_spec:
  assumes "ipc_ok s" and "\<forall>m \<in> set_option msg. msg_ok m"
  shows "case msg of
      None \<Rightarrow> ipc_trysend h msg s = Some (IPC_ERR_INVAL, s)
    | Some m \<Rightarrow>
        if ipc_channel_is_open h s
        then \<exists>q i. chan_holds h s q \<and> chan_from_handle h s = Some i \<and>
          (if length q = 8 then ipc_trysend h msg s = Some (IPC_ERR_FULL, s)
           else \<exists>s'. ipc_trysend h msg s = Some (IPC_OK, s') \<and> chan_holds h s' (q @ [m])
                  \<and> others_same h s s' \<and> c_blocked_receiver (s_channels s' i) = None
                  \<and> woken (c_blocked_receiver (s_channels s i)) (i_sched s) (i_sched s'))
        else ipc_trysend h msg s = Some (IPC_ERR_INVAL, s)"
proof (cases msg)
  case (Some m)
  show ?thesis
  proof (cases "ipc_channel_is_open h s")
    case True
    then obtain q where q: "chan_holds h s q" using assms(1) by (auto simp: is_open_holds)
    then obtain i where i: "chan_from_handle h s = Some i" "ipc_inv s" by (rule chan_holds_slot)
    have m: "msg_ok m" using assms(2) Some by simp
    show ?thesis
    proof (cases "length q = 8")
      case False
      then have "length q < 8" using chan_holds_bound [OF q] by simp
      with q m obtain s' where s': "ipc_trysend h (Some m) s = Some (IPC_OK, s')" "chan_holds h s' (q @ [m])"
        "others_same h s s'" by (rule trysend_room)
      with q i True False Some trysend_wakes [OF i(2) s'(1) i(1)] show ?thesis by auto
    qed (use q i True Some in \<open>auto simp: trysend_full\<close>)
  qed (use assms(1) Some in \<open>simp add: trysend_not_open\<close>)
qed (use assms(1) in \<open>simp add: trysend_not_open\<close>)

theorem ipc_trysend_spec_witness:
  "\<exists>s'. ipc_trysend 0x101 (Some (example_msg 5)) example_opened = Some (IPC_OK, s')
     \<and> chan_holds 0x101 s' [example_msg 5]"
proof -
  have ok: "ipc_ok example_opened" using example_opened_ok by (simp add: chan_holds_def)
  then have "ipc_channel_is_open 0x101 example_opened" using example_opened_ok is_open_holds by blast
  moreover have "q = []" if "chan_holds 0x101 example_opened q" for q
    using that example_opened_ok by (auto simp: chan_holds_def)
  ultimately show ?thesis
    using ipc_trysend_spec [OF ok, of "Some (example_msg 5)" "0x101"] example_msg_ok by fastforce
qed

text \<open>
  C36. \<open>ipc_tryrecv\<close> on every branch. From an open channel it hands out the oldest message
  when the type filter is the wildcard or equals the message's type, unblocks the thread
  that waits to send and forgets it, and leaves the other channels alone; with another
  type waiting at the front it reports IPC_ERR_TYPE, on an empty channel IPC_ERR_EMPTY,
  with no buffer or no open channel IPC_ERR_INVAL, and in each of these cases neither the
  channels nor the caller's buffer change. A destroyed channel gives IPC_ERR_INVAL too,
  for which the header announces IPC_ERR_CLOSED: the code does not keep to it.
\<close>

theorem ipc_tryrecv_spec:
  assumes "ipc_ok s" and "\<forall>m \<in> set_option out. msg_ok m"
  shows "case out of
      None \<Rightarrow> ipc_tryrecv h ty out s = Some (IPC_ERR_INVAL, out, s)
    | Some dst \<Rightarrow>
        if ipc_channel_is_open h s
        then \<exists>q i. chan_holds h s q \<and> chan_from_handle h s = Some i \<and>
          (case q of
             [] \<Rightarrow> ipc_tryrecv h ty out s = Some (IPC_ERR_EMPTY, out, s)
           | m # ms \<Rightarrow>
               if ty = IPC_MSG_TYPE_ANY \<or> m_type m = ty
               then \<exists>s'. ipc_tryrecv h ty out s = Some (IPC_OK, Some m, s') \<and> chan_holds h s' ms
                      \<and> others_same h s s' \<and> c_blocked_sender (s_channels s' i) = None
                      \<and> woken (c_blocked_sender (s_channels s i)) (i_sched s) (i_sched s')
               else ipc_tryrecv h ty out s = Some (IPC_ERR_TYPE, out, s))
        else ipc_tryrecv h ty out s = Some (IPC_ERR_INVAL, out, s)"
proof (cases "\<exists>dst. out = Some dst \<and> ipc_channel_is_open h s")
  case True
  then obtain dst where out: "out = Some dst" and op: "ipc_channel_is_open h s" by blast
  then obtain q where q: "chan_holds h s q" using assms(1) by (auto simp: is_open_holds)
  then obtain i where i: "chan_from_handle h s = Some i" "ipc_inv s" by (rule chan_holds_slot)
  show ?thesis
  proof (cases q)
    case Nil
    with q i out op tryrecv_refuses(1) [OF q Nil] show ?thesis by auto
  next
    case (Cons m ms)
    show ?thesis
    proof (cases "ty = 0 \<or> m_type m = ty")
      case match: True
      have dst: "msg_ok dst" using assms(2) out by simp
      obtain s' where s': "ipc_tryrecv h ty (Some dst) s = Some (IPC_OK, Some m, s')" "chan_holds h s' ms"
        "others_same h s s'" by (rule tryrecv_first [OF q [unfolded Cons] dst match])
      with q i out op match Cons tryrecv_wakes [OF i(2) s'(1) i(1)] show ?thesis by auto
    next
      case False
      with tryrecv_refuses(2) [OF q Cons, of ty dst] q i out op Cons show ?thesis by auto
    qed
  qed
next
  case False
  with assms(1) tryrecv_not_open [of s h out ty] show ?thesis by (auto split: option.split)
qed

theorem ipc_tryrecv_spec_witness:
  "ipc_tryrecv 0x101 7 (Some zero_msg) example_opened = Some (IPC_ERR_EMPTY, Some zero_msg, example_opened)
   \<and> (\<exists>s1 s2. ipc_trysend 0x101 (Some (example_msg 7)) example_opened = Some (IPC_OK, s1)
        \<and> ipc_tryrecv 0x101 7 (Some zero_msg) s1 = Some (IPC_OK, Some (example_msg 7), s2) \<and> chan_holds 0x101 s2 [])"
proof -
  have empty: "ipc_ok example_opened" "ipc_channel_is_open 0x101 example_opened"
    using example_opened_ok is_open_holds by (auto simp: chan_holds_def)
  have only: "q = p" if "chan_holds 0x101 u q" "chan_holds 0x101 u p" for u p q
    using that by (auto simp: chan_holds_def)
  obtain s1 where s1: "ipc_trysend 0x101 (Some (example_msg 7)) example_opened = Some (IPC_OK, s1)"
    "chan_holds 0x101 s1 ([] @ [example_msg 7])"
    by (rule trysend_room [OF example_opened_ok example_msg_ok]) simp
  then have one: "ipc_ok s1" "ipc_channel_is_open 0x101 s1" using is_open_holds by (auto simp: chan_holds_def)
  have "m_type (example_msg 7) = 7" by (simp add: example_msg_def)
  then have "\<exists>s2. ipc_tryrecv 0x101 7 (Some zero_msg) s1 = Some (IPC_OK, Some (example_msg 7), s2) \<and> chan_holds 0x101 s2 []"
    using ipc_tryrecv_spec [OF one(1), of "Some zero_msg" "0x101" 7] one(2) zero_msg_ok only [OF _ s1(2)] by fastforce
  moreover have "ipc_tryrecv 0x101 7 (Some zero_msg) example_opened = Some (IPC_ERR_EMPTY, Some zero_msg, example_opened)"
    using ipc_tryrecv_spec [OF empty(1), of "Some zero_msg" "0x101" 7] empty(2) zero_msg_ok only [OF _ example_opened_ok]
    by fastforce
  ultimately show ?thesis using s1(1) by blast
qed

subsection \<open>Waiting\<close>

text \<open>A sender on a full channel gives up the processor and is remembered by the channel.\<close>

lemma ipc_send_waits:
  assumes holds: "chan_holds h s q" and full: "length q = 8" and sc: "sched_ok (i_sched s) qs"
    and cur: "s_current (i_sched s) = Some cur" "t_state (tcb (i_sched s) cur) = PROCESS_STATE_RUNNING"
    and nxt: "queued qs = n # ts"
  obtains s' qs' i where "ipc_send h (Some m) s = Some (Switched n, s')" and "chan_holds h s' q"
    and "chan_from_handle h s' = Some i" and "c_blocked_sender (s_channels s' i) = Some cur"
    and "sched_ok (i_sched s') qs'" and "queued qs' = ts" and "s_current (i_sched s') = Some n"
    and "\<forall>x. t_state (tcb (i_sched s') x) = (if x = n then PROCESS_STATE_RUNNING
           else if x = cur then PROCESS_STATE_BLOCKED else t_state (tcb (i_sched s) x))"
    and "\<forall>x. t_priority (tcb (i_sched s') x) = t_priority (tcb (i_sched s) x)"
proof -
  obtain i where i: "chan_from_handle h s = Some i" "chan_abs (s_channels s i) = q" "ipc_inv s"
    "i < 16" "chan_wf i (s_channels s i)" using holds by (rule chan_holds_slot)
  obtain sc1 sc2 qs2 where sw: "sched_block (Some cur) (i_sched s) = Some (True, sc1)"
    "sched_dequeue sc1 = (Some n, sc2)"
    "sched_ok (sched_context_switch (Some cur) (Some n) sc2) qs2" "queued qs2 = ts"
    "s_current (sched_context_switch (Some cur) (Some n) sc2) = Some n"
    "\<forall>x. t_state (tcb (sched_context_switch (Some cur) (Some n) sc2) x) =
      (if x = n then PROCESS_STATE_RUNNING else if x = cur then PROCESS_STATE_BLOCKED
       else t_state (tcb (i_sched s) x))"
    "\<forall>x. t_priority (tcb (sched_context_switch (Some cur) (Some n) sc2) x) = t_priority (tcb (i_sched s) x)"
    by (rule block_and_switch [OF sc cur(2) nxt])
  let ?c = "(s_channels s i)\<lparr>c_blocked_sender := Some cur\<rparr>"
  let ?s = "(set_chan i ?c s)\<lparr>i_sched := sched_context_switch (Some cur) (Some n) sc2\<rparr>"
  have op: "open_chan h False s = Inr i" using open_chan_inv(1) [OF i(3)] i(1) by simp
  have send: "ipc_send h (Some m) s = Some (Switched n, ?s)"
    using op trysend_full [OF holds full] sw(1,2) cur(1)
    by (simp add: ipc_send_def ipc_send_iter_def sched_get_current_def set_chan_def)
  have "chan_holds h ?s q"
    by (rule chan_step(1) [OF i(1,3) _ _ _ sw(3) refl]) (use i chan_from_handle_Some [OF i(1)] in simp_all)
  moreover have "chan_from_handle h ?s = Some i"
    using i(1) by (subst chan_from_handle_cong [of ?s s]) simp_all
  ultimately show ?thesis
    using send sw by (intro that [of ?s i qs2]) simp_all
qed

lemma ipc_recv_waits:
  assumes holds: "chan_holds h s []" and sc: "sched_ok (i_sched s) qs"
    and cur: "s_current (i_sched s) = Some cur" "t_state (tcb (i_sched s) cur) = PROCESS_STATE_RUNNING"
    and nxt: "queued qs = n # ts"
  obtains s' qs' i where "ipc_recv h ty (Some dst) s = Some (Switched n, Some dst, s')" and "chan_holds h s' []"
    and "chan_from_handle h s' = Some i" and "c_blocked_receiver (s_channels s' i) = Some cur"
    and "sched_ok (i_sched s') qs'" and "queued qs' = ts" and "s_current (i_sched s') = Some n"
    and "\<forall>x. t_state (tcb (i_sched s') x) = (if x = n then PROCESS_STATE_RUNNING
           else if x = cur then PROCESS_STATE_BLOCKED else t_state (tcb (i_sched s) x))"
    and "\<forall>x. t_priority (tcb (i_sched s') x) = t_priority (tcb (i_sched s) x)"
proof -
  obtain i where i: "chan_from_handle h s = Some i" "chan_abs (s_channels s i) = []" "ipc_inv s"
    "i < 16" "chan_wf i (s_channels s i)" using holds by (rule chan_holds_slot)
  obtain sc1 sc2 qs2 where sw: "sched_block (Some cur) (i_sched s) = Some (True, sc1)"
    "sched_dequeue sc1 = (Some n, sc2)"
    "sched_ok (sched_context_switch (Some cur) (Some n) sc2) qs2" "queued qs2 = ts"
    "s_current (sched_context_switch (Some cur) (Some n) sc2) = Some n"
    "\<forall>x. t_state (tcb (sched_context_switch (Some cur) (Some n) sc2) x) =
      (if x = n then PROCESS_STATE_RUNNING else if x = cur then PROCESS_STATE_BLOCKED
       else t_state (tcb (i_sched s) x))"
    "\<forall>x. t_priority (tcb (sched_context_switch (Some cur) (Some n) sc2) x) = t_priority (tcb (i_sched s) x)"
    by (rule block_and_switch [OF sc cur(2) nxt])
  let ?c = "(s_channels s i)\<lparr>c_blocked_receiver := Some cur\<rparr>"
  let ?s = "(set_chan i ?c s)\<lparr>i_sched := sched_context_switch (Some cur) (Some n) sc2\<rparr>"
  have op: "open_chan h False s = Inr i" using open_chan_inv(1) [OF i(3)] i(1) by simp
  have recv: "ipc_recv h ty (Some dst) s = Some (Switched n, Some dst, ?s)"
    using op tryrecv_refuses(1) [OF holds refl] sw(1,2) cur(1)
    by (simp add: ipc_recv_def ipc_recv_iter_def sched_get_current_def set_chan_def)
  have "chan_holds h ?s []"
    by (rule chan_step(1) [OF i(1,3) _ _ _ sw(3) refl]) (use i chan_from_handle_Some [OF i(1)] in simp_all)
  moreover have "chan_from_handle h ?s = Some i"
    using i(1) by (subst chan_from_handle_cong [of ?s s]) simp_all
  ultimately show ?thesis
    using recv sw by (intro that [of ?s i qs2]) simp_all
qed

text \<open>A woken thread is READY and waits in the run queues.\<close>

lemma wake_queues:
  assumes "sched_ok sc qs" and "t_state (tcb sc t) = PROCESS_STATE_BLOCKED"
    and "unat (t_priority (tcb sc t)) < 8" and "length (queued qs) < 32"
  obtains sc' qs' where "wake (Some t) sc = Some sc'" and "sched_ok sc' qs'" and "t \<in> set (queued qs')"
    and "t_state (tcb sc' t) = PROCESS_STATE_READY"
proof -
  obtain sc' where sc': "sched_unblock (Some t) sc = Some (can_enqueue (make_ready t sc) qs t, sc')"
    "sched_ok sc' (enqueued (make_ready t sc) qs t)" "same_but_next (tcb (make_ready t sc)) (tcb sc')"
    by (rule sched_unblock_ok [OF assms(1,2)])
  have "t \<notin> set (queued qs)" using sched_ok_not_queued [OF assms(1)] assms(2) by simp
  with assms have can: "can_enqueue (make_ready t sc) qs t"
    by (simp add: can_enqueue_def make_ready_def set_tcb_def)
  have "t \<in> set (queued (enqueued (make_ready t sc) qs t))"
    using can assms(3) by (auto simp: enqueued_def Let_def set_queued in_bands make_ready_def set_tcb_def
        intro!: bexI [of _ "unat (t_priority (tcb sc t))"])
  with sc' show ?thesis
    using same_but_next_fields(1) [OF sc'(3), of t]
    by (intro that [of sc']) (auto simp: wake_def make_ready_def set_tcb_def)
qed

lemma queued_bound: "sched_ok s qs \<Longrightarrow> length (queued qs) \<le> 32"
  by (simp add: sched_ok_def sched_rep_def)

text \<open>A running thread 3 beside the two ready ones, and a channel that is full or empty.\<close>

definition example_running :: sched where
  "example_running = (set_tcb 3 ((tcb example_sched 3)\<lparr>t_state := PROCESS_STATE_RUNNING\<rparr>) example_sched)
     \<lparr>s_current := Some 3\<rparr>"

definition example_slot :: "u32 \<Rightarrow> ipc_sys" where
  "example_slot n = \<lparr>i_sched = example_running,
     s_channels = (\<lambda>_. example_chan)(0 := example_chan\<lparr>c_state := CHAN_OPEN, c_handle := 0x101,
       c_tail := n mod 8, c_count := n, c_ring := (\<lambda>_. example_msg 5)\<rparr>),
     s_next_generation = 2\<rparr>"

lemma example_running_ok: "sched_ok example_running example_lists"
  unfolding example_running_def sched_ok_fields
  by (rule sched_ok_set_unqueued [OF example_ok]) (simp add: example_queued)

lemma example_running_cur:
  "s_current example_running = Some 3" "t_state (tcb example_running 3) = PROCESS_STATE_RUNNING"
  "unat (t_priority (tcb example_running 3)) < 8"
  by (simp_all add: example_running_def set_tcb_def example_sched_def queue_append_blocks
      sched_init_def example_tcbs_def)

lemma example_slot_sched [simp]: "i_sched (example_slot n) = example_running"
  by (simp add: example_slot_def)

lemma example_slot_holds:
  assumes "unat n \<le> 8"
  shows "chan_holds 0x101 (example_slot n) (replicate (unat n) (example_msg 5))"
proof -
  have free: "chan_wf i example_chan" for i
    by (simp add: chan_wf_def ring_wf_def example_chan_def msg_ok_def)
  have "chan_wf 0 (s_channels (example_slot n) 0)"
    using assms by (simp add: chan_wf_def ring_wf_def example_slot_def example_chan_def unat_mod_distrib
        example_msg_ok)
  then have "ipc_inv (example_slot n)" using free by (auto simp: ipc_inv_def example_slot_def)
  moreover have "chan_from_handle 0x101 (example_slot n) = Some 0"
    by (simp add: chan_from_handle_def example_slot_def)
  moreover have "chan_abs (s_channels (example_slot n) 0) = replicate (unat n) (example_msg 5)"
    by (simp add: chan_abs_def example_slot_def map_replicate_const)
  moreover have "i_sched (example_slot n) = example_running" by (simp add: example_slot_def)
  ultimately show ?thesis
    using example_running_ok unfolding chan_holds_def ipc_ok_def by metis
qed

text \<open>
  C27. A sender that waits is not forgotten: on a full channel \<open>ipc_send\<close> suspends the running
  thread and switches to the first ready thread without touching the messages, and the next
  successful receive from the channel makes the sender READY and puts it into the run queues.
\<close>

theorem ipc_send_wakeup:
  assumes holds: "chan_holds h s (m0 # q)" and full: "length (m0 # q) = 8"
    and sc: "sched_ok (i_sched s) qs" and nxt: "queued qs = n # ts"
    and cur: "s_current (i_sched s) = Some cur" "t_state (tcb (i_sched s) cur) = PROCESS_STATE_RUNNING"
      "unat (t_priority (tcb (i_sched s) cur)) < 8"
    and dst: "msg_ok dst"
  shows "\<exists>s1 s2 qs2. ipc_send h (Some m) s = Some (Switched n, s1) \<and> chan_holds h s1 (m0 # q)
    \<and> t_state (tcb (i_sched s1) cur) = PROCESS_STATE_BLOCKED \<and> s_current (i_sched s1) = Some n
    \<and> ipc_tryrecv h IPC_MSG_TYPE_ANY (Some dst) s1 = Some (IPC_OK, Some m0, s2)
    \<and> sched_ok (i_sched s2) qs2 \<and> cur \<in> set (queued qs2)
    \<and> t_state (tcb (i_sched s2) cur) = PROCESS_STATE_READY"
proof -
  obtain s1 qs1 i where s1: "ipc_send h (Some m) s = Some (Switched n, s1)" "chan_holds h s1 (m0 # q)"
    "chan_from_handle h s1 = Some i" "c_blocked_sender (s_channels s1 i) = Some cur"
    "sched_ok (i_sched s1) qs1" "queued qs1 = ts" "s_current (i_sched s1) = Some n"
    and st: "\<forall>x. t_state (tcb (i_sched s1) x) = (if x = n then PROCESS_STATE_RUNNING
           else if x = cur then PROCESS_STATE_BLOCKED else t_state (tcb (i_sched s) x))"
    and pr: "\<forall>x. t_priority (tcb (i_sched s1) x) = t_priority (tcb (i_sched s) x)"
    by (rule ipc_send_waits [OF holds full sc cur(1,2) nxt])
  have "cur \<noteq> n" using sched_ok_not_queued [OF sc, of cur] cur(2) nxt by auto
  then have blocked: "t_state (tcb (i_sched s1) cur) = PROCESS_STATE_BLOCKED" using st by simp
  have "length (queued qs1) < 32" using queued_bound [OF sc] nxt s1(6) by simp
  then obtain sc' qs' where w: "wake (Some cur) (i_sched s1) = Some sc'" "sched_ok sc' qs'"
    "cur \<in> set (queued qs')" "t_state (tcb sc' cur) = PROCESS_STATE_READY"
    using wake_queues [OF s1(5) blocked] pr cur(3) by metis
  obtain s2 where "ipc_tryrecv h 0 (Some dst) s1 = Some (IPC_OK, Some m0, s2)"
    by (rule tryrecv_first [OF s1(2) dst, of 0]) simp
  moreover have "ipc_inv s1" "chan_abs (s_channels s1 i) = m0 # q"
    using s1(2,3) by (auto simp: chan_holds_def ipc_ok_def)
  ultimately have "i_sched s2 = sc'" using s1(3,4) w(1) by (auto simp: tryrecv_eval)
  with s1 w blocked \<open>ipc_tryrecv h 0 (Some dst) s1 = _\<close> show ?thesis by blast
qed

theorem ipc_send_wakeup_witness:
  "\<exists>s1. ipc_send 0x101 (Some (example_msg 9)) (example_slot 8) = Some (Switched 1, s1)
     \<and> t_state (tcb (i_sched s1) 3) = PROCESS_STATE_BLOCKED"
proof -
  have "replicate 8 (example_msg 5) = example_msg 5 # replicate 7 (example_msg 5)"
    using replicate_Suc [of 7 "example_msg 5"] by simp
  then have "chan_holds 0x101 (example_slot 8) (example_msg 5 # replicate 7 (example_msg 5))"
    using example_slot_holds [of 8] by simp
  from ipc_send_wakeup [OF this _ _ example_queued, of 3 zero_msg "example_msg 9"]
  show ?thesis using example_running_ok example_running_cur zero_msg_ok by simp blast
qed

text \<open>
  C28. A receiver that waits is not forgotten: on an empty channel \<open>ipc_recv\<close> suspends the
  running thread and switches to the first ready thread, and the next send to the channel
  makes the receiver READY, puts it into the run queues and leaves its message in the channel.
\<close>

theorem ipc_recv_wakeup:
  assumes holds: "chan_holds h s []"
    and sc: "sched_ok (i_sched s) qs" and nxt: "queued qs = n # ts"
    and cur: "s_current (i_sched s) = Some cur" "t_state (tcb (i_sched s) cur) = PROCESS_STATE_RUNNING"
      "unat (t_priority (tcb (i_sched s) cur)) < 8"
    and m: "msg_ok m"
  shows "\<exists>s1 s2 qs2. ipc_recv h ty (Some dst) s = Some (Switched n, Some dst, s1)
    \<and> t_state (tcb (i_sched s1) cur) = PROCESS_STATE_BLOCKED \<and> s_current (i_sched s1) = Some n
    \<and> ipc_trysend h (Some m) s1 = Some (IPC_OK, s2) \<and> chan_holds h s2 [m]
    \<and> sched_ok (i_sched s2) qs2 \<and> cur \<in> set (queued qs2)
    \<and> t_state (tcb (i_sched s2) cur) = PROCESS_STATE_READY"
proof -
  obtain s1 qs1 i where s1: "ipc_recv h ty (Some dst) s = Some (Switched n, Some dst, s1)" "chan_holds h s1 []"
    "chan_from_handle h s1 = Some i" "c_blocked_receiver (s_channels s1 i) = Some cur"
    "sched_ok (i_sched s1) qs1" "queued qs1 = ts" "s_current (i_sched s1) = Some n"
    and st: "\<forall>x. t_state (tcb (i_sched s1) x) = (if x = n then PROCESS_STATE_RUNNING
           else if x = cur then PROCESS_STATE_BLOCKED else t_state (tcb (i_sched s) x))"
    and pr: "\<forall>x. t_priority (tcb (i_sched s1) x) = t_priority (tcb (i_sched s) x)"
    by (rule ipc_recv_waits [OF holds sc cur(1,2) nxt])
  have "cur \<noteq> n" using sched_ok_not_queued [OF sc, of cur] cur(2) nxt by auto
  then have blocked: "t_state (tcb (i_sched s1) cur) = PROCESS_STATE_BLOCKED" using st by simp
  have "length (queued qs1) < 32" using queued_bound [OF sc] nxt s1(6) by simp
  then obtain sc' qs' where w: "wake (Some cur) (i_sched s1) = Some sc'" "sched_ok sc' qs'"
    "cur \<in> set (queued qs')" "t_state (tcb sc' cur) = PROCESS_STATE_READY"
    using wake_queues [OF s1(5) blocked] pr cur(3) by metis
  obtain s2 where s2: "ipc_trysend h (Some m) s1 = Some (IPC_OK, s2)" "chan_holds h s2 ([] @ [m])"
    by (rule trysend_room [OF s1(2) m]) simp
  moreover have "ipc_inv s1" "unat (c_count (s_channels s1 i)) \<noteq> 8"
    using s1(2,3) length_chan_abs [of "s_channels s1 i"] by (auto simp: chan_holds_def ipc_ok_def)
  ultimately have "i_sched s2 = sc'" using s1(3,4) w(1) by (auto simp: trysend_eval)
  with s1 s2 w blocked show ?thesis by auto
qed

theorem ipc_recv_wakeup_witness:
  "\<exists>s1. ipc_recv 0x101 0 (Some zero_msg) (example_slot 0) = Some (Switched 1, Some zero_msg, s1)
     \<and> t_state (tcb (i_sched s1) 3) = PROCESS_STATE_BLOCKED"
proof -
  have "chan_holds 0x101 (example_slot 0) []" using example_slot_holds [of 0] by simp
  from ipc_recv_wakeup [OF this _ example_queued, of 3 "example_msg 9" 0 zero_msg]
  show ?thesis using example_running_ok example_running_cur example_msg_ok by simp blast
qed

text \<open>
  The whole of a blocking call: passes through the loop, separated by whatever the other
  threads do (\<open>env\<close>) until the scheduler switches back.
\<close>

inductive ipc_send_run ::
  "(ipc_sys \<Rightarrow> ipc_sys \<Rightarrow> bool) \<Rightarrow> ipc_handle_t \<Rightarrow> ipc_message_t option \<Rightarrow> nat \<Rightarrow> ipc_sys
     \<Rightarrow> ipc_result_t \<Rightarrow> ipc_sys \<Rightarrow> bool" for env h msg i where
  send_returns: "ipc_send_iter h msg i s = Some (Returned r, s') \<Longrightarrow> ipc_send_run env h msg i s r s'"
| send_waits: "ipc_send_iter h msg i s = Some (Switched n, s1) \<Longrightarrow> env s1 s2
    \<Longrightarrow> ipc_send_run env h msg i s2 r s' \<Longrightarrow> ipc_send_run env h msg i s r s'"

lemma send_iter_returned:
  assumes "ipc_send_iter h msg i s = Some (Returned r, s')"
  shows "r = IPC_ERR_AGAIN \<or> r \<noteq> IPC_ERR_FULL \<and> ipc_trysend h msg s = Some (r, s')"
  using assms by (auto simp: ipc_send_iter_def Let_def split: option.splits if_splits prod.splits Option.bind_splits)

text \<open>
  However often \<open>ipc_send\<close> has to wait and whatever the other threads do meanwhile, it
  never reports a full channel, and when it reports success its message was appended in a
  single step, by the \<open>ipc_trysend\<close> of its last pass.
\<close>

theorem ipc_send_result:
  assumes "ipc_send_run env h msg i s r s'"
  shows "r \<noteq> IPC_ERR_FULL \<and> (r = IPC_OK \<longrightarrow> (\<exists>s0. ipc_trysend h msg s0 = Some (IPC_OK, s')))"
  using assms by (induction rule: ipc_send_run.induct) (auto dest!: send_iter_returned)

theorem ipc_send_result_witness:
  "\<exists>s'. ipc_send_run (\<lambda>_ _. False) 0x101 (Some (example_msg 9)) 0 (example_slot 0) IPC_OK s'
     \<and> (\<exists>s0. ipc_trysend 0x101 (Some (example_msg 9)) s0 = Some (IPC_OK, s'))"
proof -
  have "chan_holds 0x101 (example_slot 0) []" using example_slot_holds [of 0] by simp
  then obtain s' where "ipc_trysend 0x101 (Some (example_msg 9)) (example_slot 0) = Some (IPC_OK, s')"
    by (rule trysend_room [OF _ example_msg_ok]) simp
  then have "ipc_send_run (\<lambda>_ _. False) 0x101 (Some (example_msg 9)) 0 (example_slot 0) IPC_OK s'"
    by (intro send_returns) (simp add: ipc_send_iter_def)
  with ipc_send_result [OF this] show ?thesis by blast
qed

subsection \<open>When there is no thread to switch to\<close>


text \<open>
  What follows from it: when the thread then changes its priority and yields, it is put into
  the band of the new priority as well and is in two run queues at once.
\<close>

lemma queued_thread_linked_twice:
  assumes i: "q_head (s_queues sc i) = Some t" and j: "q_head (s_queues sc j) = None" "q_tail (s_queues sc j) = None"
    and t: "t_state (tcb sc t) = PROCESS_STATE_RUNNING" "s_total_ready sc = 1" and p: "unat p = j" "j < 8" "i \<noteq> j"
  shows "\<exists>sc'. sched_yield (Some t) (set_tcb t ((tcb sc t)\<lparr>t_priority := p\<rparr>) sc) = Some (True, sc')
    \<and> q_head (s_queues sc' i) = Some t \<and> q_head (s_queues sc' j) = Some t"
proof -
  have "\<not> 8 \<le> p" "\<not> (32 :: u32) \<le> 1" using p by (simp_all add: word_le_nat_alt)
  then show ?thesis
    using assms
    by (simp add: sched_yield_def sched_enqueue_def set_tcb_def Let_def queue_contains_def contains_walk.simps queue_append_def)
qed




end
