(* ===== verification/Irq_Router.thy ===== *)
theory Irq_Router
  imports Ipc
begin

text \<open>
  The interrupt router of \<^verbatim>\<open>src/kernel/irq/irq_router.c\<close>: a table of sixteen
  subscriptions, each forwarding one interrupt number to an IPC channel. A subscription
  handle is a signed 32-bit integer and is modelled by its value. \<open>cpu_flags\<close> is the
  processor's flags register (RFLAGS, or DAIF on AArch64), which the critical sections save,
  change and restore.
\<close>

subsection \<open>Data\<close>

record irq_subscription_t =
  sub_handle :: int
  sub_irq :: u32
  sub_channel :: ipc_handle_t
  sub_sequence :: u64

record irq_sys =
  r_ipc :: ipc_sys
  s_subscriptions :: "nat \<Rightarrow> irq_subscription_t"
  r_next_generation :: u32
  cpu_flags :: u64

abbreviation (input) IRQ_ROUTER_MAX_SUBSCRIPTIONS :: nat where "IRQ_ROUTER_MAX_SUBSCRIPTIONS \<equiv> 16"
abbreviation (input) IRQ_ROUTER_STATUS_OK :: int where "IRQ_ROUTER_STATUS_OK \<equiv> 0"
abbreviation (input) IRQ_ROUTER_STATUS_INVALID :: int where "IRQ_ROUTER_STATUS_INVALID \<equiv> - 1"
abbreviation (input) IRQ_ROUTER_TIMER_IRQ :: u32 where "IRQ_ROUTER_TIMER_IRQ \<equiv> 0"
abbreviation (input) IRQ_ROUTER_MESSAGE_TYPE :: u32 where
  "IRQ_ROUTER_MESSAGE_TYPE \<equiv> IPC_MSG_TYPE_USER + 0x100"
abbreviation (input) IRQ_ROUTER_MESSAGE_PAYLOAD_BYTES :: u32 where
  "IRQ_ROUTER_MESSAGE_PAYLOAD_BYTES \<equiv> 16"

definition set_sub :: "nat \<Rightarrow> irq_subscription_t \<Rightarrow> irq_sys \<Rightarrow> irq_sys" where
  "set_sub i b s = s\<lparr>s_subscriptions := (s_subscriptions s)(i := b)\<rparr>"

subsection \<open>Critical sections\<close>

text \<open>
  On x86_64 bit 9 of RFLAGS enables interrupts and \<open>cli\<close>/\<open>sti\<close> clear and set it; on AArch64
  bit 7 of DAIF masks them and \<open>daifset\<close>/\<open>daifclr\<close> set and clear it.
\<close>

definition irq_router_enter_critical :: "arch \<Rightarrow> irq_sys \<Rightarrow> u64 \<times> irq_sys" where
  "irq_router_enter_critical ar s =
     (case ar of
        X86_64 \<Rightarrow> (cpu_flags s, s\<lparr>cpu_flags := unset_bit 9 (cpu_flags s)\<rparr>)
      | AARCH64 \<Rightarrow> (cpu_flags s, s\<lparr>cpu_flags := Bit_Operations.set_bit 7 (cpu_flags s)\<rparr>)
      | OTHER_ARCH \<Rightarrow> (0, s))"

definition irq_router_leave_critical :: "arch \<Rightarrow> u64 \<Rightarrow> irq_sys \<Rightarrow> irq_sys" where
  "irq_router_leave_critical ar st s =
     (case ar of
        X86_64 \<Rightarrow>
          if st AND push_bit 9 1 \<noteq> 0 then s\<lparr>cpu_flags := Bit_Operations.set_bit 9 (cpu_flags s)\<rparr>
          else s\<lparr>cpu_flags := unset_bit 9 (cpu_flags s)\<rparr>
      | AARCH64 \<Rightarrow>
          if st AND push_bit 7 1 = 0 then s\<lparr>cpu_flags := unset_bit 7 (cpu_flags s)\<rparr>
          else s\<lparr>cpu_flags := Bit_Operations.set_bit 7 (cpu_flags s)\<rparr>
      | OTHER_ARCH \<Rightarrow> s)"

subsection \<open>Operations\<close>

definition make_subscription_handle :: "u32 \<Rightarrow> irq_sys \<Rightarrow> int \<times> irq_sys" where
  "make_subscription_handle index s =
     (let generation = r_next_generation s;
          g1 = generation + 1
      in (sint (gen_handle generation index),
          s\<lparr>r_next_generation := (if g1 = 0 then 1 else g1)\<rparr>))"

fun subscribe_loop :: "nat list \<Rightarrow> u32 \<Rightarrow> ipc_handle_t \<Rightarrow> irq_sys \<Rightarrow> int \<times> irq_sys" where
  "subscribe_loop [] irq ch s = (IRQ_ROUTER_STATUS_INVALID, s)"
| "subscribe_loop (i # is) irq ch s =
     (if sub_handle (s_subscriptions s i) = 0 then
        (let (handle, s1) = make_subscription_handle (of_nat i) s
         in (handle, set_sub i \<lparr>sub_handle = handle, sub_irq = irq, sub_channel = ch, sub_sequence = 0\<rparr> s1))
      else subscribe_loop is irq ch s)"

definition irq_router_subscribe :: "arch \<Rightarrow> u32 \<Rightarrow> ipc_handle_t \<Rightarrow> irq_sys \<Rightarrow> int \<times> irq_sys" where
  "irq_router_subscribe ar irq ch s =
     (if ch = IPC_HANDLE_INVALID \<or> \<not> ipc_channel_is_open ch (r_ipc s) then (IRQ_ROUTER_STATUS_INVALID, s)
      else
        (let (st, s1) = irq_router_enter_critical ar s;
             (r, s2) = subscribe_loop [0..<IRQ_ROUTER_MAX_SUBSCRIPTIONS] irq ch s1
         in (r, irq_router_leave_critical ar st s2)))"

fun unsubscribe_loop :: "nat list \<Rightarrow> int \<Rightarrow> irq_sys \<Rightarrow> int \<times> irq_sys" where
  "unsubscribe_loop [] h s = (IRQ_ROUTER_STATUS_INVALID, s)"
| "unsubscribe_loop (i # is) h s =
     (if sub_handle (s_subscriptions s i) = h then
        (IRQ_ROUTER_STATUS_OK,
         set_sub i \<lparr>sub_handle = 0, sub_irq = 0, sub_channel = IPC_HANDLE_INVALID, sub_sequence = 0\<rparr> s)
      else unsubscribe_loop is h s)"

definition irq_router_unsubscribe :: "arch \<Rightarrow> int \<Rightarrow> irq_sys \<Rightarrow> int \<times> irq_sys" where
  "irq_router_unsubscribe ar h s =
     (if h \<le> 0 then (IRQ_ROUTER_STATUS_INVALID, s)
      else
        (let (st, s1) = irq_router_enter_critical ar s;
             (r, s2) = unsubscribe_loop [0..<IRQ_ROUTER_MAX_SUBSCRIPTIONS] h s1
         in (r, irq_router_leave_critical ar st s2)))"

definition irq_message :: "u32 \<Rightarrow> u64 \<Rightarrow> ipc_message_t" where
  "irq_message irq sequence =
     (let message = \<lparr>m_type = 0, m_payload_len = 0, m_payload = replicate IPC_PAYLOAD_WORDS 0\<rparr>
      in message\<lparr>m_type := IRQ_ROUTER_MESSAGE_TYPE, m_payload_len := IRQ_ROUTER_MESSAGE_PAYLOAD_BYTES,
           m_payload := (m_payload message)[0 := ucast irq, 1 := sequence]\<rparr>)"

fun publish_loop :: "nat list \<Rightarrow> u32 \<Rightarrow> irq_sys \<Rightarrow> irq_sys option" where
  "publish_loop [] irq s = Some s"
| "publish_loop (i # is) irq s =
     (let b = s_subscriptions s i
      in if sub_handle b \<le> 0 \<or> sub_irq b \<noteq> irq then publish_loop is irq s
         else
           (let b1 = b\<lparr>sub_sequence := sub_sequence b + 1\<rparr>
            in do {
                 (_, c) \<leftarrow> ipc_trysend (sub_channel b1) (Some (irq_message irq (sub_sequence b1))) (r_ipc s);
                 publish_loop is irq ((set_sub i b1 s)\<lparr>r_ipc := c\<rparr>)
               }))"

definition irq_router_publish :: "u32 \<Rightarrow> irq_sys \<Rightarrow> irq_sys option" where
  "irq_router_publish irq s = publish_loop [0..<IRQ_ROUTER_MAX_SUBSCRIPTIONS] irq s"

definition irq_router_subscription_count :: "arch \<Rightarrow> u32 \<Rightarrow> irq_sys \<Rightarrow> u32 \<times> irq_sys" where
  "irq_router_subscription_count ar irq s =
     (let (st, s1) = irq_router_enter_critical ar s;
          n = fold (\<lambda>i count. if sub_handle (s_subscriptions s1 i) > 0 \<and> sub_irq (s_subscriptions s1 i) = irq
                     then count + 1 else count) [0..<IRQ_ROUTER_MAX_SUBSCRIPTIONS] 0
      in (n, irq_router_leave_critical ar st s1))"

subsection \<open>Critical sections restore the interrupt state\<close>

lemma and_bit_9: "(f :: u64) AND 512 = 0 \<longleftrightarrow> \<not> bit f 9"
  using and_exp_eq_0_iff_not_bit [of f 9] by simp

lemma and_bit_7: "(f :: u64) AND 128 = 0 \<longleftrightarrow> \<not> bit f 7"
  using and_exp_eq_0_iff_not_bit [of f 7] by simp

lemma set_unset_bit:
  "bit (f :: u64) n \<Longrightarrow> Bit_Operations.set_bit n (unset_bit n f) = f"
  "\<not> bit f n \<Longrightarrow> unset_bit n (unset_bit n f) = f"
  "bit f n \<Longrightarrow> Bit_Operations.set_bit n (Bit_Operations.set_bit n f) = f"
  "\<not> bit f n \<Longrightarrow> unset_bit n (Bit_Operations.set_bit n f) = f"
  by (rule bit_word_eqI; auto simp: bit_simps)+

lemma enter_critical_frame:
  "irq_router_enter_critical ar s = (st, s1) \<Longrightarrow> s1 = s\<lparr>cpu_flags := cpu_flags s1\<rparr>"
  by (auto simp: irq_router_enter_critical_def split: arch.splits)

lemma leave_critical:
  assumes "irq_router_enter_critical ar s = (st, s1)" and "cpu_flags s2 = cpu_flags s1"
  shows "irq_router_leave_critical ar st s2 = s2\<lparr>cpu_flags := cpu_flags s\<rparr>"
proof (cases ar)
  case X86_64
  with assms show ?thesis
    by (cases "bit (cpu_flags s) 9")
      (auto simp: irq_router_enter_critical_def irq_router_leave_critical_def and_bit_9 set_unset_bit)
next
  case AARCH64
  with assms show ?thesis
    by (cases "bit (cpu_flags s) 7")
      (auto simp: irq_router_enter_critical_def irq_router_leave_critical_def and_bit_7 set_unset_bit)
next
  case OTHER_ARCH
  with assms show ?thesis
    by (auto simp: irq_router_enter_critical_def irq_router_leave_critical_def)
qed

lemma subscribe_loop_frame:
  "subscribe_loop is irq ch s = (r, s') \<Longrightarrow> cpu_flags s' = cpu_flags s \<and> r_ipc s' = r_ipc s"
  by (induction "is") (auto simp: make_subscription_handle_def set_sub_def Let_def split: if_splits)

lemma unsubscribe_loop_frame:
  "unsubscribe_loop is h s = (r, s') \<Longrightarrow> cpu_flags s' = cpu_flags s \<and> r_ipc s' = r_ipc s"
  by (induction "is") (auto simp: set_sub_def split: if_splits)

text \<open>Outside the processor flags, the operations are their loops.\<close>

lemma subscribe_eval:
  assumes "ch \<noteq> 0" and "ipc_channel_is_open ch (r_ipc s)"
    and "irq_router_enter_critical ar s = (st, s1)"
    and "subscribe_loop [0..<16] irq ch s1 = (r, s2)"
  shows "irq_router_subscribe ar irq ch s = (r, s2\<lparr>cpu_flags := cpu_flags s\<rparr>)"
  using assms leave_critical [OF assms(3)] subscribe_loop_frame [OF assms(4)]
  by (simp add: irq_router_subscribe_def del: upt_rec_numeral)

lemma unsubscribe_eval:
  assumes "0 < h" and "irq_router_enter_critical ar s = (st, s1)"
    and "unsubscribe_loop [0..<16] h s1 = (r, s2)"
  shows "irq_router_unsubscribe ar h s = (r, s2\<lparr>cpu_flags := cpu_flags s\<rparr>)"
  using assms leave_critical [OF assms(2)] unsubscribe_loop_frame [OF assms(3)]
  by (simp add: irq_router_unsubscribe_def del: upt_rec_numeral)

text \<open>
  The router leaves interrupts as it found them: \<open>irq_router_subscribe\<close>,
  \<open>irq_router_unsubscribe\<close> and \<open>irq_router_subscription_count\<close> return with the processor's
  interrupt flag as it was at the call, on every path and on either architecture.
\<close>

theorem irq_router_flags_restored:
  "cpu_flags (snd (irq_router_subscribe ar irq ch s)) = cpu_flags s
   \<and> cpu_flags (snd (irq_router_unsubscribe ar h s)) = cpu_flags s
   \<and> cpu_flags (snd (irq_router_subscription_count ar irq s)) = cpu_flags s"
proof -
  obtain st s1 where e: "irq_router_enter_critical ar s = (st, s1)" by fastforce
  obtain r s2 where u: "subscribe_loop [0..<16] irq ch s1 = (r, s2)" by fastforce
  obtain r' s3 where v: "unsubscribe_loop [0..<16] h s1 = (r', s3)" by fastforce
  have "cpu_flags (snd (irq_router_subscribe ar irq ch s)) = cpu_flags s"
    using subscribe_eval [OF _ _ e u] by (auto simp: irq_router_subscribe_def [of ar irq ch])
  moreover have "cpu_flags (snd (irq_router_unsubscribe ar h s)) = cpu_flags s"
    using unsubscribe_eval [OF _ e v] by (cases "0 < h") (auto simp: irq_router_unsubscribe_def)
  moreover have "cpu_flags (snd (irq_router_subscription_count ar irq s)) = cpu_flags s"
    using leave_critical [OF e refl] e by (simp add: irq_router_subscription_count_def del: upt_rec_numeral)
  ultimately show ?thesis by blast
qed

subsection \<open>Publishing\<close>

lemma irq_message_ok: "msg_ok (irq_message irq n)"
  by (simp add: irq_message_def msg_ok_def Let_def)

text \<open>What one send does to every channel: it appends while there is room.\<close>

lemma trysend_step:
  assumes ok: "ipc_ok c" and m: "msg_ok m"
  obtains r c' where "ipc_trysend h (Some m) c = Some (r, c')" and "ipc_ok c'"
    and "\<And>g q. chan_holds g c q \<Longrightarrow> chan_holds g c' (q @ (if g = h \<and> length q < 8 then [m] else []))"
proof (cases "\<exists>q. chan_holds h c q \<and> length q < 8")
  case True
  then obtain q where q: "chan_holds h c q" "length q < 8" by blast
  obtain c' where c': "ipc_trysend h (Some m) c = Some (0, c')" "chan_holds h c' (q @ [m])"
    "others_same h c c'" using trysend_room [OF q(1) m q(2)] .
  show ?thesis
  proof (rule that [OF c'(1)])
    show "ipc_ok c'" using c'(2) by (simp add: chan_holds_def)
    fix g q' assume h': "chan_holds g c q'"
    show "chan_holds g c' (q' @ (if g = h \<and> length q' < 8 then [m] else []))"
    proof (cases "g = h")
      case True
      then have "q' = q" using h' q(1) by (auto simp: chan_holds_def)
      with c'(2) q(2) True show ?thesis by simp
    next
      case False
      with c'(3) h' show ?thesis by (simp add: others_same_def)
    qed
  qed
next
  case False
  have "ipc_trysend h (Some m) c = Some (if ipc_channel_is_open h c then - 2 else - 1, c)"
  proof (cases "ipc_channel_is_open h c")
    case True
    then obtain q where "chan_holds h c q" using ok by (auto simp: is_open_holds)
    then show ?thesis
      using False True chan_holds_bound [of h c q] trysend_full [of h c q] by fastforce
  qed (simp add: trysend_not_open [OF ok])
  then show ?thesis using ok False by (intro that) auto
qed

definition sub_matches :: "u32 \<Rightarrow> irq_subscription_t \<Rightarrow> bool" where
  "sub_matches irq b \<longleftrightarrow> 0 < sub_handle b \<and> sub_irq b = irq"

text \<open>The messages an interrupt sends to channel \<open>g\<close>, in the order of the table.\<close>

definition irq_msgs :: "ipc_handle_t \<Rightarrow> nat list \<Rightarrow> u32 \<Rightarrow> irq_sys \<Rightarrow> ipc_message_t list" where
  "irq_msgs g is irq s =
     map (\<lambda>i. irq_message irq (sub_sequence (s_subscriptions s i) + 1))
       (filter (\<lambda>i. sub_matches irq (s_subscriptions s i) \<and> sub_channel (s_subscriptions s i) = g) is)"

lemma irq_msgs_cong:
  "(\<And>i. i \<in> set is \<Longrightarrow> s_subscriptions s' i = s_subscriptions s i) \<Longrightarrow> irq_msgs g is irq s' = irq_msgs g is irq s"
  by (simp add: irq_msgs_def cong: filter_cong)

definition bumped :: "u32 \<Rightarrow> irq_subscription_t \<Rightarrow> irq_subscription_t" where
  "bumped irq b = (if sub_matches irq b then b\<lparr>sub_sequence := sub_sequence b + 1\<rparr> else b)"

lemma take_room:
  "(q @ (if b \<and> length q < 8 then [m] else [])) @ take (8 - length (q @ (if b \<and> length q < 8 then [m] else []))) ms
     = q @ take (8 - length q) ((if b then [m] else []) @ ms)"
  by (simp add: take_Cons')

lemma publish_loop_rep:
  assumes "ipc_ok (r_ipc s)" and "distinct is"
  shows "\<exists>s'. publish_loop is irq s = Some s' \<and> ipc_ok (r_ipc s')
    \<and> (\<forall>i. s_subscriptions s' i = (if i \<in> set is then bumped irq (s_subscriptions s i) else s_subscriptions s i))
    \<and> (\<forall>g q. chan_holds g (r_ipc s) q \<longrightarrow>
         chan_holds g (r_ipc s') (q @ take (8 - length q) (irq_msgs g is irq s)))"
  using assms
proof (induction "is" arbitrary: s)
  case Nil
  then show ?case by (simp add: irq_msgs_def)
next
  case (Cons i "is")
  let ?b = "s_subscriptions s i"
  show ?case
  proof (cases "sub_matches irq ?b")
    case False
    then have step: "publish_loop (i # is) irq s = publish_loop is irq s"
      by (auto simp: sub_matches_def Let_def)
    have "irq_msgs g (i # is) irq s = irq_msgs g is irq s" for g using False by (simp add: irq_msgs_def)
    with Cons.IH [OF Cons.prems(1)] Cons.prems(2) False show ?thesis
      unfolding step by (auto simp: bumped_def)
  next
    case True
    let ?b1 = "?b\<lparr>sub_sequence := sub_sequence ?b + 1\<rparr>"
    let ?m = "irq_message irq (sub_sequence ?b + 1)"
    obtain r c where c: "ipc_trysend (sub_channel ?b) (Some ?m) (r_ipc s) = Some (r, c)" "ipc_ok c"
      "\<And>g q. chan_holds g (r_ipc s) q \<Longrightarrow>
         chan_holds g c (q @ (if g = sub_channel ?b \<and> length q < 8 then [?m] else []))"
      using trysend_step [OF Cons.prems(1) irq_message_ok] by blast
    let ?s = "(set_sub i ?b1 s)\<lparr>r_ipc := c\<rparr>"
    have step: "publish_loop (i # is) irq s = publish_loop is irq ?s"
      using True c(1) by (auto simp: sub_matches_def Let_def)
    have subs: "s_subscriptions ?s = (s_subscriptions s)(i := ?b1)" by (simp add: set_sub_def)
    have tail: "irq_msgs g is irq ?s = irq_msgs g is irq s" for g
      using Cons.prems(2) by (intro irq_msgs_cong) (auto simp: subs)
    have head: "irq_msgs g (i # is) irq s = (if g = sub_channel ?b then [?m] else []) @ irq_msgs g is irq s" for g
      using True by (auto simp: irq_msgs_def)
    obtain s' where s': "publish_loop is irq ?s = Some s'" "ipc_ok (r_ipc s')"
      "\<forall>j. s_subscriptions s' j = (if j \<in> set is then bumped irq (s_subscriptions ?s j) else s_subscriptions ?s j)"
      "\<forall>g q. chan_holds g c q \<longrightarrow> chan_holds g (r_ipc s') (q @ take (8 - length q) (irq_msgs g is irq s))"
      using Cons.IH [of ?s] c(2) Cons.prems(2) by (auto simp: tail)
    have "chan_holds g (r_ipc s') (q @ take (8 - length q) (irq_msgs g (i # is) irq s))"
      if q: "chan_holds g (r_ipc s) q" for g q
      using s'(4) [rule_format, OF c(3) [OF q]] unfolding head take_room .
    moreover have "s_subscriptions s' j =
        (if j \<in> set (i # is) then bumped irq (s_subscriptions s j) else s_subscriptions s j)" for j
      using s'(3) Cons.prems(2) True by (auto simp: subs bumped_def)
    ultimately show ?thesis using s'(1,2) unfolding step by blast
  qed
qed

text \<open>
  C17. Publishing an interrupt always returns and delivers it to every matching subscription:
  each channel receives, behind the messages it holds and in the order of the table, one
  message per subscription, with the interrupt number and the subscription's next sequence
  number, until the channel is full. Sequence numbers advance even for a message that was
  dropped, so a receiver can see the loss; channels without a subscription keep their
  messages.
\<close>

theorem irq_publish_delivers:
  assumes "ipc_ok (r_ipc s)"
  shows "\<exists>s'. irq_router_publish irq s = Some s' \<and> ipc_ok (r_ipc s')
    \<and> (\<forall>i < 16. s_subscriptions s' i =
         (if sub_matches irq (s_subscriptions s i)
          then (s_subscriptions s i)\<lparr>sub_sequence := sub_sequence (s_subscriptions s i) + 1\<rparr>
          else s_subscriptions s i))
    \<and> (\<forall>g q. chan_holds g (r_ipc s) q \<longrightarrow>
         chan_holds g (r_ipc s') (q @ take (8 - length q) (irq_msgs g [0..<16] irq s)))"
proof -
  obtain s' where "irq_router_publish irq s = Some s'" "ipc_ok (r_ipc s')"
    "\<forall>i. s_subscriptions s' i =
       (if i \<in> set [0..<16] then bumped irq (s_subscriptions s i) else s_subscriptions s i)"
    "\<forall>g q. chan_holds g (r_ipc s) q \<longrightarrow>
       chan_holds g (r_ipc s') (q @ take (8 - length q) (irq_msgs g [0..<16] irq s))"
    using publish_loop_rep [OF assms distinct_upt, of 0 16 irq] unfolding irq_router_publish_def by blast
  then show ?thesis by (intro exI [of _ s']) (simp add: bumped_def del: upt_rec_numeral)
qed

definition sub_blank :: irq_subscription_t where
  "sub_blank = \<lparr>sub_handle = 0, sub_irq = 0, sub_channel = 0, sub_sequence = 0\<rparr>"

lemma set_sub_simps [simp]:
  "s_subscriptions (set_sub i b s) = (s_subscriptions s)(i := b)"
  "r_next_generation (set_sub i b s) = r_next_generation s" "r_ipc (set_sub i b s) = r_ipc s"
  by (simp_all add: set_sub_def)

definition example_irq :: irq_sys where
  "example_irq = \<lparr>r_ipc = example_slot 0, s_subscriptions = (\<lambda>_. sub_blank), r_next_generation = 1,
     cpu_flags = 512\<rparr>"

lemma example_irq_ok: "chan_holds 0x101 (r_ipc example_irq) []" "ipc_ok (r_ipc example_irq)"
  using example_slot_holds [of 0] by (simp_all add: example_irq_def chan_holds_def)

definition example_subscribed :: irq_sys where
  "example_subscribed = set_sub 0 \<lparr>sub_handle = 257, sub_irq = 0, sub_channel = 0x101, sub_sequence = 6\<rparr> example_irq"

theorem irq_publish_delivers_witness:
  "\<exists>s'. irq_router_publish 0 example_subscribed = Some s' \<and> chan_holds 0x101 (r_ipc s') [irq_message 0 7]"
proof -
  have up: "[0..<16::nat] = 0 # [1..<16]" by (simp add: upt_conv_Cons)
  have "irq_msgs 0x101 [0..<16] 0 example_subscribed = [irq_message 0 7]"
    unfolding up by (simp add: irq_msgs_def sub_matches_def example_subscribed_def example_irq_def
        sub_blank_def filter_empty_conv del: upt_rec_numeral)
  moreover have "r_ipc example_subscribed = r_ipc example_irq" by (simp add: example_subscribed_def)
  ultimately show ?thesis
    using irq_publish_delivers [of example_subscribed 0] example_irq_ok by fastforce
qed

subsection \<open>Subscription handles\<close>

definition live_subs :: "irq_sys \<Rightarrow> int set" where
  "live_subs s = {sub_handle (s_subscriptions s i) | i. i < 16 \<and> sub_handle (s_subscriptions s i) \<noteq> 0}"

definition sub_ok :: "nat \<Rightarrow> irq_subscription_t \<Rightarrow> bool" where
  "sub_ok i b \<longleftrightarrow> sub_handle b = 0 \<or> 0 < sub_handle b \<and> nat (sub_handle b) mod 256 = i + 1"

definition sub_handles :: "nat \<Rightarrow> int set \<Rightarrow> int set \<Rightarrow> irq_sys \<Rightarrow> bool" where
  "sub_handles n I L s \<longleftrightarrow> (\<forall>i < 16. sub_ok i (s_subscriptions s i)) \<and> L = live_subs s \<and> live_subs s \<subseteq> I
     \<and> (\<forall>h \<in> I. 0 < h \<and> nat h div 256 < unat (r_next_generation s))
     \<and> unat (r_next_generation s) + n < 2 ^ 23"

definition irq_subscribed :: "int \<Rightarrow> irq_sys \<Rightarrow> bool" where
  "irq_subscribed h s \<longleftrightarrow> (\<exists>i < 16. sub_handle (s_subscriptions s i) = h \<and> h \<noteq> 0)"

definition subscribe_opt :: "arch \<Rightarrow> u32 \<times> ipc_handle_t \<Rightarrow> irq_sys \<Rightarrow> int option \<times> irq_sys" where
  "subscribe_opt ar x s =
     (case irq_router_subscribe ar (fst x) (snd x) s of (h, s') \<Rightarrow> (if h \<le> 0 then None else Some h, s'))"

definition unsubscribe_ok :: "arch \<Rightarrow> int \<Rightarrow> irq_sys \<Rightarrow> bool \<times> irq_sys" where
  "unsubscribe_ok ar h s = (case irq_router_unsubscribe ar h s of (r, s') \<Rightarrow> (r = IRQ_ROUTER_STATUS_OK, s'))"

lemma sub_handles_flags [simp]: "sub_handles n I L (s\<lparr>cpu_flags := f\<rparr>) = sub_handles n I L s"
  by (simp add: sub_handles_def live_subs_def)

definition subscribed :: "nat \<Rightarrow> u32 \<Rightarrow> ipc_handle_t \<Rightarrow> irq_sys \<Rightarrow> irq_sys" where
  "subscribed i irq ch s = set_sub i \<lparr>sub_handle = sint (gen_handle (r_next_generation s) (of_nat i)),
       sub_irq = irq, sub_channel = ch, sub_sequence = 0\<rparr>
     (s\<lparr>r_next_generation := (if r_next_generation s + 1 = 0 then 1 else r_next_generation s + 1)\<rparr>)"

lemma subscribe_loop_cases:
  "(subscribe_loop is irq ch s = (- 1, s) \<and> (\<forall>i \<in> set is. sub_handle (s_subscriptions s i) \<noteq> 0))
   \<or> (\<exists>i \<in> set is. sub_handle (s_subscriptions s i) = 0
        \<and> subscribe_loop is irq ch s = (sint (gen_handle (r_next_generation s) (of_nat i)), subscribed i irq ch s))"
  by (induction "is") (auto simp: make_subscription_handle_def subscribed_def Let_def)

definition other_subs :: "nat \<Rightarrow> irq_sys \<Rightarrow> int set" where
  "other_subs i s = {sub_handle (s_subscriptions s j) | j. j < 16 \<and> j \<noteq> i \<and> sub_handle (s_subscriptions s j) \<noteq> 0}"

lemma live_subs_set:
  "i < 16 \<Longrightarrow> live_subs (set_sub i b s) =
    (if sub_handle b = 0 then other_subs i s else insert (sub_handle b) (other_subs i s))"
  by (auto simp: live_subs_def other_subs_def)

lemma sub_handle_inj:
  assumes "\<forall>j < 16. sub_ok j (s_subscriptions s j)" and "i < 16" and "j < 16"
    and "sub_handle (s_subscriptions s i) = sub_handle (s_subscriptions s j)"
    and "sub_handle (s_subscriptions s j) \<noteq> 0"
  shows "i = j"
proof -
  have "sub_ok i (s_subscriptions s i)" "sub_ok j (s_subscriptions s j)" using assms(1-3) by auto
  with assms(4,5) show ?thesis by (simp add: sub_ok_def)
qed

lemma other_subs_simps:
  "sub_handle (s_subscriptions s i) = 0 \<Longrightarrow> other_subs i s = live_subs s"
  "\<forall>j < 16. sub_ok j (s_subscriptions s j) \<Longrightarrow> i < 16 \<Longrightarrow> sub_handle (s_subscriptions s i) \<noteq> 0 \<Longrightarrow>
     other_subs i s = live_subs s - {sub_handle (s_subscriptions s i)}"
  "other_subs i (s\<lparr>r_next_generation := g\<rparr>) = other_subs i s"
  by (auto simp: live_subs_def other_subs_def dest: sub_handle_inj)

lemma sint_gen_handle_pos:
  assumes "i < 16" and "unat g < 2 ^ 23"
  shows "sint (gen_handle g (of_nat i)) = 256 * int (unat g) + int i + 1"
proof -
  have "unat g < 2 ^ 24" using assms(2) by simp
  then have "unat (gen_handle g (of_nat i)) = 256 * unat g + i + 1" using assms(1) by (intro unat_gen_handle)
  then show ?thesis using assms sint_small [of "gen_handle g (of_nat i)"] by simp
qed

lemma subscribed_handles:
  assumes rep: "sub_handles (Suc n) I L s" and i: "i < 16" "sub_handle (s_subscriptions s i) = 0"
  defines "h \<equiv> sint (gen_handle (r_next_generation s) (of_nat i))"
  shows "0 < h" and "h \<notin> I" and "sub_handles n (insert h I) (insert h L) (subscribed i irq ch s)"
proof -
  have g: "unat (r_next_generation s) + Suc n < 2 ^ 23" using rep by (simp add: sub_handles_def)
  then have h: "h = 256 * int (unat (r_next_generation s)) + int i + 1"
    unfolding h_def using i(1) by (intro sint_gen_handle_pos) simp_all
  then show "0 < h" by simp
  have nh: "nat h = 256 * unat (r_next_generation s) + (i + 1)"
    unfolding h by (simp add: nat_add_distrib nat_mult_distrib)
  then have dm: "nat h div 256 = unat (r_next_generation s)" "nat h mod 256 = i + 1"
    using i(1) by (simp_all add: div_mult_self3)
  then show "h \<notin> I" using rep by (auto simp: sub_handles_def)
  have inc: "unat (r_next_generation s + 1) = unat (r_next_generation s) + 1"
    using g by (intro unat_inc) simp
  then have "r_next_generation s + 1 \<noteq> 0" by (metis Suc_eq_plus1 nat.distinct(1) unat_0)
  moreover have "live_subs (subscribed i irq ch s) = insert h L"
    using rep i \<open>0 < h\<close>
    by (simp add: subscribed_def live_subs_set other_subs_simps sub_handles_def h_def [symmetric])
  moreover have "\<forall>j < 16. sub_ok j (s_subscriptions (subscribed i irq ch s) j)"
    using rep dm(2) \<open>0 < h\<close> by (auto simp: sub_handles_def sub_ok_def subscribed_def h_def [symmetric])
  ultimately show "sub_handles n (insert h I) (insert h L) (subscribed i irq ch s)"
    using rep inc dm(1) \<open>0 < h\<close> g by (auto simp: sub_handles_def subscribed_def)
qed

lemma subscribe_cases:
  obtains "irq_router_subscribe ar irq ch s = (- 1, s)"
  | i where "i < 16" and "sub_handle (s_subscriptions s i) = 0"
    and "irq_router_subscribe ar irq ch s =
      (sint (gen_handle (r_next_generation s) (of_nat i)), subscribed i irq ch s)"
proof (cases "ch \<noteq> 0 \<and> ipc_channel_is_open ch (r_ipc s)")
  case True
  obtain st s1 where e: "irq_router_enter_critical ar s = (st, s1)" by fastforce
  from enter_critical_frame [OF e] obtain f where s1: "s1 = s\<lparr>cpu_flags := f\<rparr>" by blast
  have same: "(subscribed i irq ch s1)\<lparr>cpu_flags := cpu_flags s\<rparr> = subscribed i irq ch s" for i
    by (simp add: s1 subscribed_def set_sub_def)
  obtain r s2 where l: "subscribe_loop [0..<16] irq ch s1 = (r, s2)" by fastforce
  have ev: "irq_router_subscribe ar irq ch s = (r, s2\<lparr>cpu_flags := cpu_flags s\<rparr>)"
    using subscribe_eval [OF _ _ e l] True by blast
  consider "r = - 1" "s2 = s1" | i where "i < 16" "sub_handle (s_subscriptions s1 i) = 0"
    "r = sint (gen_handle (r_next_generation s1) (of_nat i))" "s2 = subscribed i irq ch s1"
    using subscribe_loop_cases [of "[0..<16]" irq ch s1] unfolding l by auto
  then show ?thesis
  proof cases
    case 1
    with ev that(1) show ?thesis by (simp add: s1)
  next
    case 2
    with ev same that(2) show ?thesis by (simp add: s1)
  qed
next
  case False
  then show ?thesis by (intro that(1)) (auto simp: irq_router_subscribe_def)
qed

lemma unsubscribe_loop_cases:
  "(unsubscribe_loop is h s = (- 1, s) \<and> (\<forall>i \<in> set is. sub_handle (s_subscriptions s i) \<noteq> h))
   \<or> (\<exists>i \<in> set is. sub_handle (s_subscriptions s i) = h \<and> unsubscribe_loop is h s = (0, set_sub i sub_blank s))"
  by (induction "is") (auto simp: sub_blank_def)

lemma unsubscribe_cases:
  obtains "irq_router_unsubscribe ar h s = (- 1, s)" and "h \<le> 0 \<or> \<not> irq_subscribed h s"
  | i where "i < 16" and "sub_handle (s_subscriptions s i) = h" and "0 < h"
    and "irq_router_unsubscribe ar h s = (0, set_sub i sub_blank s)"
proof (cases "0 < h")
  case True
  obtain st s1 where e: "irq_router_enter_critical ar s = (st, s1)" by fastforce
  from enter_critical_frame [OF e] obtain f where s1: "s1 = s\<lparr>cpu_flags := f\<rparr>" by blast
  obtain r s2 where l: "unsubscribe_loop [0..<16] h s1 = (r, s2)" by fastforce
  have ev: "irq_router_unsubscribe ar h s = (r, s2\<lparr>cpu_flags := cpu_flags s\<rparr>)"
    using unsubscribe_eval [OF True e l] .
  consider "r = - 1" "s2 = s1" "\<forall>i < 16. sub_handle (s_subscriptions s1 i) \<noteq> h"
    | i where "i < 16" "sub_handle (s_subscriptions s1 i) = h" "r = 0" "s2 = set_sub i sub_blank s1"
    using unsubscribe_loop_cases [of "[0..<16]" h s1] unfolding l by auto
  then show ?thesis
  proof cases
    case 1
    with ev have "irq_router_unsubscribe ar h s = (- 1, s)" by (simp add: s1)
    moreover have "\<not> irq_subscribed h s" using 1(3) by (auto simp: s1 irq_subscribed_def)
    ultimately show ?thesis by (intro that(1)) simp_all
  next
    case 2
    with ev that(2) True show ?thesis by (simp add: s1 set_sub_def)
  qed
next
  case False
  then show ?thesis by (intro that(1)) (auto simp: irq_router_unsubscribe_def)
qed

interpretation sb: handle_table sub_handles "subscribe_opt ar" "unsubscribe_ok ar" irq_subscribed
  for ar
proof
  fix n I L s h b s' and x :: "u32 \<times> ipc_handle_t"
  obtain irq ch where x: "x = (irq, ch)" by fastforce
  show "sub_handles n I L s \<Longrightarrow> L \<subseteq> I" by (simp add: sub_handles_def)
  show "irq_subscribed h s = (h \<in> L)" if "sub_handles n I L s"
    using that by (auto simp: sub_handles_def irq_subscribed_def live_subs_def)
  show "h \<notin> I \<and> sub_handles n (insert h I) (insert h L) s'"
    if "sub_handles (Suc n) I L s" "subscribe_opt ar x s = (Some h, s')"
    by (rule subscribe_cases [of ar irq ch s])
      (use that subscribed_handles [OF that(1)] in \<open>auto simp: x subscribe_opt_def split: if_splits\<close>)
  show "sub_handles n I L s'"
    if rep: "sub_handles (Suc n) I L s" and "subscribe_opt ar x s = (None, s')"
  proof (rule subscribe_cases [of ar irq ch s])
    assume "irq_router_subscribe ar irq ch s = (- 1, s)"
    with that show ?thesis by (simp add: x subscribe_opt_def sub_handles_def)
  next
    fix i assume "i < 16" "sub_handle (s_subscriptions s i) = 0" "irq_router_subscribe ar irq ch s =
      (sint (gen_handle (r_next_generation s) (of_nat i)), subscribed i irq ch s)"
    with that subscribed_handles(1) [OF rep \<open>i < 16\<close>] show ?thesis
      by (auto simp: x subscribe_opt_def split: if_splits)
  qed
  show "b = (h \<in> L) \<and> sub_handles n I (L - {h}) s'"
    if rep: "sub_handles n I L s" and d: "unsubscribe_ok ar h s = (b, s')"
  proof (rule unsubscribe_cases [of ar h s])
    assume a: "irq_router_unsubscribe ar h s = (- 1, s)" "h \<le> 0 \<or> \<not> irq_subscribed h s"
    have "h \<notin> L"
      using a(2) rep by (auto simp: sub_handles_def sub_ok_def irq_subscribed_def live_subs_def)
    with a(1) d rep show ?thesis by (auto simp: unsubscribe_ok_def)
  next
    fix i assume i: "i < 16" "sub_handle (s_subscriptions s i) = h" "0 < h"
      "irq_router_unsubscribe ar h s = (0, set_sub i sub_blank s)"
    have "live_subs (set_sub i sub_blank s) = live_subs s - {h}"
      using i rep by (simp add: live_subs_set sub_blank_def other_subs_simps sub_handles_def)
    moreover have "h \<in> live_subs s" using i by (auto simp: live_subs_def)
    moreover have "sub_ok i sub_blank" by (simp add: sub_ok_def sub_blank_def)
    then have "\<forall>j < 16. sub_ok j (s_subscriptions (set_sub i sub_blank s) j)"
      using rep by (simp add: sub_handles_def)
    ultimately show ?thesis using i d rep by (auto simp: unsubscribe_ok_def sub_handles_def)
  qed
qed

text \<open>
  C37. Subscription handles are not reused, for as long as fewer than \<open>2 ^ 23\<close> subscriptions
  have been requested: from an empty table, any sequence of subscriptions, each for any
  interrupt and any channel, and cancellations issues pairwise distinct handles, before and
  after the cancellation of one of them, and that one stays invalid.
\<close>

theorem irq_handles_fresh:
  assumes "\<forall>i < 16. s_subscriptions s i = sub_blank" and "r_next_generation s = 1"
    and "creations reqs1 + creations reqs2 + 1 < 2 ^ 23"
    and "handle_run (subscribe_opt ar) (unsubscribe_ok ar) reqs1 s = (hs, s1)"
    and "irq_router_unsubscribe ar h s1 = (IRQ_ROUTER_STATUS_OK, s2)"
    and "handle_run (subscribe_opt ar) (unsubscribe_ok ar) reqs2 s2 = (hs', s3)"
  shows "distinct (hs @ hs') \<and> \<not> irq_subscribed h s3"
proof -
  have "sub_handles (creations reqs1 + creations reqs2) {} {} s"
    using assms(1-3) by (auto simp: sub_handles_def sub_ok_def live_subs_def sub_blank_def)
  from sb.run_fresh [OF this _ assms(4)] obtain L
    where r1: "distinct hs" "sub_handles (creations reqs2) (set hs) L s1" by auto
  moreover have "unsubscribe_ok ar h s1 = (True, s2)" using assms(5) by (simp add: unsubscribe_ok_def)
  ultimately have r2: "h \<in> L" "sub_handles (creations reqs2) (set hs) (L - {h}) s2"
    using sb.destroy_step by blast+
  have "L \<subseteq> set hs" using r1(2) sb.live_issued by blast
  then have "\<not> irq_subscribed h s3" using sb.run_stale [OF r2(2) _ _ _ assms(6)] r2(1) by auto
  moreover have "distinct hs' \<and> set hs' \<inter> set hs = {}" using sb.run_fresh [OF r2(2) _ assms(6)] by simp
  ultimately show ?thesis using r1(1) by auto
qed

theorem irq_handles_fresh_witness:
  "irq_router_unsubscribe X86_64 257 (snd (irq_router_subscribe X86_64 0 0x101 example_irq))
     = (IRQ_ROUTER_STATUS_OK,
        snd (irq_router_unsubscribe X86_64 257 (snd (irq_router_subscribe X86_64 0 0x101 example_irq))))
   \<and> \<not> irq_subscribed 257
        (snd (irq_router_unsubscribe X86_64 257 (snd (irq_router_subscribe X86_64 0 0x101 example_irq))))"
proof -
  let ?s1 = "snd (irq_router_subscribe X86_64 0 0x101 example_irq)"
  have up: "[0..<16::nat] = 0 # [1..<16]" by (simp add: upt_conv_Cons)
  have "ipc_channel_is_open 0x101 (r_ipc example_irq)" using example_irq_ok is_open_holds by blast
  then have sub: "irq_router_subscribe X86_64 0 0x101 example_irq = (257, ?s1)"
    "sub_handle (s_subscriptions ?s1 0) = 257"
    unfolding irq_router_subscribe_def up
    by (simp_all add: irq_router_enter_critical_def irq_router_leave_critical_def make_subscription_handle_def
        example_irq_def sub_blank_def gen_handle_def Let_def)
  have run: "handle_run (subscribe_opt X86_64) (unsubscribe_ok X86_64) [Create (0, 0x101)] example_irq = ([257], ?s1)"
    by (simp add: subscribe_opt_def split_beta arg_cong [OF sub(1), of fst, simplified])
  have un: "irq_router_unsubscribe X86_64 257 ?s1 = (0, snd (irq_router_unsubscribe X86_64 257 ?s1))"
    by (rule unsubscribe_cases [of X86_64 257 ?s1]) (use sub(2) in \<open>auto simp: irq_subscribed_def\<close>)
  have len: "creations [Create (0, 0x101) :: (u32 \<times> u32, int) handle_req] + creations ([] :: (u32 \<times> u32, int) handle_req list) + 1 < 2 ^ 23"
    by simp
  have "distinct ([257 :: int] @ []) \<and> \<not> irq_subscribed 257 (snd (irq_router_unsubscribe X86_64 257 ?s1))"
    by (rule irq_handles_fresh [OF _ _ len run un]) (simp_all add: example_irq_def)
  with un show ?thesis by blast
qed

text \<open>
  C39. From generation \<open>2 ^ 23\<close> up to \<open>2 ^ 24\<close> a subscription is lost: the handle that
  \<open>irq_router_subscribe\<close> builds has its sign bit set, so the call returns a negative number
  as if it had failed, the slot stays occupied, no interrupt is delivered through it and
  \<open>irq_router_unsubscribe\<close> refuses the handle.
\<close>

theorem irq_negative_handle:
  assumes "ch \<noteq> 0" and "ipc_channel_is_open ch (r_ipc s)"
    and "2 ^ 23 \<le> unat (r_next_generation s)" and "unat (r_next_generation s) < 2 ^ 24"
    and "\<exists>i < 16. sub_handle (s_subscriptions s i) = 0"
  shows "\<exists>h s' i. irq_router_subscribe ar irq ch s = (h, s') \<and> h < 0 \<and> i < 16
    \<and> sub_handle (s_subscriptions s i) = 0 \<and> sub_handle (s_subscriptions s' i) = h
    \<and> \<not> sub_matches irq (s_subscriptions s' i)
    \<and> irq_router_unsubscribe ar h s' = (IRQ_ROUTER_STATUS_INVALID, s')"
proof -
  obtain st s1 where e: "irq_router_enter_critical ar s = (st, s1)" by fastforce
  from enter_critical_frame [OF e] obtain f where s1: "s1 = s\<lparr>cpu_flags := f\<rparr>" by blast
  obtain r s2 where l: "subscribe_loop [0..<16] irq ch s1 = (r, s2)" by fastforce
  obtain i where i: "i < 16" "sub_handle (s_subscriptions s1 i) = 0"
    "r = sint (gen_handle (r_next_generation s1) (of_nat i))" "s2 = subscribed i irq ch s1"
    using subscribe_loop_cases [of "[0..<16]" irq ch s1] assms(5) unfolding l by (auto simp: s1)
  have "unat (gen_handle (r_next_generation s) (of_nat i)) = 256 * unat (r_next_generation s) + i + 1"
    using unat_gen_handle [OF i(1) assms(4)] .
  then have neg: "r < 0" unfolding i(3) using assms(3) by (intro sint_large) (simp add: s1)
  have "irq_router_subscribe ar irq ch s = (r, s2\<lparr>cpu_flags := cpu_flags s\<rparr>)"
    using subscribe_eval [OF assms(1,2) e l] .
  then show ?thesis
    using i neg by (intro exI [of _ r] exI [of _ "s2\<lparr>cpu_flags := cpu_flags s\<rparr>"] exI [of _ i])
      (auto simp: subscribed_def sub_matches_def irq_router_unsubscribe_def s1)
qed

theorem irq_negative_handle_witness:
  "\<exists>h s'. irq_router_subscribe X86_64 0 0x101 (example_irq\<lparr>r_next_generation := 2 ^ 23\<rparr>) = (h, s') \<and> h < 0"
proof -
  let ?s = "example_irq\<lparr>r_next_generation := 2 ^ 23\<rparr>"
  have "ipc_channel_is_open 0x101 (r_ipc ?s)" using example_irq_ok by (auto simp: is_open_holds)
  moreover have "\<exists>i < 16. sub_handle (s_subscriptions ?s i) = 0"
    by (intro exI [of _ 0]) (simp add: example_irq_def sub_blank_def)
  ultimately show ?thesis
    using irq_negative_handle [where ch = "0x101" and s = ?s and ar = X86_64 and irq = 0] by auto
qed

end
