(* ===== verification/Timer.thy ===== *)
theory Timer
  imports Irq_Router
begin

text \<open>
  The timer layer of \<^verbatim>\<open>src/kernel/sched/timer.c\<close>: a tick counter, a registered callback and the
  publication of every tick as the timer interrupt. The callback is a function on the state of the
  interrupt router, which holds the channels and the scheduler; \<open>None\<close> as its result would mean
  that it does not return. Programming the timer hardware is not modelled.
\<close>

record timer =
  s_tick_count :: u64
  s_hz :: u32
  s_tick_fn :: "(irq_sys \<Rightarrow> irq_sys option) option"
  tm_irq :: irq_sys

abbreviation (input) IRQ_ROUTER_TIMER_IRQ :: u32 where "IRQ_ROUTER_TIMER_IRQ \<equiv> 0"

definition timer_init :: "u32 \<Rightarrow> timer \<Rightarrow> timer" where
  "timer_init hz s = s\<lparr>s_tick_count := 0, s_hz := hz, s_tick_fn := None\<rparr>"

definition timer_set_tick_callback :: "(irq_sys \<Rightarrow> irq_sys option) option \<Rightarrow> timer \<Rightarrow> timer" where
  "timer_set_tick_callback fn s = s\<lparr>s_tick_fn := fn\<rparr>"

definition timer_tick_handler :: "timer \<Rightarrow> timer option" where
  "timer_tick_handler s =
     do {
       let s1 = s\<lparr>s_tick_count := s_tick_count s + 1\<rparr>;
       r1 \<leftarrow> (case s_tick_fn s1 of None \<Rightarrow> Some (tm_irq s1) | Some fn \<Rightarrow> fn (tm_irq s1));
       r2 \<leftarrow> irq_router_publish IRQ_ROUTER_TIMER_IRQ r1;
       Some (s1\<lparr>tm_irq := r2\<rparr>)
     }"

definition timer_get_tick_count :: "timer \<Rightarrow> u64" where
  "timer_get_tick_count s = s_tick_count s"

definition timer_get_hz :: "timer \<Rightarrow> u32" where
  "timer_get_hz s = s_hz s"

subsection \<open>A sequence of ticks\<close>

text \<open>A callback that returns and leaves the channels and run queues consistent.\<close>

definition good_callback :: "(irq_sys \<Rightarrow> irq_sys option) option \<Rightarrow> bool" where
  "good_callback fn \<longleftrightarrow> (\<forall>f x. fn = Some f \<longrightarrow> ipc_ok (r_ipc x) \<longrightarrow> (\<exists>y. f x = Some y \<and> ipc_ok (r_ipc y)))"

fun timer_ticks :: "nat \<Rightarrow> timer \<Rightarrow> timer option" where
  "timer_ticks 0 s = Some s"
| "timer_ticks (Suc n) s = do { s1 \<leftarrow> timer_tick_handler s; timer_ticks n s1 }"

lemma timer_tick_returns:
  assumes "ipc_ok (r_ipc (tm_irq s))" and "good_callback (s_tick_fn s)"
  obtains s' where "timer_tick_handler s = Some s'" and "ipc_ok (r_ipc (tm_irq s'))"
    and "s_tick_fn s' = s_tick_fn s" and "s_tick_count s' = s_tick_count s + 1" and "s_hz s' = s_hz s"
proof -
  obtain r1 where r1: "(case s_tick_fn s of None \<Rightarrow> Some (tm_irq s) | Some fn \<Rightarrow> fn (tm_irq s)) = Some r1" "ipc_ok (r_ipc r1)"
    using assms by (cases "s_tick_fn s") (auto simp: good_callback_def)
  obtain r2 where "irq_router_publish 0 r1 = Some r2" "ipc_ok (r_ipc r2)"
    using publish_loop_rep [OF r1(2) distinct_upt, of 0 16 0] unfolding irq_router_publish_def by blast
  with r1 show ?thesis by (intro that [of "s\<lparr>s_tick_count := s_tick_count s + 1, tm_irq := r2\<rparr>"]) (simp_all add: timer_tick_handler_def Let_def cong: option.case_cong)
qed

text \<open>Every tick returns and is counted, modulo \<open>2 ^ 64\<close>.\<close>

lemma timer_ticks_count:
  assumes "ipc_ok (r_ipc (tm_irq s))" and "good_callback (s_tick_fn s)"
  shows "\<exists>s'. timer_ticks n s = Some s' \<and> ipc_ok (r_ipc (tm_irq s')) \<and> timer_get_tick_count s' = timer_get_tick_count s + of_nat n
    \<and> timer_get_hz s' = timer_get_hz s"
  using assms
proof (induction n arbitrary: s)
  case 0
  then show ?case by simp
next
  case (Suc n)
  obtain s1 where s1: "timer_tick_handler s = Some s1" "ipc_ok (r_ipc (tm_irq s1))" "s_tick_fn s1 = s_tick_fn s"
    "s_tick_count s1 = s_tick_count s + 1" "s_hz s1 = s_hz s"
    by (rule timer_tick_returns [OF Suc.prems]) (rule that; assumption)
  with Suc.IH [of s1] Suc.prems show ?case by (auto simp: timer_get_tick_count_def timer_get_hz_def add.assoc)
qed

text \<open>The accounting of the scheduler is such a callback.\<close>

lemma sched_tick_callback:
  "good_callback (Some (\<lambda>x. Some (x\<lparr>r_ipc := (r_ipc x)\<lparr>i_sched := sched_tick cur (i_sched (r_ipc x))\<rparr>\<rparr>)))"
  using sched_tick_ok by (auto simp: good_callback_def ipc_ok_def)

end
