(* ===== verification/Syscall.thy ===== *)
theory Syscall
  imports Ipc
begin

text \<open>
  System calls, \<^verbatim>\<open>src/kernel/syscall/syscall.c\<close>: one definition per handler, the dispatch
  table and the dispatcher. A message argument is an address; the memory of the callers maps
  an address to the message object that starts there, and address 0 is NULL. A handler that
  gives up the processor ends with \<open>Switch_to\<close>, which names the thread switched to and what
  is left to do when the caller runs again.
\<close>

subsection \<open>Data\<close>

type_synonym syscall_result_t = int

record syscall_args_t =
  a_number :: u64
  a_arg0 :: u64
  a_arg1 :: u64
  a_arg2 :: u64
  a_arg3 :: u64
  a_arg4 :: u64

abbreviation (input) SYSCALL_YIELD :: u64 where "SYSCALL_YIELD \<equiv> 0x0001"
abbreviation (input) SYSCALL_EXIT :: u64 where "SYSCALL_EXIT \<equiv> 0x0002"
abbreviation (input) SYSCALL_GET_PID :: u64 where "SYSCALL_GET_PID \<equiv> 0x0003"
abbreviation (input) SYSCALL_GET_TID :: u64 where "SYSCALL_GET_TID \<equiv> 0x0004"
abbreviation (input) SYSCALL_SCHED_BLOCK :: u64 where "SYSCALL_SCHED_BLOCK \<equiv> 0x0101"
abbreviation (input) SYSCALL_SCHED_SET_PRIORITY :: u64 where "SYSCALL_SCHED_SET_PRIORITY \<equiv> 0x0102"
abbreviation (input) SYSCALL_SCHED_SLEEP :: u64 where "SYSCALL_SCHED_SLEEP \<equiv> 0x0103"
abbreviation (input) SYSCALL_SCHED_GET_PRIORITY :: u64 where "SYSCALL_SCHED_GET_PRIORITY \<equiv> 0x0104"
abbreviation (input) SYSCALL_IPC_SEND :: u64 where "SYSCALL_IPC_SEND \<equiv> 0x0201"
abbreviation (input) SYSCALL_IPC_RECV :: u64 where "SYSCALL_IPC_RECV \<equiv> 0x0202"
abbreviation (input) SYSCALL_IPC_TRYSEND :: u64 where "SYSCALL_IPC_TRYSEND \<equiv> 0x0203"
abbreviation (input) SYSCALL_IPC_TRYRECV :: u64 where "SYSCALL_IPC_TRYRECV \<equiv> 0x0204"
abbreviation (input) SYSCALL_DIAG_WRITE :: u64 where "SYSCALL_DIAG_WRITE \<equiv> 0xF001"
abbreviation (input) SYSCALL_DIAG_DUMP_SCHED :: u64 where "SYSCALL_DIAG_DUMP_SCHED \<equiv> 0xF002"

abbreviation (input) SYSCALL_OK :: syscall_result_t where "SYSCALL_OK \<equiv> 0"
abbreviation (input) SYSCALL_ERR_UNKNOWN :: syscall_result_t where "SYSCALL_ERR_UNKNOWN \<equiv> - 1"
abbreviation (input) SYSCALL_ERR_INVAL :: syscall_result_t where "SYSCALL_ERR_INVAL \<equiv> - 2"
abbreviation (input) SYSCALL_ERR_AGAIN :: syscall_result_t where "SYSCALL_ERR_AGAIN \<equiv> - 4"
abbreviation (input) SYSCALL_ERR_FULL :: syscall_result_t where "SYSCALL_ERR_FULL \<equiv> - 5"
abbreviation (input) SYSCALL_ERR_EMPTY :: syscall_result_t where "SYSCALL_ERR_EMPTY \<equiv> - 6"
abbreviation (input) SYSCALL_ERR_NOSYS :: syscall_result_t where "SYSCALL_ERR_NOSYS \<equiv> - 7"

record sys_state =
  y_ipc :: ipc_sys
  y_mem :: "u64 \<Rightarrow> ipc_message_t"

text \<open>What remains of a call that switched to another thread.\<close>

datatype sys_rest =
    Return_OK
  | Send_again ipc_handle_t u64 nat
  | Recv_again ipc_handle_t u32 u64 nat

datatype sys_outcome = Done syscall_result_t | Switch_to tptr sys_rest

abbreviation y_sched :: "sys_state \<Rightarrow> sched" where
  "y_sched s \<equiv> i_sched (y_ipc s)"

definition set_sched :: "sched \<Rightarrow> sys_state \<Rightarrow> sys_state" where
  "set_sched sc s = s\<lparr>y_ipc := (y_ipc s)\<lparr>i_sched := sc\<rparr>\<rparr>"

text \<open>The message object at an address.\<close>

definition msg_at :: "u64 \<Rightarrow> sys_state \<Rightarrow> ipc_message_t option" where
  "msg_at a s = (if a = 0 then None else Some (y_mem s a))"

definition store_msg :: "u64 \<Rightarrow> ipc_message_t option \<Rightarrow> sys_state \<Rightarrow> sys_state" where
  "store_msg a m s = (case m of None \<Rightarrow> s | Some x \<Rightarrow> s\<lparr>y_mem := (y_mem s)(a := x)\<rparr>)"

definition ipc_result_to_syscall_result :: "ipc_result_t \<Rightarrow> syscall_result_t" where
  "ipc_result_to_syscall_result r =
     (if r = IPC_OK then SYSCALL_OK
      else if r = IPC_ERR_INVAL then SYSCALL_ERR_INVAL
      else if r = IPC_ERR_FULL then SYSCALL_ERR_FULL
      else if r = IPC_ERR_EMPTY then SYSCALL_ERR_EMPTY
      else if r = IPC_ERR_AGAIN then SYSCALL_ERR_AGAIN
      else if r = IPC_ERR_TYPE then SYSCALL_ERR_INVAL
      else if r = IPC_ERR_CLOSED then SYSCALL_ERR_INVAL
      else if r = IPC_ERR_NOSLOT then SYSCALL_ERR_AGAIN
      else SYSCALL_ERR_UNKNOWN)"

subsection \<open>Scheduler calls\<close>

type_synonym handler = "syscall_args_t \<Rightarrow> sys_state \<Rightarrow> (sys_outcome \<times> sys_state) option"

definition handle_yield :: handler where
  "handle_yield args s =
     (case sched_get_current (y_sched s) of
        None \<Rightarrow> Some (Done SYSCALL_OK, s)
      | Some current \<Rightarrow>
          do {
            (ok, sc) \<leftarrow> sched_yield (Some current) (y_sched s);
            if \<not> ok then Some (Done SYSCALL_OK, set_sched sc s)
            else
              (case sched_dequeue sc of
                 (None, sc1) \<Rightarrow>
                   Some (Done SYSCALL_OK,
                     set_sched (sched_set_current (Some current)
                       (set_tcb current ((tcb sc1 current)\<lparr>t_state := PROCESS_STATE_RUNNING\<rparr>) sc1)) s)
               | (Some n, sc1) \<Rightarrow>
                   Some (Switch_to n Return_OK, set_sched (sched_context_switch (Some current) (Some n) sc1) s))
          })"

definition handle_exit :: handler where
  "handle_exit args s = Some (Done SYSCALL_OK, s)"

definition handle_get_pid :: handler where
  "handle_get_pid args s = Some (Done (uint PID_KERNEL), s)"

definition handle_get_tid :: handler where
  "handle_get_tid args s = Some (Done 1, s)"

definition handle_sched_block :: handler where
  "handle_sched_block args s =
     (case sched_get_current (y_sched s) of
        None \<Rightarrow> Some (Done SYSCALL_OK, s)
      | Some current \<Rightarrow>
          do {
            (ok, sc) \<leftarrow> sched_block (Some current) (y_sched s);
            if \<not> ok then Some (Done SYSCALL_ERR_INVAL, set_sched sc s)
            else
              (case sched_dequeue sc of
                 (None, sc1) \<Rightarrow>
                   do {
                     (_, sc2) \<leftarrow> sched_enqueue (Some current)
                       (set_tcb current ((tcb sc1 current)\<lparr>t_state := PROCESS_STATE_READY\<rparr>) sc1);
                     Some (Done SYSCALL_ERR_AGAIN,
                       set_sched (sched_set_current (Some current)
                         (set_tcb current ((tcb sc2 current)\<lparr>t_state := PROCESS_STATE_RUNNING\<rparr>) sc2)) s)
                   }
               | (Some n, sc1) \<Rightarrow>
                   Some (Switch_to n Return_OK, set_sched (sched_context_switch (Some current) (Some n) sc1) s))
          })"

definition handle_sched_set_priority :: handler where
  "handle_sched_set_priority args s =
     (let new_prio = (ucast (a_arg0 args AND 0xFFFFFFFF) :: u32)
      in if new_prio \<ge> SCHED_PRIO_MAX then Some (Done SYSCALL_ERR_INVAL, s)
         else case sched_get_current (y_sched s) of
           None \<Rightarrow> Some (Done SYSCALL_ERR_AGAIN, s)
         | Some current \<Rightarrow>
             Some (Done SYSCALL_OK,
               set_sched (set_tcb current ((tcb (y_sched s) current)\<lparr>t_priority := new_prio\<rparr>) (y_sched s)) s))"

definition handle_sched_sleep :: handler where
  "handle_sched_sleep args s =
     (case sched_get_current (y_sched s) of
        None \<Rightarrow> Some (Done SYSCALL_OK, s)
      | Some current \<Rightarrow>
          do {
            (ok, sc) \<leftarrow> sched_yield (Some current) (y_sched s);
            if \<not> ok then Some (Done SYSCALL_OK, set_sched sc s)
            else
              (case sched_dequeue sc of
                 (None, sc1) \<Rightarrow>
                   Some (Done SYSCALL_OK,
                     set_sched (sched_set_current (Some current)
                       (set_tcb current ((tcb sc1 current)\<lparr>t_state := PROCESS_STATE_RUNNING\<rparr>) sc1)) s)
               | (Some n, sc1) \<Rightarrow>
                   Some (Switch_to n Return_OK, set_sched (sched_context_switch (Some current) (Some n) sc1) s))
          })"

definition handle_sched_get_priority :: handler where
  "handle_sched_get_priority args s =
     (case sched_get_current (y_sched s) of
        None \<Rightarrow> Some (Done SYSCALL_ERR_AGAIN, s)
      | Some current \<Rightarrow> Some (Done (uint (t_priority (tcb (y_sched s) current))), s))"

subsection \<open>Channel calls\<close>

definition send_outcome ::
  "ipc_handle_t \<Rightarrow> u64 \<Rightarrow> nat \<Rightarrow> ipc_outcome \<Rightarrow> sys_outcome" where
  "send_outcome h a i r =
     (case r of
        Returned x \<Rightarrow> Done (ipc_result_to_syscall_result x)
      | Switched n \<Rightarrow> Switch_to n (Send_again h a i))"

definition recv_outcome :: "ipc_handle_t \<Rightarrow> u32 \<Rightarrow> u64 \<Rightarrow> nat \<Rightarrow> ipc_outcome \<Rightarrow> sys_outcome" where
  "recv_outcome h ty a i r =
     (case r of
        Returned x \<Rightarrow> Done (ipc_result_to_syscall_result x)
      | Switched n \<Rightarrow> Switch_to n (Recv_again h ty a i))"

text \<open>The slot a channel pointer computed at the start of the call refers to.\<close>

definition slot_of :: "ipc_handle_t \<Rightarrow> nat" where
  "slot_of h = unat ((h AND 0xFF) - 1)"

definition arg_u32 :: "u64 \<Rightarrow> u32" where
  "arg_u32 x = ucast (x AND 0xFFFFFFFF)"

definition handle_ipc_send :: handler where
  "handle_ipc_send args s =
     (let h = arg_u32 (a_arg0 args); a = a_arg1 args
      in do {
           (r, ip) \<leftarrow> ipc_send h (msg_at a s) (y_ipc s);
           Some (send_outcome h a (slot_of h) r, s\<lparr>y_ipc := ip\<rparr>)
         })"

definition handle_ipc_recv :: handler where
  "handle_ipc_recv args s =
     (let h = arg_u32 (a_arg0 args); type_filter = arg_u32 (a_arg1 args); a = a_arg2 args
      in do {
           (r, out, ip) \<leftarrow> ipc_recv h type_filter (msg_at a s) (y_ipc s);
           Some (recv_outcome h type_filter a (slot_of h) r, store_msg a out (s\<lparr>y_ipc := ip\<rparr>))
         })"

definition handle_ipc_trysend :: handler where
  "handle_ipc_trysend args s =
     (let h = arg_u32 (a_arg0 args); msg = msg_at (a_arg1 args) s
      in do {
           (r, ip) \<leftarrow> ipc_trysend h msg (y_ipc s);
           Some (Done (ipc_result_to_syscall_result r), s\<lparr>y_ipc := ip\<rparr>)
         })"

definition handle_ipc_tryrecv :: handler where
  "handle_ipc_tryrecv args s =
     (let h = arg_u32 (a_arg0 args); type_filter = arg_u32 (a_arg1 args); a = a_arg2 args
      in do {
           (r, out, ip) \<leftarrow> ipc_tryrecv h type_filter (msg_at a s) (y_ipc s);
           Some (Done (ipc_result_to_syscall_result r), store_msg a out (s\<lparr>y_ipc := ip\<rparr>))
         })"

definition handle_diag_write :: handler where
  "handle_diag_write args s = Some (Done SYSCALL_OK, s)"

definition handle_diag_dump_sched :: handler where
  "handle_diag_dump_sched args s = Some (Done SYSCALL_OK, s)"

subsection \<open>Dispatch\<close>

definition s_table :: "(u64 \<times> handler) list" where
  "s_table =
     [(SYSCALL_YIELD, handle_yield),
      (SYSCALL_EXIT, handle_exit),
      (SYSCALL_GET_PID, handle_get_pid),
      (SYSCALL_GET_TID, handle_get_tid),
      (SYSCALL_SCHED_BLOCK, handle_sched_block),
      (SYSCALL_SCHED_SET_PRIORITY, handle_sched_set_priority),
      (SYSCALL_SCHED_SLEEP, handle_sched_sleep),
      (SYSCALL_SCHED_GET_PRIORITY, handle_sched_get_priority),
      (SYSCALL_IPC_SEND, handle_ipc_send),
      (SYSCALL_IPC_RECV, handle_ipc_recv),
      (SYSCALL_IPC_TRYSEND, handle_ipc_trysend),
      (SYSCALL_IPC_TRYRECV, handle_ipc_tryrecv),
      (SYSCALL_DIAG_WRITE, handle_diag_write),
      (SYSCALL_DIAG_DUMP_SCHED, handle_diag_dump_sched)]"

fun dispatch_loop :: "(u64 \<times> handler) list \<Rightarrow> handler" where
  "dispatch_loop [] args s = Some (Done SYSCALL_ERR_NOSYS, s)"
| "dispatch_loop ((n, handler) # es) args s =
     (if n = a_number args then handler args s else dispatch_loop es args s)"

definition syscall_dispatch ::
  "syscall_args_t option \<Rightarrow> sys_state \<Rightarrow> (sys_outcome \<times> sys_state) option" where
  "syscall_dispatch args s =
     (case args of
        None \<Rightarrow> Some (Done SYSCALL_ERR_INVAL, s)
      | Some a \<Rightarrow> dispatch_loop s_table a s)"

text \<open>What the caller does when it runs again after a switch.\<close>

definition syscall_resume :: "sys_rest \<Rightarrow> sys_state \<Rightarrow> (sys_outcome \<times> sys_state) option" where
  "syscall_resume k s =
     (case k of
        Return_OK \<Rightarrow> Some (Done SYSCALL_OK, s)
      | Send_again h a i \<Rightarrow>
          do {
            (r, ip) \<leftarrow> ipc_send_iter h (msg_at a s) i (y_ipc s);
            Some (send_outcome h a i r, s\<lparr>y_ipc := ip\<rparr>)
          }
      | Recv_again h ty a i \<Rightarrow>
          do {
            (r, out, ip) \<leftarrow> ipc_recv_iter h ty (msg_at a s) i (y_ipc s);
            Some (recv_outcome h ty a i r, store_msg a out (s\<lparr>y_ipc := ip\<rparr>))
          })"

subsection \<open>The processor and its threads\<close>

text \<open>
  \<open>cpu_ok c s qs\<close>: thread \<open>c\<close> is the current one, it and no other thread is RUNNING, and the
  run queues hold the lists \<open>qs\<close>.
\<close>

definition cpu_ok :: "tptr \<Rightarrow> sched \<Rightarrow> (nat \<Rightarrow> tptr list) \<Rightarrow> bool" where
  "cpu_ok c s qs \<longleftrightarrow> sched_ok s qs \<and> s_current s = Some c \<and> unat (t_priority (tcb s c)) < 8
     \<and> (\<forall>x. t_state (tcb s x) = PROCESS_STATE_RUNNING \<longleftrightarrow> x = c)"

lemma cpu_ok_current:
  assumes "cpu_ok c s qs"
  shows "sched_ok s qs" and "sched_get_current s = Some c" and "t_state (tcb s c) = PROCESS_STATE_RUNNING"
    and "c \<notin> set (queued qs)"
proof -
  show ok: "sched_ok s qs" and run: "t_state (tcb s c) = PROCESS_STATE_RUNNING"
    and "sched_get_current s = Some c"
    using assms by (simp_all add: cpu_ok_def sched_get_current_def)
  show "c \<notin> set (queued qs)" by (rule sched_ok_not_queued [OF ok]) (simp add: run)
qed

text \<open>The threads in the order in which they would run after \<open>c\<close> has yielded.\<close>

definition after_yield :: "tptr \<Rightarrow> sched \<Rightarrow> tptr list \<Rightarrow> tptr list" where
  "after_yield c s ts =
     takeWhile (\<lambda>x. t_priority (tcb s x) \<le> t_priority (tcb s c)) ts @ c #
     dropWhile (\<lambda>x. t_priority (tcb s x) \<le> t_priority (tcb s c)) ts"

lemma yield_queues:
  assumes ok: "cpu_ok c s qs" and room: "length (queued qs) < 32"
  obtains s' qs' where "sched_yield (Some c) s = Some (True, s')" and "sched_ok s' qs'"
    and "queued qs' = after_yield c s (queued qs)" and "s_current s' = Some c"
    and "\<forall>x. t_state (tcb s' x) = (if x = c then PROCESS_STATE_READY else t_state (tcb s x))"
    and "\<forall>x. t_priority (tcb s' x) = t_priority (tcb s x)"
proof -
  let ?s = "(set_tcb c ((tcb s c)\<lparr>t_state := PROCESS_STATE_READY,
               t_ticks_remaining := SCHED_DEFAULT_QUANTUM\<rparr>) s)\<lparr>s_preempt_requested := False\<rparr>"
  let ?i = "unat (t_priority (tcb s c))"
  have c: "sched_ok s qs" "t_state (tcb s c) = PROCESS_STATE_RUNNING" "c \<notin> set (queued qs)"
    using cpu_ok_current [OF ok] by simp_all
  have ok': "sched_ok ?s qs" using c by (simp add: sched_ok_set_unqueued)
  obtain s' where s': "sched_enqueue (Some c) ?s = Some (can_enqueue ?s qs c, s')"
    "sched_ok s' (enqueued ?s qs c)" "same_but_next (tcb ?s) (tcb s')" "s_current s' = s_current ?s"
    by (rule sched_enqueue_rep [OF ok'])
  have can: "can_enqueue ?s qs c" using c room ok by (simp add: can_enqueue_def set_tcb_def cpu_ok_def)
  then have "enqueued ?s qs c = qs(?i := qs ?i @ [c])" by (simp add: enqueued_def set_tcb_def Let_def)
  moreover have "queued (qs(?i := qs ?i @ [c])) = after_yield c s (queued qs)"
    using queued_append_position [OF c(1), of ?i c] ok
    by (simp add: after_yield_def cpu_ok_def word_le_nat_alt)
  ultimately show ?thesis
    using s' c can ok by (intro that [of s' "enqueued ?s qs c"])
      (simp_all add: sched_yield_def Let_def set_tcb_def same_but_next_fields cpu_ok_def)
qed

lemma after_yield_Cons: obtains n ts where "after_yield c s xs = n # ts"
  by (cases "after_yield c s xs") (simp_all add: after_yield_def)

lemma yield_switches:
  assumes ok: "cpu_ok c (y_sched s) qs" and room: "length (queued qs) < 32"
    and next_up: "after_yield c (y_sched s) (queued qs) = n # ts"
  obtains s' qs' where "handle_yield args s = Some (Switch_to n Return_OK, s')"
    and "cpu_ok n (y_sched s') qs'" and "queued qs' = ts"
    and "\<forall>x. t_priority (tcb (y_sched s') x) = t_priority (tcb (y_sched s) x)"
    and "y_mem s' = y_mem s" and "s_channels (y_ipc s') = s_channels (y_ipc s)"
proof -
  let ?sc = "y_sched s"
  obtain s1 qs1 where s1: "sched_yield (Some c) ?sc = Some (True, s1)" "sched_ok s1 qs1"
    "queued qs1 = after_yield c ?sc (queued qs)" "s_current s1 = Some c"
    and st: "\<forall>x. t_state (tcb s1 x) = (if x = c then PROCESS_STATE_READY else t_state (tcb ?sc x))"
    and pr: "\<forall>x. t_priority (tcb s1 x) = t_priority (tcb ?sc x)"
    by (rule yield_queues [OF ok room])
  obtain s2 qs2 where s2: "sched_dequeue s1 = (Some n, s2)" "sched_ok s2 qs2" "queued qs2 = ts"
    "same_but_next (tcb s1) (tcb s2)"
    using sched_dequeue_head [OF s1(2), of n ts] s1(3) next_up by metis
  have "distinct (queued qs1)" using s1(2) by (simp add: sched_ok_def sched_rep_def)
  then have n: "n \<notin> set (queued qs2)" using s1(3) s2(3) next_up by simp
  have "n \<in> set (queued qs1)" using s1(3) next_up by simp
  then have n8: "unat (t_priority (tcb s1 n)) < 8" using sched_ok_queued(3) [OF s1(2)] by blast
  let ?s3 = "sched_context_switch (Some c) (Some n) s2"
  have "sched_ok ?s3 qs2" using s2(2) n by (simp add: sched_context_switch_def sched_ok_set_unqueued)
  then have "cpu_ok n ?s3 qs2"
    using n8 st ok
    by (auto simp: cpu_ok_def sched_context_switch_def set_tcb_def same_but_next_fields [OF s2(4)])
  then show ?thesis
    using cpu_ok_current(2) [OF ok] s1(1) s2 pr
    by (intro that [of "set_sched ?s3 s" qs2])
      (simp_all add: handle_yield_def set_sched_def sched_context_switch_def set_tcb_def
        same_but_next_fields [OF s2(4)])
qed

text \<open>The running thread yields, and so does the one that runs next, \<open>k\<close> times in all.\<close>

primrec yields :: "nat \<Rightarrow> syscall_args_t \<Rightarrow> sys_state \<Rightarrow> sys_state option" where
  "yields 0 args s = Some s"
| "yields (Suc k) args s = do { (_, s') \<leftarrow> syscall_dispatch (Some args) s; yields k args s' }"

lemma dispatch_yield: "a_number args = SYSCALL_YIELD \<Longrightarrow> syscall_dispatch (Some args) s = handle_yield args s"
  by (simp add: syscall_dispatch_def s_table_def)

lemma after_yield_band:
  assumes "\<forall>x \<in> set xs. t_priority (tcb s x) = t_priority (tcb s c)"
    and "\<forall>x \<in> set rest. t_priority (tcb s c) < t_priority (tcb s x)"
  shows "after_yield c s (xs @ rest) = rotate1 (c # xs) @ rest"
  unfolding after_yield_def using assms
  by (subst while_split(1) [of xs _ rest], simp, simp add: not_le,
      subst while_split(2) [of xs _ rest], simp, simp add: not_le, simp)

lemma yields_rotate:
  assumes num: "a_number args = SYSCALL_YIELD" and "cpu_ok c (y_sched s) qs"
    and "queued qs = xs @ rest" and "length (xs @ rest) < 32"
    and "\<forall>x \<in> set xs. t_priority (tcb (y_sched s) x) = t_priority (tcb (y_sched s) c)"
    and "\<forall>x \<in> set rest. t_priority (tcb (y_sched s) c) < t_priority (tcb (y_sched s) x)"
  shows "\<exists>s' qs'. yields k args s = Some s' \<and> cpu_ok (hd (rotate k (c # xs))) (y_sched s') qs'
    \<and> queued qs' = tl (rotate k (c # xs)) @ rest"
  using assms(2-)
proof (induction k arbitrary: c s qs xs)
  case 0
  then show ?case by auto
next
  case (Suc k)
  obtain n ts where n: "rotate1 (c # xs) = n # ts" by (cases "rotate1 (c # xs)") auto
  have up: "after_yield c (y_sched s) (queued qs) = n # ts @ rest"
    using after_yield_band [of xs "y_sched s" c rest] Suc.prems n by simp
  have room: "length (queued qs) < 32" using Suc.prems by simp
  obtain s1 qs1 where s1: "handle_yield args s = Some (Switch_to n Return_OK, s1)"
    "cpu_ok n (y_sched s1) qs1" "queued qs1 = ts @ rest"
    and pr: "\<forall>x. t_priority (tcb (y_sched s1) x) = t_priority (tcb (y_sched s) x)"
    by (rule yield_switches [OF Suc.prems(1) room up, of args])
  have set: "set (n # ts) = set (c # xs)" and len: "length (n # ts) = length (c # xs)"
    using n set_rotate1 [of "c # xs"] length_rotate1 [of "c # xs"] by simp_all
  have prio: "t_priority (tcb (y_sched s) x) = t_priority (tcb (y_sched s) c)" if "x \<in> set (n # ts)" for x
    using that Suc.prems(4) unfolding set by auto
  have "length (ts @ rest) < 32" using len Suc.prems(3) by simp
  moreover have "\<forall>x \<in> set ts. t_priority (tcb (y_sched s1) x) = t_priority (tcb (y_sched s1) n)"
    using prio pr by simp
  moreover have "\<forall>x \<in> set rest. t_priority (tcb (y_sched s1) n) < t_priority (tcb (y_sched s1) x)"
    using prio [of n] pr Suc.prems(5) by simp
  ultimately obtain s' qs' where "yields k args s1 = Some s'" "cpu_ok (hd (rotate k (n # ts))) (y_sched s') qs'"
    "queued qs' = tl (rotate k (n # ts)) @ rest"
    using Suc.IH [OF s1(2,3)] by blast
  moreover have "rotate (Suc k) (c # xs) = rotate k (n # ts)"
    using n rotate_Suc by (metis rotate1_rotate_swap)
  ultimately show ?case using s1(1) dispatch_yield [OF num] by auto
qed

text \<open>
  With 32 threads waiting the yielding thread cannot be queued: the call returns as if
  nothing had happened, but the thread that goes on running is marked READY.
\<close>

lemma yield_queue_full:
  assumes ok: "cpu_ok c (y_sched s) qs" and full: "length (queued qs) = 32"
  shows "\<exists>s'. handle_yield args s = Some (Done SYSCALL_OK, s') \<and> s_current (y_sched s') = Some c
    \<and> sched_ok (y_sched s') qs \<and> c \<notin> set (queued qs) \<and> t_state (tcb (y_sched s') c) = PROCESS_STATE_READY
    \<and> (\<forall>x. t_state (tcb (y_sched s') x) \<noteq> PROCESS_STATE_RUNNING)"
proof -
  let ?sc = "(set_tcb c ((tcb (y_sched s) c)\<lparr>t_state := PROCESS_STATE_READY,
      t_ticks_remaining := SCHED_DEFAULT_QUANTUM\<rparr>) (y_sched s))\<lparr>s_preempt_requested := False\<rparr>"
  note c = cpu_ok_current [OF ok]
  have ok': "sched_ok ?sc qs" using c by (simp add: sched_ok_set_unqueued)
  have "sched_enqueue (Some c) ?sc = Some (False, ?sc)"
    using sched_enqueue_accepts [OF ok', of c] full by simp
  with c ok ok' show ?thesis
    by (intro exI [of _ "set_sched ?sc s"])
      (auto simp: handle_yield_def sched_yield_def Let_def set_sched_def set_tcb_def cpu_ok_def)
qed

subsection \<open>Every call returns\<close>

text \<open>A thread that is neither waiting in a run queue nor blocked.\<close>

definition unqueued :: "tptr \<Rightarrow> sched \<Rightarrow> bool" where
  "unqueued c sc \<longleftrightarrow> (\<exists>qs. sched_ok sc qs \<and> c \<notin> set (queued qs)) \<and> t_state (tcb sc c) \<noteq> PROCESS_STATE_BLOCKED"

definition current_ok :: "sched \<Rightarrow> bool" where
  "current_ok sc \<longleftrightarrow> (\<forall>c. s_current sc = Some c \<longrightarrow> unqueued c sc \<and> unat (t_priority (tcb sc c)) < 8)"

definition sys_ok :: "sys_state \<Rightarrow> bool" where
  "sys_ok s \<longleftrightarrow> ipc_ok (y_ipc s) \<and> (\<forall>a. msg_ok (y_mem s a)) \<and> current_ok (y_sched s)"

text \<open>The results a call may end with.\<close>

definition result_codes :: "int set" where
  "result_codes = {SYSCALL_ERR_INVAL, SYSCALL_ERR_AGAIN, SYSCALL_ERR_FULL, SYSCALL_ERR_EMPTY, SYSCALL_ERR_NOSYS}
     \<union> {0..7}"

definition call_ok :: "(sys_outcome \<times> sys_state) option \<Rightarrow> bool" where
  "call_ok r \<longleftrightarrow> (\<exists>oc s'. r = Some (oc, s') \<and> (\<forall>x. oc = Done x \<longrightarrow> x \<in> result_codes)
     \<and> (oc \<noteq> Done SYSCALL_ERR_AGAIN \<longrightarrow> sys_ok s'))"

lemma call_okI:
  "r = Some (oc, s') \<Longrightarrow> (\<And>x. oc = Done x \<Longrightarrow> x \<in> result_codes)
     \<Longrightarrow> (oc \<noteq> Done SYSCALL_ERR_AGAIN \<Longrightarrow> sys_ok s') \<Longrightarrow> call_ok r"
  by (auto simp: call_ok_def)

text \<open>A scheduler state that keeps what \<^const>\<open>sys_ok\<close> asks of it.\<close>

definition keeps_sched :: "sched \<Rightarrow> sched \<Rightarrow> bool" where
  "keeps_sched sc sc' \<longleftrightarrow> (\<exists>qs. sched_ok sc' qs) \<and> s_current sc' = s_current sc
     \<and> (\<forall>x. t_priority (tcb sc' x) = t_priority (tcb sc x)) \<and> (\<forall>x. unqueued x sc \<longrightarrow> unqueued x sc')"

lemma keeps_current_ok: "keeps_sched sc sc' \<Longrightarrow> current_ok sc \<Longrightarrow> current_ok sc'"
  by (simp add: keeps_sched_def current_ok_def)

lemma keeps_sched_refl: "sched_ok sc qs \<Longrightarrow> keeps_sched sc sc"
  by (auto simp: keeps_sched_def)

lemma wake_keeps:
  assumes "sched_ok sc qs"
  shows "\<exists>sc'. wake w sc = Some sc' \<and> keeps_sched sc sc'"
proof (cases "\<exists>t. w = Some t \<and> t_state (tcb sc t) = PROCESS_STATE_BLOCKED")
  case True
  then obtain t where t: "w = Some t" "t_state (tcb sc t) = PROCESS_STATE_BLOCKED" by blast
  obtain sc' where "sched_unblock (Some t) sc = Some (can_enqueue (make_ready t sc) qs t, sc')"
    "sched_ok sc' (enqueued (make_ready t sc) qs t)" "same_but_next (tcb (make_ready t sc)) (tcb sc')"
    "s_current sc' = s_current sc"
    by (rule sched_unblock_ok [OF assms t(2)])
  moreover have "unqueued c sc'" if c: "unqueued c sc" for c
  proof -
    obtain qs' where q: "sched_ok sc qs'" "c \<notin> set (queued qs')" "t_state (tcb sc c) \<noteq> PROCESS_STATE_BLOCKED"
      using c by (auto simp: unqueued_def)
    obtain sc2 where sc2: "sched_unblock (Some t) sc = Some (can_enqueue (make_ready t sc) qs' t, sc2)"
      "sched_ok sc2 (enqueued (make_ready t sc) qs' t)" "same_but_next (tcb (make_ready t sc)) (tcb sc2)"
      by (rule sched_unblock_ok [OF q(1) t(2)])
    have "c \<noteq> t" using q(3) t(2) by auto
    moreover have "set (queued (enqueued (make_ready t sc) qs' t)) \<subseteq> insert t (set (queued qs'))"
      by (auto simp: enqueued_def can_enqueue_def Let_def set_queued in_bands split: if_splits)
    moreover have "sc2 = sc'" using sc2(1) \<open>sched_unblock (Some t) sc = Some (_, sc')\<close> by simp
    ultimately show ?thesis
      using sc2 q by (auto simp: unqueued_def same_but_next_fields make_ready_def set_tcb_def)
  qed
  ultimately show ?thesis
    using t(1) by (auto simp: wake_def keeps_sched_def same_but_next_fields make_ready_def set_tcb_def)
next
  case False
  with assms show ?thesis
    by (cases w) (auto simp: wake_def sched_unblock_refuses intro: keeps_sched_refl)
qed

lemma chan_put_ok:
  assumes "ipc_ok s" and "chan_wf i c" and "keeps_sched (i_sched s) sc"
  shows "ipc_ok ((set_chan i c s)\<lparr>i_sched := sc\<rparr>)"
  using assms by (auto simp: ipc_ok_def keeps_sched_def ipc_inv_set_chan)

lemma trysend_total:
  assumes ok: "ipc_ok s" and msg: "\<And>m. msg = Some m \<Longrightarrow> msg_ok m"
  obtains r s' where "ipc_trysend h msg s = Some (r, s')" and "r \<in> {IPC_OK, IPC_ERR_INVAL, IPC_ERR_FULL}"
    and "ipc_ok s'" and "keeps_sched (i_sched s) (i_sched s')"
proof -
  obtain qs where inv: "ipc_inv s" "sched_ok (i_sched s) qs" using ok by (auto simp: ipc_ok_def)
  show ?thesis
  proof (cases "\<exists>m i. msg = Some m \<and> chan_from_handle h s = Some i \<and> unat (c_count (s_channels s i)) \<noteq> 8")
    case True
    then obtain m i where i: "msg = Some m" "chan_from_handle h s = Some i" "unat (c_count (s_channels s i)) \<noteq> 8"
      by blast
    obtain sc where sc: "wake (c_blocked_receiver (s_channels s i)) (i_sched s) = Some sc" "keeps_sched (i_sched s) sc"
      using wake_keeps [OF inv(2)] by blast
    have wf: "chan_wf i (s_channels s i)" using inv(1) chan_from_handle_Some [OF i(2)] by (simp add: ipc_inv_def)
    then have "chan_wf i (chan_push m (s_channels s i))"
      using i(3) msg [OF i(1)] by (intro chan_push_wf) (auto simp: chan_wf_def ring_wf_def)
    then show ?thesis
      using i sc ok by (intro that [of IPC_OK "(set_chan i ((chan_push m (s_channels s i))\<lparr>c_blocked_receiver := None\<rparr>) s)\<lparr>i_sched := sc\<rparr>"])
        (simp_all add: trysend_eval [OF inv(1)] chan_put_ok)
  next
    case False
    then have "\<exists>r \<in> {- 1, - 2}. ipc_trysend h msg s = Some (r, s)"
      by (auto simp: trysend_eval [OF inv(1)] split: option.split)
    then show ?thesis using ok keeps_sched_refl [OF inv(2)] by (auto intro: that)
  qed
qed

lemma tryrecv_total:
  assumes ok: "ipc_ok s" and msg: "\<And>m. out = Some m \<Longrightarrow> msg_ok m"
  obtains r out' s' where "ipc_tryrecv h ty out s = Some (r, out', s')"
    and "r \<in> {IPC_OK, IPC_ERR_INVAL, IPC_ERR_EMPTY, IPC_ERR_TYPE}"
    and "ipc_ok s'" and "keeps_sched (i_sched s) (i_sched s')" and "\<forall>m. out' = Some m \<longrightarrow> msg_ok m"
proof -
  obtain qs where inv: "ipc_inv s" "sched_ok (i_sched s) qs" using ok by (auto simp: ipc_ok_def)
  show ?thesis
  proof (cases "\<exists>dst i m ms. out = Some dst \<and> chan_from_handle h s = Some i \<and> chan_abs (s_channels s i) = m # ms
      \<and> (ty = 0 \<or> m_type m = ty)")
    case True
    then obtain dst i m ms where i: "out = Some dst" "chan_from_handle h s = Some i"
      "chan_abs (s_channels s i) = m # ms" "ty = 0 \<or> m_type m = ty" by blast
    obtain sc where sc: "wake (c_blocked_sender (s_channels s i)) (i_sched s) = Some sc" "keeps_sched (i_sched s) sc"
      using wake_keeps [OF inv(2)] by blast
    have wf: "chan_wf i (s_channels s i)" using inv(1) chan_from_handle_Some [OF i(2)] by (simp add: ipc_inv_def)
    have cnt: "c_count (s_channels s i) \<noteq> 0" using i(3) by (simp add: chan_empty_abs)
    have "m = c_ring (s_channels s i) (unat (c_head (s_channels s i)))"
      using chan_pop_abs(1) [of "s_channels s i"] wf cnt i(3) by (simp add: chan_wf_def)
    then have "msg_ok (msg_copy dst m)"
      using wf msg [OF i(1)] msg_copy_eq [of m dst] by (auto simp: chan_wf_def ring_wf_def)
    then show ?thesis
      using i sc ok chan_pop_wf [OF wf cnt]
      by (intro that [of IPC_OK "Some (msg_copy dst m)" "(set_chan i ((chan_pop (s_channels s i))\<lparr>c_blocked_sender := None\<rparr>) s)\<lparr>i_sched := sc\<rparr>"])
        (auto simp: tryrecv_eval [OF inv(1)] chan_put_ok)
  next
    case False
    then have "\<exists>r \<in> {- 1, - 3, - 5}. ipc_tryrecv h ty out s = Some (r, out, s)"
      by (auto simp: tryrecv_eval [OF inv(1)] split: option.split list.split)
    then show ?thesis using ok msg keeps_sched_refl [OF inv(2)] by (auto intro: that)
  qed
qed

lemma undo_block_returns:
  assumes "sched_ok sc qs" and "cur \<notin> set (queued qs)"
  shows "\<exists>sc'. undo_block cur sc = Some sc'"
proof -
  have "sched_ok (set_tcb cur ((tcb sc cur)\<lparr>t_state := PROCESS_STATE_READY\<rparr>) sc) qs"
    using assms by (rule sched_ok_set_unqueued)
  then show ?thesis by (rule sched_enqueue_rep [of _ _ cur]) (auto simp: undo_block_def)
qed

lemma switch_current_ok:
  assumes "sched_ok sc qs" and "n \<notin> set (queued qs)" and "unat (t_priority (tcb sc n)) < 8"
  shows "(\<exists>qs2. sched_ok (sched_context_switch (Some cur) (Some n) sc) qs2) \<and>
      s_current (sched_context_switch (Some cur) (Some n) sc) = Some n \<and>
      current_ok (sched_context_switch (Some cur) (Some n) sc)"
proof -
  have "sched_ok (sched_context_switch (Some cur) (Some n) sc) qs"
    using assms by (simp add: sched_context_switch_def sched_ok_set_unqueued)
  with assms(2,3) show ?thesis
    by (auto simp: current_ok_def unqueued_def sched_context_switch_def set_tcb_def)
qed

text \<open>What every path that blocks the current thread does with the scheduler.\<close>

lemma block_current:
  assumes ok: "sched_ok sc qs"
  obtains b sc1 where "sched_block (Some cur) sc = Some (b, sc1)" and "\<not> b \<longrightarrow> sc1 = sc"
    and "\<forall>sc2. sched_dequeue sc1 = (None, sc2) \<longrightarrow> (\<exists>sc3. undo_block cur sc2 = Some sc3)"
    and "\<forall>n sc2. sched_dequeue sc1 = (Some n, sc2) \<longrightarrow>
      (\<exists>qs2. sched_ok (sched_context_switch (Some cur) (Some n) sc2) qs2) \<and>
      s_current (sched_context_switch (Some cur) (Some n) sc2) = Some n \<and>
      current_ok (sched_context_switch (Some cur) (Some n) sc2)"
proof -
  obtain sc1 qs1 where sc1: "sched_block (Some cur) sc =
      Some (t_state (tcb sc cur) \<in> {PROCESS_STATE_BLOCKED, PROCESS_STATE_RUNNING} \<or> cur \<in> set (queued qs), sc1)"
    "sched_ok sc1 qs1" "queued qs1 = filter (\<lambda>x. x \<noteq> cur) (queued qs)"
    by (rule sched_block_ok [OF ok, of cur])
  have cur: "cur \<notin> set (queued qs1)" using sc1(3) by simp
  have none: "\<exists>sc3. undo_block cur sc2 = Some sc3" if "sched_dequeue sc1 = (None, sc2)" for sc2
  proof (cases "queued qs1")
    case Nil
    then show ?thesis using that undo_block_returns [OF sc1(2) cur] sched_dequeue_empty [OF sc1(2)] by simp
  next
    case (Cons n ts)
    then show ?thesis using sched_dequeue_head [OF sc1(2) Cons] that by (metis option.discI prod.inject)
  qed
  have some: "(\<exists>qs2. sched_ok (sched_context_switch (Some cur) (Some n) sc2) qs2) \<and>
      s_current (sched_context_switch (Some cur) (Some n) sc2) = Some n \<and>
      current_ok (sched_context_switch (Some cur) (Some n) sc2)"
    if d: "sched_dequeue sc1 = (Some n, sc2)" for n sc2
  proof (cases "queued qs1")
    case Nil
    then show ?thesis using d sched_dequeue_empty [OF sc1(2)] by simp
  next
    case (Cons m ts)
    obtain qs2 where q: "m = n" "sched_ok sc2 qs2" "queued qs2 = ts" "same_but_next (tcb sc1) (tcb sc2)"
      by (rule sched_dequeue_head [OF sc1(2) Cons]) (use d in auto)
    have "distinct (m # ts)" using sc1(2) Cons by (simp add: sched_ok_def sched_rep_def)
    then have "n \<notin> set (queued qs2)" using q by simp
    moreover have "unat (t_priority (tcb sc1 n)) < 8" using sched_ok_queued(3) [OF sc1(2), of n] Cons q(1) by simp
    ultimately show ?thesis
      using q switch_current_ok [OF q(2), of n cur] by (simp add: same_but_next_fields)
  qed
  have "sc1 = sc" if "\<not> (t_state (tcb sc cur) \<in> {PROCESS_STATE_BLOCKED, PROCESS_STATE_RUNNING} \<or> cur \<in> set (queued qs))"
    using sc1(1) that queue_remove_absent [OF ok, of cur] by (auto simp: sched_block_def split: if_splits)
  with none some show ?thesis by (intro that [OF sc1(1)]) blast+
qed

lemma ipc_ok_waiter:
  assumes "ipc_ok s" and "\<exists>qs. sched_ok sc qs"
  shows "ipc_ok ((set_chan i ((s_channels s i)\<lparr>c_blocked_sender := w\<rparr>) s)\<lparr>i_sched := sc\<rparr>)"
    and "ipc_ok ((set_chan i ((s_channels s i)\<lparr>c_blocked_receiver := w\<rparr>) s)\<lparr>i_sched := sc\<rparr>)"
  using assms by (auto simp: ipc_ok_def ipc_inv_def)

definition iter_ok :: "ipc_outcome \<Rightarrow> ipc_sys \<Rightarrow> ipc_sys \<Rightarrow> bool" where
  "iter_ok oc s s' \<longleftrightarrow>
     (case oc of
        Returned r \<Rightarrow> r \<in> {IPC_OK, IPC_ERR_INVAL, IPC_ERR_AGAIN, IPC_ERR_TYPE}
          \<and> (r \<noteq> IPC_ERR_AGAIN \<longrightarrow> ipc_ok s' \<and> keeps_sched (i_sched s) (i_sched s'))
      | Switched n \<Rightarrow> ipc_ok s' \<and> s_current (i_sched s') = Some n \<and> current_ok (i_sched s'))"

lemma send_iter_total:
  assumes ok: "ipc_ok s" and msg: "\<And>m. msg = Some m \<Longrightarrow> msg_ok m"
  shows "\<exists>oc s'. ipc_send_iter h msg i s = Some (oc, s') \<and> iter_ok oc s s'"
proof -
  obtain r s1 where s1: "ipc_trysend h msg s = Some (r, s1)" "r \<in> {IPC_OK, IPC_ERR_INVAL, IPC_ERR_FULL}"
    "ipc_ok s1" "keeps_sched (i_sched s) (i_sched s1)"
    using trysend_total [OF ok msg] by metis
  show ?thesis
  proof (cases "r = IPC_ERR_FULL \<and> sched_get_current (i_sched s1) \<noteq> None")
    case False
    with s1 show ?thesis by (auto simp: ipc_send_iter_def iter_ok_def)
  next
    case True
    then obtain cur where cur: "r = IPC_ERR_FULL" "sched_get_current (i_sched s1) = Some cur" by auto
    obtain qs where "sched_ok (i_sched s1) qs" using s1(3) by (auto simp: ipc_ok_def)
    then obtain b sc1 where sc1: "sched_block (Some cur) (i_sched s1) = Some (b, sc1)"
      "\<forall>sc2. sched_dequeue sc1 = (None, sc2) \<longrightarrow> (\<exists>sc3. undo_block cur sc2 = Some sc3)"
      "\<forall>n sc2. sched_dequeue sc1 = (Some n, sc2) \<longrightarrow>
        (\<exists>qs2. sched_ok (sched_context_switch (Some cur) (Some n) sc2) qs2) \<and>
        s_current (sched_context_switch (Some cur) (Some n) sc2) = Some n \<and>
        current_ok (sched_context_switch (Some cur) (Some n) sc2)"
      by (rule block_current [of _ _ cur])
    show ?thesis
    proof (cases "sched_dequeue sc1")
      case (Pair n sc2)
      with s1 cur sc1 show ?thesis
        by (cases n; cases b)
          (auto simp: ipc_send_iter_def iter_ok_def Let_def intro!: ipc_ok_waiter)
    qed
  qed
qed

lemma recv_iter_total:
  assumes ok: "ipc_ok s" and msg: "\<And>m. out = Some m \<Longrightarrow> msg_ok m"
  shows "\<exists>oc out' s'. ipc_recv_iter h ty out i s = Some (oc, out', s') \<and> iter_ok oc s s'
    \<and> (\<forall>m. out' = Some m \<longrightarrow> msg_ok m)"
proof -
  obtain r out1 s1 where s1: "ipc_tryrecv h ty out s = Some (r, out1, s1)"
    "r \<in> {IPC_OK, IPC_ERR_INVAL, IPC_ERR_EMPTY, IPC_ERR_TYPE}"
    "ipc_ok s1" "keeps_sched (i_sched s) (i_sched s1)" "\<forall>m. out1 = Some m \<longrightarrow> msg_ok m"
    using tryrecv_total [OF ok msg] by metis
  show ?thesis
  proof (cases "r = IPC_ERR_EMPTY \<and> sched_get_current (i_sched s1) \<noteq> None")
    case False
    with s1 show ?thesis by (auto simp: ipc_recv_iter_def iter_ok_def)
  next
    case True
    then obtain cur where cur: "r = IPC_ERR_EMPTY" "sched_get_current (i_sched s1) = Some cur" by auto
    obtain qs where "sched_ok (i_sched s1) qs" using s1(3) by (auto simp: ipc_ok_def)
    then obtain b sc1 where sc1: "sched_block (Some cur) (i_sched s1) = Some (b, sc1)"
      "\<forall>sc2. sched_dequeue sc1 = (None, sc2) \<longrightarrow> (\<exists>sc3. undo_block cur sc2 = Some sc3)"
      "\<forall>n sc2. sched_dequeue sc1 = (Some n, sc2) \<longrightarrow>
        (\<exists>qs2. sched_ok (sched_context_switch (Some cur) (Some n) sc2) qs2) \<and>
        s_current (sched_context_switch (Some cur) (Some n) sc2) = Some n \<and>
        current_ok (sched_context_switch (Some cur) (Some n) sc2)"
      by (rule block_current [of _ _ cur])
    show ?thesis
    proof (cases "sched_dequeue sc1")
      case (Pair n sc2)
      with s1 cur sc1 show ?thesis
        by (cases n; cases b)
          (auto simp: ipc_recv_iter_def iter_ok_def Let_def intro!: ipc_ok_waiter)
    qed
  qed
qed

lemma sys_ok_step:
  assumes "sys_ok s" and "ipc_ok ip" and "keeps_sched (y_sched s) (i_sched ip)"
  shows "sys_ok (s\<lparr>y_ipc := ip\<rparr>)"
  using assms keeps_current_ok by (simp add: sys_ok_def)

lemma sys_ok_store: "sys_ok s \<Longrightarrow> (\<forall>m. out = Some m \<longrightarrow> msg_ok m) \<Longrightarrow> sys_ok (store_msg a out s)"
  by (cases out) (auto simp: sys_ok_def store_msg_def)

lemma sys_ok_set_sched:
  assumes "sys_ok s" and "\<exists>qs. sched_ok sc qs" and "current_ok sc"
  shows "sys_ok (set_sched sc s)"
  using assms by (auto simp: sys_ok_def set_sched_def ipc_ok_def)

lemma sys_ok_sched: assumes "sys_ok s" obtains qs where "sched_ok (y_sched s) qs"
  using assms by (auto simp: sys_ok_def ipc_ok_def)

lemma result_code_ok:
  "x \<in> {IPC_OK, IPC_ERR_INVAL, IPC_ERR_FULL, IPC_ERR_EMPTY, IPC_ERR_AGAIN, IPC_ERR_TYPE}
     \<Longrightarrow> ipc_result_to_syscall_result x \<in> result_codes"
  by (auto simp: ipc_result_to_syscall_result_def result_codes_def)

lemma result_again: "ipc_result_to_syscall_result IPC_ERR_AGAIN = SYSCALL_ERR_AGAIN"
  by (simp add: ipc_result_to_syscall_result_def)

lemma msg_at_ok: "sys_ok s \<Longrightarrow> msg_at a s = Some m \<Longrightarrow> msg_ok m"
  by (auto simp: sys_ok_def msg_at_def split: if_splits)

lemma send_outcome_ok:
  assumes "sys_ok s" and "iter_ok oc (y_ipc s) ip"
  shows "call_ok (Some (send_outcome h a i oc, s\<lparr>y_ipc := ip\<rparr>))"
proof (cases oc)
  case (Returned r)
  with assms have "r \<noteq> IPC_ERR_AGAIN \<Longrightarrow> sys_ok (s\<lparr>y_ipc := ip\<rparr>)" by (auto simp: iter_ok_def intro: sys_ok_step)
  moreover have "ipc_result_to_syscall_result r \<in> result_codes"
    using assms(2) Returned by (intro result_code_ok) (auto simp: iter_ok_def)
  ultimately show ?thesis using Returned result_again by (auto simp: call_ok_def send_outcome_def)
next
  case (Switched n)
  with assms show ?thesis by (auto simp: call_ok_def send_outcome_def iter_ok_def sys_ok_def)
qed

lemma recv_outcome_ok:
  assumes "sys_ok s" and "iter_ok oc (y_ipc s) ip" and out: "\<forall>m. out = Some m \<longrightarrow> msg_ok m"
  shows "call_ok (Some (recv_outcome h ty a i oc, store_msg b out (s\<lparr>y_ipc := ip\<rparr>)))"
proof -
  have "call_ok (Some (send_outcome h a i oc, s\<lparr>y_ipc := ip\<rparr>))" using send_outcome_ok [OF assms(1,2)] .
  then show ?thesis
    using sys_ok_store [OF _ out] by (cases oc) (auto simp: call_ok_def send_outcome_def recv_outcome_def)
qed

lemma handle_yield_ok:
  assumes ok: "sys_ok s"
  shows "call_ok (handle_yield args s)"
proof (cases "sched_get_current (y_sched s)")
  case None
  with ok show ?thesis by (auto simp: handle_yield_def call_ok_def result_codes_def)
next
  case (Some c)
  have c8: "s_current (y_sched s) = Some c" "unat (t_priority (tcb (y_sched s) c)) < 8" "unqueued c (y_sched s)"
    using ok Some by (auto simp: sys_ok_def current_ok_def sched_get_current_def)
  then obtain qs where qs: "sched_ok (y_sched s) qs" and c: "c \<notin> set (queued qs)" by (auto simp: unqueued_def)
  show ?thesis
  proof (cases "t_state (tcb (y_sched s) c) = PROCESS_STATE_RUNNING")
    case False
    have "set_sched (y_sched s) s = s" by (simp add: set_sched_def)
    with False Some ok show ?thesis by (auto simp: handle_yield_def sched_yield_def call_ok_def result_codes_def)
  next
    case True
    let ?sc = "(set_tcb c ((tcb (y_sched s) c)\<lparr>t_state := PROCESS_STATE_READY,
        t_ticks_remaining := SCHED_DEFAULT_QUANTUM\<rparr>) (y_sched s))\<lparr>s_preempt_requested := False\<rparr>"
    have ok': "sched_ok ?sc qs" using qs c by (simp add: sched_ok_set_unqueued)
    obtain s1 where s1: "sched_enqueue (Some c) ?sc = Some (can_enqueue ?sc qs c, s1)"
      "sched_ok s1 (enqueued ?sc qs c)" "same_but_next (tcb ?sc) (tcb s1)" "s_current s1 = s_current ?sc"
      and refused: "\<not> can_enqueue ?sc qs c \<longrightarrow> s1 = ?sc"
      by (rule sched_enqueue_rep [OF ok'])
    have y: "sched_yield (Some c) (y_sched s) = Some (can_enqueue ?sc qs c, s1)"
      using True s1(1) by (simp add: sched_yield_def Let_def)
    show ?thesis
    proof (cases "can_enqueue ?sc qs c")
      case False
      then have "current_ok s1" using refused ok' c c8 by (auto simp: current_ok_def unqueued_def set_tcb_def)
      then have "sys_ok (set_sched s1 s)" using s1(2) by (intro sys_ok_set_sched [OF ok]) auto
      with False y Some show ?thesis by (auto simp: handle_yield_def call_ok_def result_codes_def)
    next
      case True
      have "queued (enqueued ?sc qs c) = after_yield c (y_sched s) (queued qs)"
        using True queued_append_position [OF qs c8(2), of c] c8(2)
        by (simp add: enqueued_def Let_def set_tcb_def after_yield_def word_le_nat_alt)
      then obtain n ts where n: "queued (enqueued ?sc qs c) = n # ts"
        using after_yield_Cons by metis
      obtain s2 qs2 where s2: "sched_dequeue s1 = (Some n, s2)" "sched_ok s2 qs2" "queued qs2 = ts"
        "same_but_next (tcb s1) (tcb s2)" by (rule sched_dequeue_head [OF s1(2) n])
      have "distinct (n # ts)" using s1(2) n by (simp add: sched_ok_def sched_rep_def)
      moreover have "unat (t_priority (tcb s1 n)) < 8" using sched_ok_queued(3) [OF s1(2), of n] n by simp
      ultimately have "sys_ok (set_sched (sched_context_switch (Some c) (Some n) s2) s)"
        using switch_current_ok [OF s2(2), of n c] s2(3)
        by (intro sys_ok_set_sched [OF ok]) (simp_all add: same_but_next_fields [OF s2(4)])
      with y Some True s2(1) show ?thesis by (auto simp: handle_yield_def call_ok_def)
    qed
  qed
qed

lemma handle_sched_block_ok:
  assumes ok: "sys_ok s"
  shows "call_ok (handle_sched_block args s)"
proof (cases "sched_get_current (y_sched s)")
  case None
  with ok show ?thesis by (auto simp: handle_sched_block_def call_ok_def result_codes_def)
next
  case (Some c)
  obtain qs where qs: "sched_ok (y_sched s) qs" using ok by (rule sys_ok_sched)
  obtain b s1 where s1: "sched_block (Some c) (y_sched s) = Some (b, s1)" "\<not> b \<longrightarrow> s1 = y_sched s"
    and none: "\<forall>s2. sched_dequeue s1 = (None, s2) \<longrightarrow> (\<exists>s3. undo_block c s2 = Some s3)"
    and some: "\<forall>n s2. sched_dequeue s1 = (Some n, s2) \<longrightarrow>
      (\<exists>qs2. sched_ok (sched_context_switch (Some c) (Some n) s2) qs2) \<and>
      s_current (sched_context_switch (Some c) (Some n) s2) = Some n \<and>
      current_ok (sched_context_switch (Some c) (Some n) s2)"
    by (rule block_current [OF qs, of c])
  have keep: "\<not> b \<Longrightarrow> sys_ok (set_sched s1 s)" using ok s1(2) by (simp add: set_sched_def)
  obtain n s2 where d: "sched_dequeue s1 = (n, s2)" by fastforce
  show ?thesis
  proof (cases "\<not> b \<or> n = None")
    case True
    have "\<exists>r. sched_enqueue (Some c) (set_tcb c ((tcb s2 c)\<lparr>t_state := PROCESS_STATE_READY\<rparr>) s2) = Some r" if "n = None"
      using none d that by (auto simp: undo_block_def split: Option.bind_splits)
    with True s1(1) keep Some d show ?thesis
      by (auto simp: handle_sched_block_def call_ok_def result_codes_def split: option.split)
  next
    case False
    then obtain m where m: "n = Some m" b by auto
    with some d have "sys_ok (set_sched (sched_context_switch (Some c) (Some m) s2) s)"
      by (auto intro: sys_ok_set_sched [OF ok])
    with s1(1) Some d m show ?thesis by (auto simp: handle_sched_block_def call_ok_def)
  qed
qed

lemma handle_set_priority_ok:
  assumes ok: "sys_ok s"
  shows "call_ok (handle_sched_set_priority args s)"
proof -
  have "sys_ok (set_sched (set_tcb c ((tcb (y_sched s) c)\<lparr>t_priority := p\<rparr>) (y_sched s)) s)"
    if c: "s_current (y_sched s) = Some c" "\<not> 8 \<le> p" for c p
  proof -
    obtain qs where "sched_ok (y_sched s) qs" "c \<notin> set (queued qs)"
      "t_state (tcb (y_sched s) c) \<noteq> PROCESS_STATE_BLOCKED"
      using ok c(1) by (auto simp: sys_ok_def current_ok_def unqueued_def)
    moreover from this have "sched_ok (set_tcb c ((tcb (y_sched s) c)\<lparr>t_priority := p\<rparr>) (y_sched s)) qs"
      by (intro sched_ok_set_unqueued)
    ultimately show ?thesis
      using c by (intro sys_ok_set_sched [OF ok])
        (auto simp: current_ok_def unqueued_def set_tcb_def word_le_nat_alt not_le)
  qed
  then show ?thesis
    using ok by (auto simp: handle_sched_set_priority_def call_ok_def result_codes_def Let_def sched_get_current_def
        split: option.split)
qed

lemma slot_of_open: "open_chan h null s = Inr i \<Longrightarrow> slot_of h = i"
  by (auto simp: open_chan_def chan_from_handle_def slot_of_def Let_def
      split: if_splits option.splits channel_state_t.splits)

lemma open_chan_error: "ipc_ok s \<Longrightarrow> open_chan h null s = Inl e \<Longrightarrow> e = IPC_ERR_INVAL"
  by (auto simp: ipc_ok_def open_chan_inv split: if_splits option.splits)

lemma iter_ok_refl: "ipc_ok s \<Longrightarrow> iter_ok (Returned IPC_ERR_INVAL) s s"
  by (auto simp: iter_ok_def ipc_ok_def keeps_sched_refl)

lemma handle_ipc_send_ok:
  assumes ok: "sys_ok s"
  shows "call_ok (handle_ipc_send args s)"
proof -
  let ?m = "msg_at (a_arg1 args) s" and ?h = "arg_u32 (a_arg0 args)"
  have ip: "ipc_ok (y_ipc s)" using ok by (simp add: sys_ok_def)
  have "\<exists>oc ip'. ipc_send ?h ?m (y_ipc s) = Some (oc, ip') \<and> iter_ok oc (y_ipc s) ip'"
    using send_iter_total [OF ip, of ?m] msg_at_ok [OF ok] open_chan_error [OF ip] iter_ok_refl [OF ip]
    by (auto simp: ipc_send_def split: sum.split)
  then show ?thesis using send_outcome_ok [OF ok] by (auto simp: handle_ipc_send_def Let_def)
qed

lemma handle_ipc_recv_ok:
  assumes ok: "sys_ok s"
  shows "call_ok (handle_ipc_recv args s)"
proof -
  let ?m = "msg_at (a_arg2 args) s" and ?h = "arg_u32 (a_arg0 args)" and ?ty = "arg_u32 (a_arg1 args)"
  have ip: "ipc_ok (y_ipc s)" using ok by (simp add: sys_ok_def)
  have "\<exists>oc out ip'. ipc_recv ?h ?ty ?m (y_ipc s) = Some (oc, out, ip') \<and> iter_ok oc (y_ipc s) ip'
      \<and> (\<forall>m. out = Some m \<longrightarrow> msg_ok m)"
    using recv_iter_total [OF ip, of ?m] msg_at_ok [OF ok] open_chan_error [OF ip] iter_ok_refl [OF ip]
    by (auto simp: ipc_recv_def split: sum.split)
  then show ?thesis using recv_outcome_ok [OF ok] by (auto simp: handle_ipc_recv_def Let_def)
qed

lemma handle_ipc_trysend_ok:
  assumes ok: "sys_ok s"
  shows "call_ok (handle_ipc_trysend args s)"
proof -
  have ip: "ipc_ok (y_ipc s)" using ok by (simp add: sys_ok_def)
  obtain r ip' where "ipc_trysend (arg_u32 (a_arg0 args)) (msg_at (a_arg1 args) s) (y_ipc s) = Some (r, ip')"
    "r \<in> {IPC_OK, IPC_ERR_INVAL, IPC_ERR_FULL}" "ipc_ok ip'" "keeps_sched (y_sched s) (i_sched ip')"
    by (rule trysend_total [OF ip msg_at_ok [OF ok]])
  then show ?thesis
    using sys_ok_step [OF ok] result_code_ok [of r] by (auto simp: handle_ipc_trysend_def Let_def call_ok_def)
qed

lemma handle_ipc_tryrecv_ok:
  assumes ok: "sys_ok s"
  shows "call_ok (handle_ipc_tryrecv args s)"
proof -
  have ip: "ipc_ok (y_ipc s)" using ok by (simp add: sys_ok_def)
  obtain r out ip' where r: "ipc_tryrecv (arg_u32 (a_arg0 args)) (arg_u32 (a_arg1 args)) (msg_at (a_arg2 args) s) (y_ipc s)
      = Some (r, out, ip')" "r \<in> {IPC_OK, IPC_ERR_INVAL, IPC_ERR_EMPTY, IPC_ERR_TYPE}" "ipc_ok ip'"
    "keeps_sched (y_sched s) (i_sched ip')" "\<forall>m. out = Some m \<longrightarrow> msg_ok m"
    by (rule tryrecv_total [OF ip msg_at_ok [OF ok]])
  have "sys_ok (store_msg (a_arg2 args) out (s\<lparr>y_ipc := ip'\<rparr>))"
    using sys_ok_store [OF sys_ok_step [OF ok r(3,4)] r(5)] .
  with r(1,2) show ?thesis
    using result_code_ok [of r] by (auto simp: handle_ipc_tryrecv_def Let_def call_ok_def)
qed

lemma handle_plain_ok:
  assumes "sys_ok s"
  shows "call_ok (handle_exit args s)" "call_ok (handle_get_pid args s)" "call_ok (handle_get_tid args s)"
    "call_ok (handle_diag_write args s)" "call_ok (handle_diag_dump_sched args s)"
  using assms
  by (simp_all add: handle_exit_def handle_get_pid_def handle_get_tid_def handle_diag_write_def
      handle_diag_dump_sched_def call_ok_def result_codes_def)

lemma handle_get_priority_ok:
  assumes ok: "sys_ok s"
  shows "call_ok (handle_sched_get_priority args s)"
proof (cases "sched_get_current (y_sched s)")
  case None
  with ok show ?thesis by (simp add: handle_sched_get_priority_def call_ok_def result_codes_def)
next
  case (Some c)
  then have "unat (t_priority (tcb (y_sched s) c)) < 8"
    using ok by (simp add: sys_ok_def current_ok_def sched_get_current_def)
  then have "uint (t_priority (tcb (y_sched s) c)) \<in> {0..7}"
    unfolding atLeastAtMost_iff using uint_eq_unat [of "t_priority (tcb (y_sched s) c)"] by linarith
  with Some ok show ?thesis by (simp add: handle_sched_get_priority_def call_ok_def result_codes_def)
qed

lemma handle_sleep_yield: "handle_sched_sleep = handle_yield"
  by (rule ext, rule ext) (simp add: handle_sched_sleep_def handle_yield_def)

lemmas handlers_ok = handle_yield_ok handle_sched_block_ok handle_set_priority_ok handle_ipc_send_ok
  handle_ipc_recv_ok handle_ipc_trysend_ok handle_ipc_tryrecv_ok handle_plain_ok handle_get_priority_ok

lemma dispatch_loop_ok:
  assumes "\<forall>(n, handler) \<in> set es. call_ok (handler args s)" and "sys_ok s"
  shows "call_ok (dispatch_loop es args s)"
proof -
  have "call_ok (Some (Done SYSCALL_ERR_NOSYS, s))" using assms(2) by (simp add: call_ok_def result_codes_def)
  with assms(1) show ?thesis by (induction es) (simp_all split: prod.splits)
qed

lemma syscall_dispatch_total: "sys_ok s \<Longrightarrow> call_ok (syscall_dispatch args s)"
proof (cases args)
  case None
  then show "sys_ok s \<Longrightarrow> ?thesis" by (auto simp: syscall_dispatch_def call_ok_def result_codes_def)
next
  case (Some a)
  assume "sys_ok s"
  then have "call_ok (dispatch_loop s_table a s)"
    by (intro dispatch_loop_ok) (simp_all add: s_table_def handlers_ok handle_sleep_yield)
  with Some show ?thesis by (simp add: syscall_dispatch_def)
qed

lemma syscall_resume_total:
  assumes ok: "sys_ok s"
  shows "call_ok (syscall_resume k s)"
proof -
  have ip: "ipc_ok (y_ipc s)" using ok by (simp add: sys_ok_def)
  show ?thesis
  proof (cases k)
    case Return_OK
    with ok show ?thesis by (auto simp: syscall_resume_def call_ok_def result_codes_def)
  next
    case (Send_again h a i)
    then show ?thesis
      using send_iter_total [OF ip, of "msg_at a s" h i] msg_at_ok [OF ok] send_outcome_ok [OF ok]
      by (auto simp: syscall_resume_def)
  next
    case (Recv_again h ty a i)
    then show ?thesis
      using recv_iter_total [OF ip, of "msg_at a s" h ty i] msg_at_ok [OF ok] recv_outcome_ok [OF ok]
      by (auto simp: syscall_resume_def)
  qed
qed

lemma arg_u32_ucast: "arg_u32 (ucast h) = h"
proof -
  have m: "(0xFFFFFFFF :: u64) = mask 32" by (simp add: mask_eq_exp_minus_1)
  show ?thesis unfolding arg_u32_def m by (rule bit_word_eqI) (simp add: bit_simps)
qed

subsection \<open>Properties\<close>

definition example_sys :: sys_state where
  "example_sys = \<lparr>y_ipc = example_slot 0, y_mem = (\<lambda>_. example_msg 7)\<rparr>"

lemma example_blocks:
  "t_state (tcb example_running x) = (if x = 3 then PROCESS_STATE_RUNNING else PROCESS_STATE_READY)"
  "t_priority (tcb example_running x) = 4"
  by (simp_all add: example_running_def set_tcb_def example_sched_def queue_append_blocks
      sched_init_def example_tcbs_def)

lemma example_cpu_ok: "cpu_ok 3 (y_sched example_sys) example_lists"
  by (simp add: example_sys_def cpu_ok_def example_running_ok example_running_cur example_blocks)

lemma example_sys_ok: "sys_ok example_sys"
  using example_slot_holds [of 0] cpu_ok_current [OF example_cpu_ok] example_blocks
  by (auto simp: sys_ok_def example_sys_def chan_holds_def example_msg_ok current_ok_def unqueued_def
      example_running_cur)

text \<open>
  C10. Every system call returns to its caller or switches to another thread: the walks along
  the run queues end and the result is one of the documented codes or a priority, never
  \<open>SYSCALL_ERR_UNKNOWN\<close> or \<open>SYSCALL_ERR_PERM\<close>. The call keeps the run queues, the channels and
  the current thread consistent, unless it ends with \<open>SYSCALL_ERR_AGAIN\<close>; the same holds when
  a call that switched away is resumed.
\<close>

theorem syscall_returns:
  assumes "sys_ok s"
  shows "(\<exists>oc s'. syscall_dispatch args s = Some (oc, s')
      \<and> (\<forall>r. oc = Done r \<longrightarrow> r \<in> {- 2, - 4, - 5, - 6, - 7} \<union> {0..7})
      \<and> (oc \<noteq> Done SYSCALL_ERR_AGAIN \<longrightarrow> sys_ok s'))
    \<and> (\<exists>oc s'. syscall_resume k s = Some (oc, s')
      \<and> (\<forall>r. oc = Done r \<longrightarrow> r \<in> {- 2, - 4, - 5, - 6, - 7} \<union> {0..7})
      \<and> (oc \<noteq> Done SYSCALL_ERR_AGAIN \<longrightarrow> sys_ok s'))"
  using syscall_dispatch_total [OF assms, of args] syscall_resume_total [OF assms, of k]
  unfolding call_ok_def result_codes_def by blast

theorem syscall_returns_witness:
  "\<exists>oc s'. syscall_dispatch (Some \<lparr>a_number = SYSCALL_IPC_RECV, a_arg0 = 0x101, a_arg1 = 0, a_arg2 = 0x1000,
     a_arg3 = 0, a_arg4 = 0\<rparr>) example_sys = Some (oc, s')"
  using syscall_returns [OF example_sys_ok] by blast

text \<open>
  C15. Yielding is round robin within the highest priority: when the running thread \<open>c\<close> and the
  waiting threads \<open>xs\<close> share a priority and every other waiting thread has a lower one, then
  after \<open>k\<close> yields the running thread is the one at position \<open>k\<close>, counted cyclically, of
  \<open>c, xs\<close>; so every one of them runs again after \<open>length xs\<close> yields, exactly one thread is
  RUNNING at any time, and the threads of lower priority keep their places.
\<close>

theorem syscall_round_robin:
  assumes "a_number args = SYSCALL_YIELD" and "cpu_ok c (y_sched s) qs" and "queued qs = xs @ rest"
    and "length (xs @ rest) < 32"
    and "\<forall>x \<in> set xs. t_priority (tcb (y_sched s) x) = t_priority (tcb (y_sched s) c)"
    and "\<forall>x \<in> set rest. t_priority (tcb (y_sched s) c) < t_priority (tcb (y_sched s) x)"
  shows "\<exists>s' qs'. yields k args s = Some s' \<and> cpu_ok ((c # xs) ! (k mod Suc (length xs))) (y_sched s') qs'
    \<and> queued qs' = tl (rotate k (c # xs)) @ rest"
  using yields_rotate [OF assms, of k] hd_rotate_conv_nth [of "c # xs" k] by simp

theorem syscall_round_robin_witness:
  "\<exists>s' qs'. yields 4 \<lparr>a_number = SYSCALL_YIELD, a_arg0 = 0, a_arg1 = 0, a_arg2 = 0, a_arg3 = 0, a_arg4 = 0\<rparr>
     example_sys = Some s' \<and> cpu_ok 1 (y_sched s') qs' \<and> queued qs' = [2, 3]"
proof -
  have rot: "tl (rotate 4 (3 # [1, 2])) @ [] = [2, 3 :: tptr]" by (simp add: rotate_drop_take)
  have nth: "(3 # [1, 2]) ! (4 mod Suc (length [1, 2 :: tptr])) = (1 :: tptr)" by simp
  have q: "queued example_lists = [1, 2] @ []" by (simp add: example_queued)
  have pr: "\<forall>x \<in> set [1, 2]. t_priority (tcb (y_sched example_sys) x) = t_priority (tcb (y_sched example_sys) 3)"
    by (simp add: example_sys_def example_blocks)
  show ?thesis
    using syscall_round_robin [OF _ example_cpu_ok q _ pr, of _ 4] unfolding rot nth by simp
qed

text \<open>
  C21. A message sent with \<open>SYSCALL_IPC_TRYSEND\<close> from address \<open>a\<close> on an open, empty channel and
  then received with \<open>SYSCALL_IPC_TRYRECV\<close> into address \<open>b\<close> arrives unchanged: both calls return
  \<open>SYSCALL_OK\<close>, the object at \<open>b\<close> equals the one at \<open>a\<close>, no other memory changes and the channel
  is empty again.
\<close>

theorem syscall_message_roundtrip:
  assumes "sys_ok s" and "chan_holds h (y_ipc s) []" and "a \<noteq> 0" and "b \<noteq> 0"
  shows "\<exists>s1 s2. syscall_dispatch (Some \<lparr>a_number = SYSCALL_IPC_TRYSEND, a_arg0 = ucast h, a_arg1 = a,
         a_arg2 = x2, a_arg3 = x3, a_arg4 = x4\<rparr>) s = Some (Done SYSCALL_OK, s1)
    \<and> syscall_dispatch (Some \<lparr>a_number = SYSCALL_IPC_TRYRECV, a_arg0 = ucast h, a_arg1 = 0, a_arg2 = b,
         a_arg3 = y3, a_arg4 = y4\<rparr>) s1 = Some (Done SYSCALL_OK, s2)
    \<and> y_mem s2 = (y_mem s)(b := y_mem s a) \<and> chan_holds h (y_ipc s2) []"
proof -
  have h: "arg_u32 (ucast h) = h" "arg_u32 0 = 0" using arg_u32_ucast by (simp_all add: arg_u32_def)
  have ok: "\<And>x. msg_ok (y_mem s x)" using assms(1) by (simp add: sys_ok_def)
  obtain i1 where i1: "ipc_trysend h (Some (y_mem s a)) (y_ipc s) = Some (IPC_OK, i1)"
    "chan_holds h i1 [y_mem s a]"
    using trysend_room [OF assms(2) ok [of a]] by auto
  obtain i2 where i2: "ipc_tryrecv h 0 (Some (y_mem s b)) i1 = Some (IPC_OK, Some (y_mem s a), i2)"
    "chan_holds h i2 []"
    by (rule tryrecv_first [OF i1(2) ok [of b]]) auto
  from i1 i2 assms(3,4) h show ?thesis
    by (intro exI [of _ "s\<lparr>y_ipc := i1\<rparr>"] exI [of _ "store_msg b (Some (y_mem s a)) (s\<lparr>y_ipc := i2\<rparr>)"])
      (simp add: syscall_dispatch_def s_table_def handle_ipc_trysend_def handle_ipc_tryrecv_def msg_at_def
        store_msg_def ipc_result_to_syscall_result_def)
qed

theorem syscall_message_roundtrip_witness:
  "\<exists>s1 s2. syscall_dispatch (Some \<lparr>a_number = SYSCALL_IPC_TRYSEND, a_arg0 = ucast (0x101 :: u32), a_arg1 = 64,
         a_arg2 = 0, a_arg3 = 0, a_arg4 = 0\<rparr>) example_sys = Some (Done SYSCALL_OK, s1)
    \<and> syscall_dispatch (Some \<lparr>a_number = SYSCALL_IPC_TRYRECV, a_arg0 = ucast (0x101 :: u32), a_arg1 = 0, a_arg2 = 128,
         a_arg3 = 0, a_arg4 = 0\<rparr>) s1 = Some (Done SYSCALL_OK, s2)
    \<and> y_mem s2 128 = example_msg 7"
proof -
  have "chan_holds 0x101 (y_ipc example_sys) []" using example_slot_holds [of 0] by (simp add: example_sys_def)
  from syscall_message_roundtrip [OF example_sys_ok this, of 64 128 0 0 0 0 0]
  show ?thesis by (auto simp: example_sys_def)
qed

text \<open>
  A call that is not understood changes nothing: a NULL argument frame gives
  \<open>SYSCALL_ERR_INVAL\<close>, a number outside the table \<open>SYSCALL_ERR_NOSYS\<close>, a NULL message pointer and
  a priority of 8 or more \<open>SYSCALL_ERR_INVAL\<close>, and in each case the state is the one before the
  call.
\<close>

theorem syscall_rejects:
  "syscall_dispatch None s = Some (Done SYSCALL_ERR_INVAL, s)
   \<and> (a_number args \<notin> fst ` set s_table
      \<or> a_number args \<in> {SYSCALL_IPC_SEND, SYSCALL_IPC_TRYSEND} \<and> a_arg1 args = 0
      \<or> a_number args \<in> {SYSCALL_IPC_RECV, SYSCALL_IPC_TRYRECV} \<and> a_arg2 args = 0
      \<or> a_number args = SYSCALL_SCHED_SET_PRIORITY \<and> 8 \<le> arg_u32 (a_arg0 args)
     \<longrightarrow> syscall_dispatch (Some args) s =
       Some (Done (if a_number args \<in> fst ` set s_table then SYSCALL_ERR_INVAL else SYSCALL_ERR_NOSYS), s))"
proof -
  have loop: "a_number args \<notin> fst ` set es \<Longrightarrow> dispatch_loop es args s = Some (Done SYSCALL_ERR_NOSYS, s)" for es
    by (induction es) auto
  have null: "open_chan h True ip = Inl IPC_ERR_INVAL" for h ip by (simp add: open_chan_def)
  have "syscall_dispatch (Some args) s = Some (Done SYSCALL_ERR_INVAL, s) \<and> a_number args \<in> fst ` set s_table"
    if "a_number args \<in> {SYSCALL_IPC_SEND, SYSCALL_IPC_TRYSEND}" "a_arg1 args = 0"
    using that by (auto simp: syscall_dispatch_def s_table_def handle_ipc_send_def handle_ipc_trysend_def msg_at_def
        ipc_send_def ipc_trysend_def null send_outcome_def ipc_result_to_syscall_result_def)
  moreover have "syscall_dispatch (Some args) s = Some (Done SYSCALL_ERR_INVAL, s) \<and> a_number args \<in> fst ` set s_table"
    if "a_number args \<in> {SYSCALL_IPC_RECV, SYSCALL_IPC_TRYRECV}" "a_arg2 args = 0"
    using that by (auto simp: syscall_dispatch_def s_table_def handle_ipc_recv_def handle_ipc_tryrecv_def msg_at_def
        store_msg_def ipc_recv_def ipc_tryrecv_def null recv_outcome_def ipc_result_to_syscall_result_def)
  moreover have "syscall_dispatch (Some args) s = Some (Done SYSCALL_ERR_INVAL, s) \<and> a_number args \<in> fst ` set s_table"
    if "a_number args = SYSCALL_SCHED_SET_PRIORITY" "8 \<le> arg_u32 (a_arg0 args)"
    using that by (simp add: syscall_dispatch_def s_table_def handle_sched_set_priority_def arg_u32_def)
  ultimately show ?thesis using loop [of s_table] by (auto simp: syscall_dispatch_def)
qed

theorem syscall_rejects_witness:
  "syscall_dispatch (Some \<lparr>a_number = 0x42, a_arg0 = 0, a_arg1 = 0, a_arg2 = 0, a_arg3 = 0, a_arg4 = 0\<rparr>) example_sys
     = Some (Done SYSCALL_ERR_NOSYS, example_sys)"
proof -
  let ?a = "\<lparr>a_number = 0x42, a_arg0 = 0, a_arg1 = 0, a_arg2 = 0, a_arg3 = 0, a_arg4 = 0\<rparr>"
  have "a_number ?a \<notin> fst ` set s_table" by (simp add: s_table_def)
  then show ?thesis using syscall_rejects [of example_sys ?a] by simp
qed

end
