(* ===== verification/Kernel_Memory.thy ===== *)
theory Kernel_Memory
  imports Kernel_Prelude
begin

text \<open>
  Byte-addressed memory and the routines of \<^verbatim>\<open>src/kernel/support/kernel_memory.c\<close>. Memory
  maps a 64-bit address to a byte; address arithmetic wraps. Fields wider than a byte are
  read and written in little-endian order, as both target processors do.
\<close>

type_synonym mem = "u64 \<Rightarrow> u8"

subsection \<open>Fields in memory\<close>

primrec read_nat :: "nat \<Rightarrow> mem \<Rightarrow> u64 \<Rightarrow> nat" where
  "read_nat 0 m a = 0"
| "read_nat (Suc n) m a = unat (m a) + 256 * read_nat n m (a + 1)"

primrec write_nat :: "nat \<Rightarrow> nat \<Rightarrow> u64 \<Rightarrow> mem \<Rightarrow> mem" where
  "write_nat 0 v a m = m"
| "write_nat (Suc n) v a m = write_nat n (v div 256) (a + 1) (m(a := of_nat v))"

definition read_u16 :: "mem \<Rightarrow> u64 \<Rightarrow> u16" where "read_u16 m a = of_nat (read_nat 2 m a)"
definition read_u32 :: "mem \<Rightarrow> u64 \<Rightarrow> u32" where "read_u32 m a = of_nat (read_nat 4 m a)"
definition read_u64 :: "mem \<Rightarrow> u64 \<Rightarrow> u64" where "read_u64 m a = of_nat (read_nat 8 m a)"
definition write_u32 :: "u64 \<Rightarrow> u32 \<Rightarrow> mem \<Rightarrow> mem" where "write_u32 a v m = write_nat 4 (unat v) a m"
definition write_u64 :: "u64 \<Rightarrow> u64 \<Rightarrow> mem \<Rightarrow> mem" where "write_u64 a v m = write_nat 8 (unat v) a m"

text \<open>The fields spelled out byte by byte, for evaluation.\<close>

lemma read_nat_add: "read_nat (i + j) m a = read_nat i m a + 256 ^ i * read_nat j m (a + of_nat i)"
  by (induction i arbitrary: a) (simp_all add: add.assoc distrib_left)

lemma read_nat_4: "read_nat 4 m a = unat (m a) + 256 * (unat (m (a + 1)) + 256 * (unat (m (a + 2))
    + 256 * unat (m (a + 3))))"
proof -
  have "(4 :: nat) = Suc (Suc (Suc (Suc 0)))" by simp
  then have "read_nat 4 m a = read_nat (Suc (Suc (Suc (Suc 0)))) m a" by (rule arg_cong)
  then show ?thesis by (simp add: add.assoc)
qed

lemma read_nat_8: "read_nat 8 m a = read_nat 4 m a + 2 ^ 32 * read_nat 4 m (a + 4)"
  using read_nat_add [of 4 4 m a] by simp

subsection \<open>The routines\<close>

text \<open>The assignment \<open>d[i] = s[i]\<close> on byte pointers.\<close>

definition copy_byte :: "u64 \<Rightarrow> u64 \<Rightarrow> nat \<Rightarrow> mem \<Rightarrow> mem" where
  "copy_byte d s i m = m(d + of_nat i := m (s + of_nat i))"

definition kernel_memcpy :: "u64 \<Rightarrow> u64 \<Rightarrow> u32 \<Rightarrow> mem \<Rightarrow> mem" where
  "kernel_memcpy d s n m = fold (copy_byte d s) [0..<unat n] m"

text \<open>The loop that counts \<open>n\<close> down and copies the last byte first.\<close>

primrec memmove_down :: "u64 \<Rightarrow> u64 \<Rightarrow> nat \<Rightarrow> mem \<Rightarrow> mem" where
  "memmove_down d s 0 m = m"
| "memmove_down d s (Suc n) m = memmove_down d s n (copy_byte d s n m)"

definition kernel_memmove :: "u64 \<Rightarrow> u64 \<Rightarrow> u32 \<Rightarrow> mem \<Rightarrow> mem" where
  "kernel_memmove d s n m =
     (if d = 0 \<or> s = 0 \<or> n = 0 \<or> d = s then m
      else if d < s \<or> d \<ge> s + ucast n then kernel_memcpy d s n m
      else memmove_down d s (unat n) m)"

definition kernel_memset :: "u64 \<Rightarrow> u8 \<Rightarrow> u32 \<Rightarrow> mem \<Rightarrow> mem" where
  "kernel_memset d val n m = fold (\<lambda>i m. m(d + of_nat i := val)) [0..<unat n] m"

partial_function (option) strlen_walk :: "mem \<Rightarrow> u64 \<Rightarrow> u64 \<Rightarrow> u64 option" where
  "strlen_walk m str len = (if m (str + len) = 0 then Some len else strlen_walk m str (len + 1))"

definition kernel_strlen :: "mem \<Rightarrow> u64 \<Rightarrow> u64 option" where
  "kernel_strlen m str = (if str = 0 then Some 0 else strlen_walk m str 0)"

subsection \<open>Ranges of addresses\<close>

text \<open>\<open>in_range a d n\<close>: address \<open>a\<close> is one of the \<open>n\<close> bytes from \<open>d\<close>.\<close>

definition in_range :: "u64 \<Rightarrow> u64 \<Rightarrow> nat \<Rightarrow> bool" where
  "in_range a d n \<longleftrightarrow> unat (a - d) < n"

lemma unat_u64_lt: "unat (x :: u64) < 18446744073709551616"
  using unsigned_less [of x, where 'a = nat] by simp

lemma unat_u32_lt: "unat (x :: u32) < 4294967296"
  using unsigned_less [of x, where 'a = nat] by simp

lemma unat_ucast_u64: "unat (ucast (x :: u32) :: u64) = unat x"
  using unat_u32_lt [of x] by (simp add: unsigned_ucast_eq take_bit_nat_eq_self)

lemma unat_of_nat_u64: "n < 2 ^ 64 \<Longrightarrow> unat (of_nat n :: u64) = n"
  by (simp add: unat_of_nat take_bit_nat_eq_self)

lemma unat_diff_u64:
  "unat ((a :: u64) - d) = (if d \<le> a then unat a - unat d else unat a + 2 ^ 64 - unat d)"
  by (simp add: unat_sub_if' word_le_nat_alt word_size)

lemma in_range_Suc: "n < 2 ^ 64 \<Longrightarrow> in_range a d (Suc n) \<longleftrightarrow> in_range a d n \<or> a = d + of_nat n"
proof -
  assume n: "n < 2 ^ 64"
  have "unat (a - d) = n \<longleftrightarrow> a - d = of_nat n" by (simp add: word_unat_eq_iff unat_of_nat_u64 [OF n])
  then show ?thesis by (auto simp: in_range_def less_Suc_eq diff_eq_eq add.commute)
qed

lemma in_range_offset: "i < 2 ^ 64 \<Longrightarrow> in_range (d + of_nat i) d n \<longleftrightarrow> i < n"
  by (simp add: in_range_def unat_of_nat_u64)

lemma unat_add_u64: "unat a + i < 2 ^ 64 \<Longrightarrow> unat ((a :: u64) + of_nat i) = unat a + i"
  by (subst unat_add_lem [THEN iffD1]) (simp_all add: unat_of_nat_u64)

text \<open>Rounding an address down and up to a power of two.\<close>

lemma unat_and_not_mask: "unat ((x :: 'a::len word) AND NOT (mask k)) = unat x div 2 ^ k * 2 ^ k"
proof -
  have "x AND NOT (mask k) = push_bit k (drop_bit k x)"
    by (rule bit_word_eqI) (auto simp: bit_simps)
  also have "\<dots> = x - take_bit k x" using bits_ident [of k x] by (simp add: eq_diff_eq)
  finally have e: "x AND NOT (mask k) = x - take_bit k x" .
  have t: "unat (take_bit k x) = unat x mod 2 ^ k"
    by (simp only: unsigned_take_bit_eq take_bit_eq_mod [of k "unat x"])
  then have "take_bit k x \<le> x" by (simp add: word_le_nat_alt)
  then show ?thesis by (simp add: e unat_sub t minus_mod_eq_div_mult)
qed

lemma unat_align_up:
  assumes "unat v + (2 ^ k - 1) < 2 ^ 64" and "a = 2 ^ k"
  shows "unat ((v + a - 1 :: u64) AND NOT (a - 1)) = (unat v + (2 ^ k - 1)) div 2 ^ k * 2 ^ k"
proof -
  have m: "a - 1 = mask k" by (simp add: assms(2) mask_eq_exp_minus_1)
  have "of_nat (2 ^ k - 1) = a - 1" by (simp add: assms(2) of_nat_diff)
  then have "v + a - 1 = v + of_nat (2 ^ k - 1)" by (simp add: algebra_simps)
  moreover have "unat (v + of_nat (2 ^ k - 1)) = unat v + (2 ^ k - 1)" using unat_add_u64 [OF assms(1)] by simp
  ultimately show ?thesis unfolding m by (simp only: unat_and_not_mask)
qed

subsection \<open>Copying\<close>

text \<open>What a copy of \<open>n\<close> bytes means, whatever the overlap: every destination byte gets the byte
  its source had before.\<close>

definition copied :: "u64 \<Rightarrow> u64 \<Rightarrow> nat \<Rightarrow> mem \<Rightarrow> mem" where
  "copied d s n m = (\<lambda>a. if in_range a d n then m (s + (a - d)) else m a)"

lemma copied_0 [simp]: "copied d s 0 m = m"
  by (simp add: copied_def in_range_def)

lemma copied_same [simp]: "copied d d n m = m"
  by (simp add: copied_def fun_eq_iff)

lemma copied_Suc:
  "n < 2 ^ 64 \<Longrightarrow> (copied d s n m)(d + of_nat n := m (s + of_nat n)) = copied d s (Suc n) m"
  by (auto simp: copied_def fun_eq_iff in_range_Suc)

lemma copy_up:
  assumes "n < 2 ^ 64" and "\<And>i. i < n \<Longrightarrow> \<not> in_range (s + of_nat i) d i"
  shows "fold (copy_byte d s) [0..<n] m = copied d s n m"
  using assms
proof (induction n)
  case (Suc n)
  then have "copied d s n m (s + of_nat n) = m (s + of_nat n)" by (simp add: copied_def)
  with Suc copied_Suc [of n d s m] show ?case by (simp add: copy_byte_def [of d s n])
qed simp

lemma copy_down:
  assumes "n < 2 ^ 64" and "\<And>i j. i < j \<Longrightarrow> j < n \<Longrightarrow> s + of_nat i \<noteq> d + of_nat j"
  shows "memmove_down d s n m = copied d s n m"
  using assms
proof (induction n arbitrary: m)
  case (Suc n)
  let ?m = "copy_byte d s n m"
  have "copied d s n ?m a = copied d s (Suc n) m a" for a
  proof (cases "in_range a d n")
    case True
    define i where "i = unat (a - d)"
    then have i: "i < n" "a = d + of_nat i" using True by (simp_all add: in_range_def)
    with Suc.prems(2) [of i n] True Suc.prems(1) show ?thesis by (simp add: copied_def in_range_Suc copy_byte_def)
  next
    case False
    with Suc.prems(1) show ?thesis by (auto simp: copied_def in_range_Suc copy_byte_def)
  qed
  then have "copied d s n ?m = copied d s (Suc n) m" by (rule ext)
  moreover have "memmove_down d s n ?m = copied d s n ?m" using Suc.prems by (intro Suc.IH) auto
  ultimately show ?case by simp
qed simp

lemma in_range_nat:
  "unat d + n \<le> 2 ^ 64 \<Longrightarrow> in_range a d n \<longleftrightarrow> unat d \<le> unat a \<and> unat a < unat d + n"
  using unat_u64_lt [of a] unat_u64_lt [of d]
  by (auto simp: in_range_def unat_diff_u64 word_le_nat_alt)

lemma unat_add_le: "unat ((a :: u64) + b) \<le> unat a + unat b"
  unfolding unat_word_ariths by (rule mod_less_eq_dividend)

lemma memset_fold:
  "n < 2 ^ 64 \<Longrightarrow> fold (\<lambda>i m. m(d + of_nat i := val)) [0..<n] m a = (if in_range a d n then val else m a)"
proof (induction n)
  case 0
  then show ?case by (simp add: in_range_def)
next
  case (Suc n)
  then show ?case by (simp add: in_range_Suc)
qed

subsection \<open>Reading back what was written\<close>

lemma read_nat_bound: "read_nat n m a < 256 ^ n"
proof (induction n arbitrary: a)
  case (Suc n)
  have "unat (m a) < 256" using unsigned_less [of "m a", where 'a = nat] by simp
  with Suc [of "a + 1"] show ?case by simp
qed simp

lemma read_nat_cong:
  assumes "\<And>i. i < n \<Longrightarrow> m' (a + of_nat i) = m (a + of_nat i)"
  shows "read_nat n m' a = read_nat n m a"
  using assms
proof (induction n arbitrary: a)
  case (Suc n)
  have "m' (a + 1 + of_nat i) = m (a + 1 + of_nat i)" if "i < n" for i
    using Suc.prems [of "Suc i"] that by (simp add: add.assoc)
  then have "read_nat n m' (a + 1) = read_nat n m (a + 1)" by (rule Suc.IH)
  with Suc.prems [of 0] show ?case by simp
qed simp

lemma write_nat_other:
  assumes "n < 2 ^ 32" and "\<not> in_range x a n"
  shows "write_nat n v a m x = m x"
  using assms
proof (induction n arbitrary: v a m)
  case (Suc n)
  have x: "x \<noteq> a" using Suc.prems(2) by (auto simp: in_range_def)
  have "\<not> in_range x (a + 1) n"
  proof
    assume "in_range x (a + 1) n"
    then have "unat (x - (a + 1)) < n" by (simp add: in_range_def)
    moreover have "unat (x - a) \<le> unat (x - (a + 1)) + 1"
      using unat_add_le [of "x - (a + 1)" 1] by simp
    ultimately have "unat (x - a) < Suc n" by simp
    with Suc.prems(2) show False by (simp add: in_range_def)
  qed
  with Suc x show ?case by simp
qed simp

lemma read_nat_write_same:
  "n < 2 ^ 32 \<Longrightarrow> read_nat n (write_nat n v a m) a = v mod 256 ^ n"
proof (induction n arbitrary: v a m)
  case (Suc n)
  have "\<not> in_range a (a + 1) n"
    using Suc.prems by (simp add: in_range_def unsigned_minus_1_eq_mask mask_eq_exp_minus_1)
  then have "write_nat n (v div 256) (a + 1) (m(a := of_nat v)) a = of_nat v"
    using Suc.prems by (simp add: write_nat_other)
  moreover have "unat (of_nat v :: u8) = v mod 256" by (simp add: unat_of_nat take_bit_eq_mod)
  ultimately show ?case
    using Suc by (simp add: mod_mult2_eq add.commute)
qed simp

lemma read_nat_write_other:
  assumes "k < 2 ^ 32" and "\<And>i. i < n \<Longrightarrow> \<not> in_range (a + of_nat i) b k"
  shows "read_nat n (write_nat k v b m) a = read_nat n m a"
  using assms by (intro read_nat_cong write_nat_other) auto

lemma read_u32_write_same [simp]: "read_u32 (write_u32 a v m) a = v"
  using read_nat_write_same [of 4 "unat v" a m] unat_u32_lt [of v]
  by (simp add: read_u32_def write_u32_def)

lemma read_u64_write_same [simp]: "read_u64 (write_u64 a v m) a = v"
  using read_nat_write_same [of 8 "unat v" a m] unat_u64_lt [of v]
  by (simp add: read_u64_def write_u64_def)

text \<open>Two ranges that do not wrap and do not meet.\<close>

definition apart :: "u64 \<Rightarrow> nat \<Rightarrow> u64 \<Rightarrow> nat \<Rightarrow> bool" where
  "apart a n b k \<longleftrightarrow> unat a + n \<le> 2 ^ 64 \<and> unat b + k \<le> 2 ^ 64 \<and> (unat a + n \<le> unat b \<or> unat b + k \<le> unat a)"

lemma apart_in_range: "apart a n b k \<Longrightarrow> i < n \<Longrightarrow> \<not> in_range (a + of_nat i) b k"
proof -
  assume a: "apart a n b k" and i: "i < n"
  then have "unat (a + of_nat i) = unat a + i" by (intro unat_add_u64) (auto simp: apart_def)
  with a i show ?thesis by (auto simp: apart_def in_range_nat)
qed

lemma read_write_apart:
  "apart a 4 b 4 \<Longrightarrow> read_u32 (write_u32 b v m) a = read_u32 m a"
  "apart a 4 b 8 \<Longrightarrow> read_u32 (write_u64 b w m) a = read_u32 m a"
  "apart a 8 b 4 \<Longrightarrow> read_u64 (write_u32 b v m) a = read_u64 m a"
  "apart a 8 b 8 \<Longrightarrow> read_u64 (write_u64 b w m) a = read_u64 m a"
  by (simp_all add: read_u32_def read_u64_def write_u32_def write_u64_def read_nat_write_other apart_in_range)

lemma unat_read_u32: "unat (read_u32 m a) = read_nat 4 m a"
  using read_nat_bound [of 4 m a] by (simp add: read_u32_def unat_of_nat take_bit_nat_eq_self)

lemma unat_read_u64: "unat (read_u64 m a) = read_nat 8 m a"
  using read_nat_bound [of 8 m a] by (simp add: read_u64_def unat_of_nat_u64)

subsection \<open>Properties\<close>

text \<open>
  C31. \<open>kernel_memmove\<close> is correct for overlapping ranges: whichever direction it copies in, every
  destination byte receives the value its source byte had before the call, and no other byte
  changes. It agrees with the reference copy that reads all sources first.
\<close>

theorem kernel_memmove_correct:
  assumes "d \<noteq> 0" and "s \<noteq> 0" and "unat d + unat n < 2 ^ 64" and "unat s + unat n < 2 ^ 64"
  shows "kernel_memmove d s n m = copied d s (unat n) m"
proof -
  have n: "unat n < 2 ^ 64" using assms(3) by simp
  have sn: "unat (s + ucast n) = unat s + unat n"
    using unat_add_u64 [OF assms(4)] by simp
  have at: "unat (s + of_nat i) = unat s + i" "unat (d + of_nat i) = unat d + i" if "i < unat n" for i
    using assms(3,4) that by (intro unat_add_u64; simp)+
  consider "n = 0 \<or> d = s" | "n \<noteq> 0" "d < s \<or> d \<ge> s + ucast n" | "s < d" "\<not> d \<ge> s + ucast n"
    by (metis linorder_cases)
  then show ?thesis
  proof cases
    case 1
    with assms show ?thesis by (auto simp: kernel_memmove_def)
  next
    case 2
    have "\<not> in_range (s + of_nat i) d i" if "i < unat n" for i
      using 2(2) at(1) [OF that] assms(3) that by (auto simp: in_range_nat sn word_le_nat_alt word_less_nat_alt)
    with n have "kernel_memcpy d s n m = copied d s (unat n) m"
      unfolding kernel_memcpy_def by (rule copy_up)
    with assms 2 show ?thesis by (auto simp: kernel_memmove_def)
  next
    case 3
    have "s + of_nat i \<noteq> d + of_nat j" if "i < j" "j < unat n" for i j
      using 3(1) at(1) [of i] at(2) [of j] that by (auto simp: word_less_nat_alt word_unat_eq_iff)
    with n have "memmove_down d s (unat n) m = copied d s (unat n) m" by (rule copy_down)
    with assms 3 show ?thesis by (auto simp: kernel_memmove_def)
  qed
qed

theorem kernel_memmove_correct_witness:
  "kernel_memmove 4097 4096 2 (\<lambda>a. if a = 4096 then 7 else 9) 4097 = 7"
proof -
  have "kernel_memmove 4097 4096 2 (\<lambda>a. if a = 4096 then 7 else 9)
      = copied 4097 4096 (unat (2 :: u32)) (\<lambda>a. if a = 4096 then 7 else 9)"
    by (rule kernel_memmove_correct) simp_all
  then show ?thesis by (simp add: copied_def in_range_def)
qed

lemma strlen_walk_first:
  assumes "m (str + of_nat k) = 0" and "\<And>i. i < k \<Longrightarrow> m (str + of_nat i) \<noteq> 0" and "j \<le> k"
  shows "strlen_walk m str (of_nat j) = Some (of_nat k)"
  using assms(3)
proof (induction "k - j" arbitrary: j)
  case 0
  then show ?case using assms(1) by (simp add: strlen_walk.simps)
next
  case (Suc n)
  then have "strlen_walk m str (of_nat (Suc j)) = Some (of_nat k)" by (intro Suc.hyps) auto
  then have "strlen_walk m str (of_nat j + 1) = Some (of_nat k)" by (simp add: add.commute)
  moreover have "m (str + of_nat j) \<noteq> 0" using assms(2) Suc by simp
  ultimately show ?case by (subst strlen_walk.simps) simp
qed

text \<open>
  \<open>kernel_strlen\<close> returns: on memory that holds a zero byte at some distance from the start
  of the text, the loop ends at the first one and the result is its distance; a NULL text has
  length 0.
\<close>

theorem kernel_strlen_returns:
  "kernel_strlen m 0 = Some 0
   \<and> (str \<noteq> 0 \<and> m (str + of_nat k) = 0 \<and> (\<forall>i < k. m (str + of_nat i) \<noteq> 0)
      \<longrightarrow> kernel_strlen m str = Some (of_nat k))"
  using strlen_walk_first [of m str k 0] by (auto simp: kernel_strlen_def)

theorem kernel_strlen_returns_witness:
  "kernel_strlen (\<lambda>a. if a = 103 then 0 else 65) 100 = Some 3"
proof -
  have "\<forall>i < (3 :: nat). (if 100 + of_nat i = (103 :: u64) then 0 else 65) \<noteq> (0 :: u8)"
  proof (intro allI impI)
    fix i :: nat
    assume "i < 3"
    then have "i = 0 \<or> i = 1 \<or> i = 2" by auto
    then show "(if 100 + of_nat i = (103 :: u64) then 0 else 65) \<noteq> (0 :: u8)" by auto
  qed
  then show ?thesis
    using kernel_strlen_returns [of "\<lambda>a. if a = 103 then 0 else 65" 100 3] by simp
qed

end
