(* ===== verification/Cpio.thy ===== *)
theory Cpio
  imports Kernel_Memory
begin

text \<open>
  The reader of the initial archive, \<^verbatim>\<open>src/kernel/initramfs/cpio.c\<close>: SVR4 \<open>newc\<close> headers of
  ASCII hexadecimal fields, each followed by a name and the file's data, both padded to four
  bytes. The archive lies in byte memory; positions in it are 32-bit and wrap. A C string is a
  function from the index to the character, read from memory or from a literal; comparing two
  strings may run on forever and is therefore a \<open>partial_function\<close>.
\<close>

subsection \<open>C strings\<close>

type_synonym cstr = "nat \<Rightarrow> u8"

definition str_at :: "mem \<Rightarrow> u64 \<Rightarrow> cstr" where
  "str_at m p = (\<lambda>i. m (p + of_nat i))"

definition lit :: "string \<Rightarrow> cstr" where
  "lit s = (\<lambda>i. if i < length s then of_char (s ! i) else 0)"

partial_function (option) cpio_strcmp_from :: "cstr \<Rightarrow> cstr \<Rightarrow> nat \<Rightarrow> int option" where
  "cpio_strcmp_from a b i =
     (if a i \<noteq> 0 \<and> b i \<noteq> 0 then
        (if a i \<noteq> b i then Some 1 else cpio_strcmp_from a b (i + 1))
      else Some (if a i \<noteq> b i then 1 else 0))"

definition cpio_strcmp :: "cstr \<Rightarrow> cstr \<Rightarrow> int option" where
  "cpio_strcmp a b = cpio_strcmp_from a b 0"

text \<open>\<open>xs\<close> is the string that \<open>f\<close> spells, up to its terminator.\<close>

definition spells :: "cstr \<Rightarrow> u8 list \<Rightarrow> bool" where
  "spells f xs \<longleftrightarrow> (\<forall>i < length xs. f i = xs ! i) \<and> 0 \<notin> set xs \<and> f (length xs) = 0"

lemma spells_nth: "spells f xs \<Longrightarrow> i < length xs \<Longrightarrow> f i \<noteq> 0 \<and> f i = xs ! i"
  by (metis nth_mem spells_def)

lemma cpio_strcmp_from_spells:
  assumes "spells a xs" and "spells b ys" and "i \<le> length xs" and "i \<le> length ys" and "take i xs = take i ys"
  shows "cpio_strcmp_from a b i = Some (if xs = ys then 0 else 1)"
  using assms(3-)
proof (induction "length xs - i" arbitrary: i)
  case 0
  then have i: "i = length xs" by simp
  have "cpio_strcmp_from a b i = Some (if b i = 0 then 0 else 1)"
    using assms(1) i by (subst cpio_strcmp_from.simps) (auto simp: spells_def)
  moreover have "b i = 0 \<longleftrightarrow> xs = ys"
  proof
    assume "b i = 0"
    then have "\<not> i < length ys" using spells_nth [OF assms(2)] by blast
    then show "xs = ys" using 0(3,4) i by simp
  next
    assume "xs = ys"
    then show "b i = 0" using assms(2) i by (simp add: spells_def)
  qed
  ultimately show ?case by simp
next
  case (Suc n)
  then have xi: "i < length xs" by simp
  note a = spells_nth [OF assms(1) xi]
  show ?case
  proof (cases "i < length ys")
    case False
    then have "b i = 0" "xs \<noteq> ys" using assms(2) Suc.prems xi by (auto simp: spells_def)
    then show ?thesis using a by (subst cpio_strcmp_from.simps) auto
  next
    case True
    note b = spells_nth [OF assms(2) True]
    show ?thesis
    proof (cases "a i = b i")
      case False
      then have "xs \<noteq> ys" using a b by auto
      then show ?thesis using False a b by (subst cpio_strcmp_from.simps) auto
    next
      case eq: True
      have "take (Suc i) xs = take (Suc i) ys" using Suc.prems(3) eq a b xi True by (simp add: take_Suc_conv_app_nth)
      then have "cpio_strcmp_from a b (Suc i) = Some (if xs = ys then 0 else 1)"
        using Suc.hyps(1) [of "Suc i"] Suc.hyps(2) xi True by simp
      then show ?thesis using eq a b by (subst cpio_strcmp_from.simps) auto
    qed
  qed
qed

lemma cpio_strcmp_spells:
  "spells a xs \<Longrightarrow> spells b ys \<Longrightarrow> cpio_strcmp a b = Some (if xs = ys then 0 else 1)"
  unfolding cpio_strcmp_def by (rule cpio_strcmp_from_spells) simp_all

lemma cpio_strcmp_from_returns:
  assumes "b n = 0" and "i \<le> n"
  shows "\<exists>r. cpio_strcmp_from a b i = Some r"
  using assms(2)
proof (induction "n - i" arbitrary: i)
  case 0
  then show ?case using assms(1) by (subst cpio_strcmp_from.simps) simp
next
  case (Suc k)
  then have "\<exists>r. cpio_strcmp_from a b (i + 1) = Some r" by simp
  then show ?case by (subst cpio_strcmp_from.simps) auto
qed

subsection \<open>Data\<close>

record cpio_entry_t =
  inode :: u32
  mode :: u32
  uid :: u32
  gid :: u32
  nlink :: u32
  mtime :: u32
  filesize :: u32
  dev_major :: u32
  dev_minor :: u32
  rdev_major :: u32
  rdev_minor :: u32
  namesize :: u32
  check :: u32
  filename :: u64
  data :: u64

record cpio_iterator_t =
  archive :: u64
  archive_size :: u32
  pos :: u32
  entry_count :: u32

abbreviation (input) CPIO_OK :: int where "CPIO_OK \<equiv> 0"
abbreviation (input) CPIO_INVALID_FORMAT :: int where "CPIO_INVALID_FORMAT \<equiv> - 1"
abbreviation (input) CPIO_END_OF_ARCHIVE :: int where "CPIO_END_OF_ARCHIVE \<equiv> - 2"
abbreviation (input) CPIO_OUTPUT_OVERFLOW :: int where "CPIO_OUTPUT_OVERFLOW \<equiv> - 3"
abbreviation (input) CPIO_INVALID_FILENAME :: int where "CPIO_INVALID_FILENAME \<equiv> - 4"

definition CPIO_TRAILER :: string where "CPIO_TRAILER = ''TRAILER!!!''"

subsection \<open>Fields\<close>

definition cpio_check_magic :: "cstr \<Rightarrow> bool" where
  "cpio_check_magic ptr \<longleftrightarrow>
     ptr 0 = 0x30 \<and> ptr 1 = 0x37 \<and> ptr 2 = 0x30 \<and> ptr 3 = 0x37 \<and> ptr 4 = 0x30 \<and> ptr 5 = 0x31"

definition hex_digit :: "u8 \<Rightarrow> u32 option" where
  "hex_digit c =
     (if c \<ge> 0x30 \<and> c \<le> 0x39 then Some (ucast (c - 0x30))
      else if c \<ge> 0x61 \<and> c \<le> 0x66 then Some (ucast (c - 0x61) + 10)
      else if c \<ge> 0x41 \<and> c \<le> 0x46 then Some (ucast (c - 0x41) + 10)
      else None)"

fun parse_digits :: "u8 list \<Rightarrow> u32 \<Rightarrow> u32 option" where
  "parse_digits [] val = Some val"
| "parse_digits (c # cs) val =
     (case hex_digit c of None \<Rightarrow> None | Some digit \<Rightarrow> parse_digits cs (push_bit 4 val OR digit))"

text \<open>The field of \<open>len\<close> characters at offset \<open>off\<close>; \<open>None\<close> when the return value is 0.\<close>

definition cpio_parse_hex :: "cstr \<Rightarrow> nat \<Rightarrow> nat \<Rightarrow> u32 option" where
  "cpio_parse_hex ptr off len = (if len < 1 then None else parse_digits (map ptr [off..<off + len]) 0)"

definition cpio_align4 :: "u32 \<Rightarrow> u32" where
  "cpio_align4 p = (p + 3) AND NOT 3"

subsection \<open>Iteration\<close>

text \<open>Failing calls return the status alone: the callers do not use the entry then.\<close>

definition cpio_iter_init :: "mem \<Rightarrow> u64 \<Rightarrow> u32 \<Rightarrow> int + cpio_iterator_t" where
  "cpio_iter_init m arc asize =
     (if arc = 0 \<or> asize < 6 then Inl CPIO_INVALID_FORMAT
      else if \<not> cpio_check_magic (str_at m arc) then Inl CPIO_INVALID_FORMAT
      else Inr \<lparr>archive = arc, archive_size = asize, pos = 0, entry_count = 0\<rparr>)"

text \<open>The thirteen fields of the header.\<close>

definition cpio_fields :: "cstr \<Rightarrow> cpio_entry_t option" where
  "cpio_fields ptr =
     do {
       f_inode \<leftarrow> cpio_parse_hex ptr 6 8;
       f_mode \<leftarrow> cpio_parse_hex ptr 14 8;
       f_uid \<leftarrow> cpio_parse_hex ptr 22 8;
       f_gid \<leftarrow> cpio_parse_hex ptr 30 8;
       f_nlink \<leftarrow> cpio_parse_hex ptr 38 8;
       f_mtime \<leftarrow> cpio_parse_hex ptr 46 8;
       f_filesize \<leftarrow> cpio_parse_hex ptr 54 8;
       f_dev_major \<leftarrow> cpio_parse_hex ptr 62 8;
       f_dev_minor \<leftarrow> cpio_parse_hex ptr 70 8;
       f_rdev_major \<leftarrow> cpio_parse_hex ptr 78 8;
       f_rdev_minor \<leftarrow> cpio_parse_hex ptr 86 8;
       f_namesize \<leftarrow> cpio_parse_hex ptr 94 8;
       f_check \<leftarrow> cpio_parse_hex ptr 102 8;
       Some \<lparr>inode = f_inode, mode = f_mode, uid = f_uid, gid = f_gid, nlink = f_nlink, mtime = f_mtime,
             filesize = f_filesize, dev_major = f_dev_major, dev_minor = f_dev_minor, rdev_major = f_rdev_major,
             rdev_minor = f_rdev_minor, namesize = f_namesize, check = f_check, filename = 0, data = 0\<rparr>
     }"

definition cpio_iter_next :: "mem \<Rightarrow> cpio_iterator_t \<Rightarrow> (int + cpio_iterator_t \<times> cpio_entry_t) option" where
  "cpio_iter_next m iter =
     (let ptr = str_at m (archive iter + ucast (pos iter))
      in if pos iter \<ge> archive_size iter then Some (Inl CPIO_INVALID_FORMAT)
         else if archive_size iter - pos iter < 6 then Some (Inl CPIO_INVALID_FORMAT)
         else if \<not> cpio_check_magic ptr then Some (Inl CPIO_INVALID_FORMAT)
         else if archive_size iter - pos iter < 110 then Some (Inl CPIO_INVALID_FORMAT)
         else
           (case cpio_fields ptr of
              None \<Rightarrow> Some (Inl CPIO_INVALID_FORMAT)
            | Some entry \<Rightarrow>
                (let p = pos iter + 110
                 in if p + namesize entry > archive_size iter then Some (Inl CPIO_INVALID_FORMAT)
                    else
                      (let entry1 = entry\<lparr>filename := archive iter + ucast p\<rparr>
                       in do {
                            c \<leftarrow> cpio_strcmp (str_at m (filename entry1)) (lit CPIO_TRAILER);
                            if c = 0 then Some (Inl CPIO_END_OF_ARCHIVE)
                            else
                              (let p2 = cpio_align4 (p + namesize entry)
                               in if p2 + filesize entry > archive_size iter then Some (Inl CPIO_INVALID_FORMAT)
                                  else Some (Inr (iter\<lparr>pos := cpio_align4 (p2 + filesize entry),
                                                       entry_count := entry_count iter + 1\<rparr>,
                                                  entry1\<lparr>data := archive iter + ucast p2\<rparr>)))
                          }))))"

text \<open>The loop of \<open>cpio_extract_file\<close>; \<open>Inr\<close> is the length stored and the copied memory.\<close>

partial_function (option) extract_loop :: "mem \<Rightarrow> cpio_iterator_t \<Rightarrow> cstr \<Rightarrow> u64 \<Rightarrow> u32 \<Rightarrow> (int + u32 \<times> mem) option" where
  "extract_loop m iter fname dst dst_len =
     do {
       r \<leftarrow> cpio_iter_next m iter;
       case r of
         Inl status \<Rightarrow> Some (Inl (if status = CPIO_END_OF_ARCHIVE then CPIO_INVALID_FILENAME else status))
       | Inr (iter', entry) \<Rightarrow>
           do {
             c \<leftarrow> cpio_strcmp (str_at m (filename entry)) fname;
             if c = 0 then
               (if filesize entry > dst_len then Some (Inl CPIO_OUTPUT_OVERFLOW)
                else Some (Inr (filesize entry, kernel_memcpy dst (data entry) (filesize entry) m)))
             else extract_loop m iter' fname dst dst_len
           }
     }"

definition cpio_extract_file ::
  "mem \<Rightarrow> u64 \<Rightarrow> u32 \<Rightarrow> cstr option \<Rightarrow> u64 \<Rightarrow> u32 \<Rightarrow> bool \<Rightarrow> (int + u32 \<times> mem) option" where
  "cpio_extract_file m arc asize fname dst dst_len out_len =
     (case fname of
        None \<Rightarrow> Some (Inl CPIO_INVALID_FORMAT)
      | Some f \<Rightarrow>
          if arc = 0 \<or> dst = 0 \<or> \<not> out_len then Some (Inl CPIO_INVALID_FORMAT)
          else
            (case cpio_iter_init m arc asize of
               Inl status \<Rightarrow> Some (Inl status)
             | Inr iter \<Rightarrow> extract_loop m iter f dst dst_len))"

lemma cpio_iter_next_returns: "\<exists>r. cpio_iter_next m iter = Some r"
proof -
  have "\<exists>r. cpio_strcmp a (lit CPIO_TRAILER) = Some r" for a
    unfolding cpio_strcmp_def by (rule cpio_strcmp_from_returns [of _ 10]) (simp_all add: lit_def CPIO_TRAILER_def)
  then obtain f where "\<And>a. cpio_strcmp a (lit CPIO_TRAILER) = Some (f a)" by metis
  then show ?thesis by (auto simp: cpio_iter_next_def Let_def split: option.split)
qed

subsection \<open>Archives\<close>

text \<open>
  What the archiver writes. A file has a name, its data and the remaining header fields, given by
  their number from 0 to 12; fields 6 and 11 hold the sizes. The archive ends with an entry named
  as the trailer.
\<close>

record arc_file =
  a_name :: "u8 list"
  a_data :: "u8 list"
  a_field :: "nat \<Rightarrow> u32"

definition hex_char :: "nat \<Rightarrow> u8" where
  "hex_char d = of_nat (if d < 10 then 0x30 + d else 0x41 + (d - 10))"

definition hex8 :: "u32 \<Rightarrow> u8 list" where
  "hex8 w = map (\<lambda>k. hex_char (unat (take_bit 4 (drop_bit (4 * k) w)))) [7, 6, 5, 4, 3, 2, 1, 0]"

definition pad4 :: "nat \<Rightarrow> nat" where
  "pad4 n = (n + 3) div 4 * 4"

definition padded :: "u8 list \<Rightarrow> u8 list" where
  "padded xs = xs @ replicate (pad4 (length xs) - length xs) 0"

definition file_field :: "arc_file \<Rightarrow> nat \<Rightarrow> u32" where
  "file_field f k = (if k = 6 then of_nat (length (a_data f)) else if k = 11 then of_nat (length (a_name f) + 1) else a_field f k)"

definition newc_header :: "(nat \<Rightarrow> u32) \<Rightarrow> u8 list" where
  "newc_header fld = [0x30, 0x37, 0x30, 0x37, 0x30, 0x31] @ concat (map (\<lambda>k. hex8 (fld k)) [0..<13])"

definition newc_entry :: "arc_file \<Rightarrow> u8 list" where
  "newc_entry f = padded (newc_header (file_field f) @ a_name f @ [0]) @ padded (a_data f)"

definition trailer_file :: arc_file where
  "trailer_file = \<lparr>a_name = map of_char CPIO_TRAILER, a_data = [], a_field = \<lambda>_. 0\<rparr>"

definition newc_archive :: "arc_file list \<Rightarrow> u8 list" where
  "newc_archive fs = concat (map newc_entry fs) @ newc_entry trailer_file"

text \<open>The bytes \<open>xs\<close> lie in memory from address \<open>p\<close>.\<close>

definition stored_at :: "mem \<Rightarrow> u64 \<Rightarrow> u8 list \<Rightarrow> bool" where
  "stored_at m p xs \<longleftrightarrow> (\<forall>i < length xs. m (p + of_nat i) = xs ! i)"

lemma stored_at_append [simp]:
  "stored_at m p (xs @ ys) \<longleftrightarrow> stored_at m p xs \<and> stored_at m (p + of_nat (length xs)) ys"
proof
  assume l: "stored_at m p (xs @ ys)"
  show "stored_at m p xs \<and> stored_at m (p + of_nat (length xs)) ys"
    unfolding stored_at_def
  proof (intro conjI allI impI)
    fix i assume "i < length xs" then show "m (p + of_nat i) = xs ! i" using l by (simp add: stored_at_def nth_append)
  next
    fix i assume "i < length ys"
    then show "m (p + of_nat (length xs) + of_nat i) = ys ! i"
      using l [unfolded stored_at_def, rule_format, of "length xs + i"] by (simp add: add.assoc nth_append)
  qed
next
  assume r: "stored_at m p xs \<and> stored_at m (p + of_nat (length xs)) ys"
  show "stored_at m p (xs @ ys)"
    unfolding stored_at_def
  proof (intro allI impI)
    fix i
    assume "i < length (xs @ ys)"
    then consider "i < length xs" | j where "i = length xs + j" "j < length ys"
      by (metis add_less_cancel_left le_iff_add length_append not_less)
    then show "m (p + of_nat i) = (xs @ ys) ! i"
      using r by cases (simp_all add: stored_at_def nth_append add.assoc)
  qed
qed

lemma stored_at_Nil [simp]: "stored_at m p []"
  by (simp add: stored_at_def)

lemma stored_at_Cons [simp]: "stored_at m p (x # xs) \<longleftrightarrow> m p = x \<and> stored_at m (p + 1) xs"
  using stored_at_append [of m p "[x]" xs] by (simp add: stored_at_def)

lemma str_at_nth: "stored_at m p xs \<Longrightarrow> i < length xs \<Longrightarrow> str_at m p i = xs ! i"
  by (simp add: stored_at_def str_at_def)

lemma spells_at: "stored_at m p (xs @ [0]) \<Longrightarrow> 0 \<notin> set xs \<Longrightarrow> spells (str_at m p) xs"
  by (auto simp: spells_def stored_at_def str_at_def nth_append)

lemma hex_digit_char: "d < 16 \<Longrightarrow> hex_digit (hex_char d) = Some (of_nat d)"
proof -
  have "list_all (\<lambda>d. hex_digit (hex_char d) = Some (of_nat d)) [0..<16]" by code_simp
  then show "d < 16 \<Longrightarrow> hex_digit (hex_char d) = Some (of_nat d)" by (simp add: list_all_iff)
qed

lemma hex8_length [simp]: "length (hex8 w) = 8"
  by (simp add: hex8_def)

lemma parse_hex8: "parse_digits (hex8 w) 0 = Some w"
proof -
  have d: "hex_digit (hex_char (unat (take_bit 4 x))) = Some (take_bit 4 x)" for x :: u32
  proof -
    have "unat (take_bit 4 x) < 16" by (simp add: unsigned_take_bit_eq take_bit_nat_less_exp [where n = 4, simplified])
    from hex_digit_char [OF this] show ?thesis by (simp only: of_nat_unat ucast_id)
  qed
  let ?n = "\<lambda>k. take_bit 4 (drop_bit (4 * k) w)"
  have step: "push_bit 4 (drop_bit (4 * Suc k) w) OR ?n k = drop_bit (4 * k) w" for k
    by (rule bit_word_eqI) (auto simp: bit_simps algebra_simps)
  have top: "push_bit 4 0 OR ?n 7 = drop_bit 28 w" by (rule bit_word_eqI) (auto simp: bit_simps dest: bit_imp_le_length)
  have "parse_digits (hex8 w) 0 = Some (push_bit 4 (push_bit 4 (push_bit 4 (push_bit 4 (push_bit 4 (push_bit 4 (push_bit 4
      (push_bit 4 0 OR ?n 7) OR ?n 6) OR ?n 5) OR ?n 4) OR ?n 3) OR ?n 2) OR ?n 1) OR ?n 0)"
    by (simp add: hex8_def d)
  also have "... = Some w"
    using step [of 6] step [of 5] step [of 4] step [of 3] step [of 2] step [of 1] step [of 0] unfolding top by simp
  finally show ?thesis .
qed

lemma concat_segment:
  "(\<And>x. length (g x) = 8) \<Longrightarrow> k < n \<Longrightarrow> j < 8 \<Longrightarrow> concat (map g [0..<n]) ! (8 * k + j) = g k ! j"
proof (induction n)
  case (Suc n)
  have len: "length (concat (map g [0..<n])) = 8 * n" by (induction n) (simp_all add: Suc.prems(1))
  show ?case
  proof (cases "k < n")
    case True
    then have "8 * k + j < 8 * n" using Suc.prems(3) by linarith
    then show ?thesis using Suc True by (simp add: nth_append len)
  next
    case False
    then have "k = n" using Suc.prems(2) by simp
    then show ?thesis by (simp add: nth_append len)
  qed
qed simp

lemma newc_header_length [simp]: "length (newc_header fld) = 110"
proof -
  have "length (concat (map (\<lambda>k. hex8 (fld k)) [0..<n])) = 8 * n" for n by (induction n) simp_all
  then show ?thesis by (simp add: newc_header_def del: upt_rec_numeral)
qed

lemma parse_field:
  assumes "stored_at m q (newc_header fld)" and "k < 13" and "off = 6 + 8 * k"
  shows "cpio_parse_hex (str_at m q) off 8 = Some (fld k)"
proof -
  have "map (str_at m q) [off..<off + 8] = hex8 (fld k)"
  proof (rule nth_equalityI)
    fix j
    assume "j < length (map (str_at m q) [off..<off + 8])"
    then have j: "j < 8" by simp
    have "str_at m q (off + j) = newc_header fld ! (off + j)"
      using str_at_nth [OF assms(1), of "off + j"] assms(2,3) j by simp
    also have "... = concat (map (\<lambda>k. hex8 (fld k)) [0..<13]) ! (8 * k + j)"
      unfolding newc_header_def by (subst nth_append) (simp add: assms(3) del: upt_rec_numeral)
    also have "... = hex8 (fld k) ! j" by (rule concat_segment) (use assms(2) j in simp_all)
    finally show "map (str_at m q) [off..<off + 8] ! j = hex8 (fld k) ! j" using j by simp
  qed simp
  then show ?thesis by (simp add: cpio_parse_hex_def parse_hex8 del: upt_rec_numeral)
qed

lemma fields_of_header:
  assumes "stored_at m q (newc_header fld)"
  shows "cpio_fields (str_at m q) = Some \<lparr>inode = fld 0, mode = fld 1, uid = fld 2, gid = fld 3,
    nlink = fld 4, mtime = fld 5, filesize = fld 6, dev_major = fld 7, dev_minor = fld 8,
    rdev_major = fld 9, rdev_minor = fld 10, namesize = fld 11, check = fld 12,
    filename = 0, data = 0\<rparr>"
  using parse_field [OF assms, of 0] parse_field [OF assms, of 1] parse_field [OF assms, of 2] parse_field [OF assms, of 3]
    parse_field [OF assms, of 4] parse_field [OF assms, of 5] parse_field [OF assms, of 6] parse_field [OF assms, of 7]
    parse_field [OF assms, of 8] parse_field [OF assms, of 9] parse_field [OF assms, of 10] parse_field [OF assms, of 11]
    parse_field [OF assms, of 12]
  by (simp add: cpio_fields_def)

lemma magic_of_header: "stored_at m q (newc_header fld) \<Longrightarrow> cpio_check_magic (str_at m q)"
  using str_at_nth [of m q "newc_header fld"]
  by (simp add: cpio_check_magic_def) (simp add: newc_header_def nth_append del: upt_rec_numeral)

lemma pad4_props: "n \<le> pad4 n" "pad4 n < n + 4" "4 dvd pad4 n" "4 dvd a \<Longrightarrow> pad4 (a + b) = a + pad4 b"
proof -
  show "n \<le> pad4 n" "pad4 n < n + 4"
    using div_mult_mod_eq [of "n + 3" 4] mod_less_divisor [of 4 "n + 3"] by (simp_all add: pad4_def)
  show "4 dvd pad4 n" by (simp add: pad4_def)
  assume "4 dvd a"
  then obtain c where "a = 4 * c" ..
  then show "pad4 (a + b) = a + pad4 b" by (simp add: pad4_def add.assoc)
qed

lemma unat_cpio_align4:
  assumes "pad4 (unat x) < 2 ^ 32"
  shows "unat (cpio_align4 x) = pad4 (unat x)"
proof -
  obtain k where k: "pad4 (unat x) = 4 * k" using pad4_props(3) by (auto elim: dvdE)
  then have "k < 2 ^ 30" using assms by simp
  then have "pad4 (unat x) + 3 < 2 ^ 32" unfolding k by simp
  then have x3: "unat (x + 3) = unat x + 3" using pad4_props(1) [of "unat x"] by (simp add: unat_word_ariths)
  have "cpio_align4 x = (x + 3) AND NOT (mask 2)" by (simp add: cpio_align4_def mask_eq_exp_minus_1)
  then show ?thesis using unat_and_not_mask [of "x + 3" 2] x3 by (simp add: pad4_def)
qed

definition entry_of :: "arc_file \<Rightarrow> u64 \<Rightarrow> u64 \<Rightarrow> cpio_entry_t" where
  "entry_of f name_ptr data_ptr = \<lparr>inode = file_field f 0, mode = file_field f 1, uid = file_field f 2, gid = file_field f 3,
    nlink = file_field f 4, mtime = file_field f 5, filesize = file_field f 6, dev_major = file_field f 7, dev_minor = file_field f 8,
    rdev_major = file_field f 9, rdev_minor = file_field f 10, namesize = file_field f 11, check = file_field f 12,
    filename = name_ptr, data = data_ptr\<rparr>"

lemma padded_length [simp]: "length (padded xs) = pad4 (length xs)"
  using pad4_props(1) [of "length xs"] by (simp add: padded_def)

lemma newc_entry_length: "length (newc_entry f) = pad4 (111 + length (a_name f)) + pad4 (length (a_data f))"
  by (simp add: newc_entry_def add.commute)

text \<open>Where the name and the data of an entry at offset \<open>q\<close> begin.\<close>

abbreviation name_at :: "nat \<Rightarrow> nat" where "name_at q \<equiv> q + 110"
abbreviation data_at :: "nat \<Rightarrow> arc_file \<Rightarrow> nat" where "data_at q f \<equiv> q + pad4 (111 + length (a_name f))"

lemma entry_parts:
  assumes "stored_at m (a + of_nat q) (newc_entry f)"
  shows "stored_at m (a + of_nat q) (newc_header (file_field f))" and "stored_at m (a + of_nat (name_at q)) (a_name f @ [0])"
    and "stored_at m (a + of_nat (data_at q f)) (a_data f)"
proof -
  have "stored_at m (a + of_nat q) (padded (newc_header (file_field f) @ a_name f @ [0]))"
    "stored_at m (a + of_nat q + of_nat (pad4 (111 + length (a_name f)))) (padded (a_data f))"
    using assms by (simp_all add: newc_entry_def add.commute)
  then show "stored_at m (a + of_nat q) (newc_header (file_field f))" and "stored_at m (a + of_nat (name_at q)) (a_name f @ [0])"
    and "stored_at m (a + of_nat (data_at q f)) (a_data f)"
    by (simp_all add: padded_def add.assoc)
qed

lemma cpio_iter_next_entry:
  assumes st: "stored_at m (archive it + of_nat q) (newc_entry f)" and q: "unat (pos it) = q" "4 dvd q"
    and fit: "q + length (newc_entry f) \<le> unat (archive_size it)" and nm: "0 \<notin> set (a_name f)"
  shows "cpio_iter_next m it =
    (if a_name f = map of_char CPIO_TRAILER then Some (Inl CPIO_END_OF_ARCHIVE)
     else Some (Inr (it\<lparr>pos := of_nat (q + length (newc_entry f)), entry_count := entry_count it + 1\<rparr>,
                     entry_of f (archive it + of_nat (name_at q)) (archive it + of_nat (data_at q f)))))"
proof -
  let ?ns = "length (a_name f) + 1" and ?fs = "length (a_data f)" and ?sz = "archive_size it"
  have sz: "unat ?sz < 2 ^ 32" using unsigned_less [of ?sz, where 'a = nat] by simp
  have L: "length (newc_entry f) = pad4 (110 + ?ns) + pad4 ?fs" by (simp add: newc_entry_length)
  note pp = pad4_props(1,2) [of "110 + ?ns"] pad4_props(1,2) [of ?fs]
  have pq: "(ucast (pos it) :: u64) = of_nat q" by (simp add: q(1) [symmetric])
  have ns: "unat (file_field f 11) = ?ns" using fit L pp sz by (simp add: file_field_def unat_of_nat_u32 del: of_nat_add of_nat_Suc)
  have fs: "unat (file_field f 6) = ?fs" using fit L pp sz by (simp add: file_field_def unat_of_nat_u32)
  let ?p = "pos it + 110"
  have p: "unat ?p = q + 110" using fit L pp sz q(1) by (simp add: unat_word_ariths)
  have pn: "unat (?p + file_field f 11) = q + 110 + ?ns" using p ns fit L pp sz by (simp add: unat_word_ariths)
  have al: "pad4 (q + 110 + ?ns) = data_at q f" using pad4_props(4) [OF q(2), of "110 + ?ns"] by (simp add: ac_simps)
  let ?p2 = "cpio_align4 (?p + file_field f 11)"
  have p2: "unat ?p2 = data_at q f" using fit L sz al by (subst unat_cpio_align4) (simp_all add: pn)
  have pf: "unat (?p2 + file_field f 6) = data_at q f + ?fs" using p2 fs fit L pp sz by (simp add: unat_word_ariths)
  have "4 dvd data_at q f" using q(2) pad4_props(3) by (simp add: dvd_add)
  then have al2: "pad4 (data_at q f + ?fs) = q + length (newc_entry f)" using pad4_props(4) [of "data_at q f" ?fs] L by simp
  have p3: "cpio_align4 (?p2 + file_field f 6) = of_nat (q + length (newc_entry f))"
  proof -
    have "unat (cpio_align4 (?p2 + file_field f 6)) = q + length (newc_entry f)"
      using fit sz al2 by (subst unat_cpio_align4) (simp_all add: pf)
    then show ?thesis by (metis of_nat_unat ucast_id)
  qed
  have c1: "\<not> ?sz \<le> pos it" "\<not> ?sz - pos it < 6" "\<not> ?sz - pos it < 110"
    using fit L pp q(1) by (simp_all add: word_le_nat_alt word_less_nat_alt unat_sub)
  have c2: "\<not> ?sz < ?p + file_field f 11" "\<not> ?sz < ?p2 + file_field f 6"
    using fit L pp pn pf by (simp_all add: word_less_nat_alt)
  have ptr: "archive it + ucast (pos it) = archive it + of_nat q" by (simp add: pq)
  have ptrs: "(ucast ?p :: u64) = of_nat (name_at q)" "(ucast ?p2 :: u64) = of_nat (data_at q f)"
    by (simp_all only: p [symmetric] p2 [symmetric] of_nat_unat)
  note ep = entry_parts [OF st]
  have "spells (str_at m (archive it + of_nat (name_at q))) (a_name f)" using spells_at [OF ep(2) nm] .
  moreover have "spells (lit CPIO_TRAILER) (map of_char CPIO_TRAILER)" unfolding CPIO_TRAILER_def by code_simp
  ultimately have cmp: "cpio_strcmp (str_at m (archive it + of_nat (name_at q))) (lit CPIO_TRAILER)
      = Some (if a_name f = map of_char CPIO_TRAILER then 0 else 1)"
    by (rule cpio_strcmp_spells)
  show ?thesis
    unfolding cpio_iter_next_def ptr
    by (simp add: Let_def c1 c2 magic_of_header [OF ep(1)] fields_of_header [OF ep(1)] ptrs cmp p3 entry_of_def del: of_nat_add)
qed

end
