(* ===== verification/Ramdisk.thy ===== *)
theory Ramdisk
  imports Cpio
begin

text \<open>
  The ramdisk, \<^verbatim>\<open>src/kernel/initramfs/ramdisk.c\<close>: an index of at most 128 files of the
  archive, whose names and data stay where the archive lies. The loops over the archive and over
  the characters of a name follow the data and are \<open>partial_function\<close>s.
\<close>

subsection \<open>Data\<close>

record ramdisk_entry_t =
  e_filename :: u64
  e_data :: u64
  e_size :: u32
  e_mode :: u32
  e_mtime :: u32

text \<open>What the callers get has the same fields.\<close>

type_synonym ramdisk_file_t = ramdisk_entry_t

record ramdisk =
  files :: "nat \<Rightarrow> ramdisk_entry_t"
  file_count :: u32
  initialized :: bool

abbreviation (input) RAMDISK_OK :: int where "RAMDISK_OK \<equiv> 0"
abbreviation (input) RAMDISK_NO_SUCH_FILE :: int where "RAMDISK_NO_SUCH_FILE \<equiv> - 2"
abbreviation (input) RAMDISK_CORRUPTED :: int where "RAMDISK_CORRUPTED \<equiv> - 3"
abbreviation (input) RAMDISK_MAX_FILES :: u32 where "RAMDISK_MAX_FILES \<equiv> 128"

subsection \<open>Operations\<close>

definition ramdisk_store :: "u32 \<Rightarrow> cpio_entry_t \<Rightarrow> ramdisk \<Rightarrow> ramdisk" where
  "ramdisk_store entry_idx entry rd =
     rd\<lparr>files := (files rd)(unat entry_idx := \<lparr>e_filename = filename entry, e_data = data entry, e_size = filesize entry,
                                             e_mode = mode entry, e_mtime = mtime entry\<rparr>)\<rparr>"

definition ramdisk_done :: "u32 \<Rightarrow> ramdisk \<Rightarrow> int \<times> ramdisk" where
  "ramdisk_done entry_idx rd = (RAMDISK_OK, rd\<lparr>file_count := entry_idx, initialized := True\<rparr>)"

partial_function (option) init_loop :: "mem \<Rightarrow> cpio_iterator_t \<Rightarrow> u32 \<Rightarrow> ramdisk \<Rightarrow> (int \<times> ramdisk) option" where
  "init_loop m iter entry_idx rd =
     do {
       r \<leftarrow> cpio_iter_next m iter;
       case r of
         Inl status \<Rightarrow>
           if status = CPIO_END_OF_ARCHIVE then Some (ramdisk_done entry_idx rd) else Some (RAMDISK_CORRUPTED, rd)
       | Inr (iter', entry) \<Rightarrow>
           if entry_idx \<ge> RAMDISK_MAX_FILES then Some (ramdisk_done entry_idx rd)
           else if filesize entry = 0 then init_loop m iter' entry_idx rd
           else init_loop m iter' (entry_idx + 1) (ramdisk_store entry_idx entry rd)
     }"

definition ramdisk_init_from_archive :: "mem \<Rightarrow> u64 \<Rightarrow> u32 \<Rightarrow> ramdisk \<Rightarrow> (int \<times> ramdisk) option" where
  "ramdisk_init_from_archive m arc asize rd =
     (if arc = 0 \<or> asize = 0 then Some (RAMDISK_CORRUPTED, rd)
      else if initialized rd then Some (RAMDISK_OK, rd)
      else
        (case cpio_iter_init m arc asize of
           Inl _ \<Rightarrow> Some (RAMDISK_CORRUPTED, rd)
         | Inr iter \<Rightarrow> init_loop m iter 0 rd))"

text \<open>The comparison inside \<open>ramdisk_lookup\<close>: both strings ended at the same place.\<close>

partial_function (option) name_match :: "cstr \<Rightarrow> cstr \<Rightarrow> nat \<Rightarrow> bool option" where
  "name_match f e i =
     (if f i \<noteq> 0 \<and> e i \<noteq> 0 \<and> f i = e i then name_match f e (i + 1)
      else Some (f i = 0 \<and> e i = 0))"

fun lookup_from :: "mem \<Rightarrow> ramdisk \<Rightarrow> cstr \<Rightarrow> nat list \<Rightarrow> (int + ramdisk_file_t) option" where
  "lookup_from m rd fname [] = Some (Inl RAMDISK_NO_SUCH_FILE)"
| "lookup_from m rd fname (i # is) =
     do {
       b \<leftarrow> name_match fname (str_at m (e_filename (files rd i))) 0;
       if b then Some (Inr (files rd i)) else lookup_from m rd fname is
     }"

text \<open>The last argument, and that of \<open>ramdisk_get_file\<close>, says whether \<open>file\<close> points to a buffer.\<close>

definition ramdisk_lookup :: "mem \<Rightarrow> ramdisk \<Rightarrow> cstr option \<Rightarrow> bool \<Rightarrow> (int + ramdisk_file_t) option" where
  "ramdisk_lookup m rd fname file =
     (case fname of
        None \<Rightarrow> Some (Inl RAMDISK_NO_SUCH_FILE)
      | Some f \<Rightarrow>
          if \<not> file then Some (Inl RAMDISK_NO_SUCH_FILE)
          else if \<not> initialized rd then Some (Inl RAMDISK_CORRUPTED)
          else lookup_from m rd f [0..<unat (file_count rd)])"

definition ramdisk_file_count :: "ramdisk \<Rightarrow> u32" where
  "ramdisk_file_count rd = file_count rd"

definition ramdisk_get_file :: "u32 \<Rightarrow> bool \<Rightarrow> ramdisk \<Rightarrow> int + ramdisk_file_t" where
  "ramdisk_get_file index file rd =
     (if \<not> file then Inl RAMDISK_NO_SUCH_FILE
      else if \<not> initialized rd then Inl RAMDISK_CORRUPTED
      else if index \<ge> file_count rd then Inl RAMDISK_NO_SUCH_FILE
      else Inr (files rd (unat index)))"

subsection \<open>Comparing names\<close>

lemma name_match_from:
  assumes "spells f xs" and "spells e ys" and "i \<le> length xs" and "i \<le> length ys" and "take i xs = take i ys"
  shows "name_match f e i = Some (xs = ys)"
  using assms(3-)
proof (induction "length xs - i" arbitrary: i)
  case 0
  then have i: "i = length xs" by simp
  have "name_match f e i = Some (e i = 0)"
    using assms(1) i by (subst name_match.simps) (auto simp: spells_def)
  moreover have "e i = 0 \<longleftrightarrow> xs = ys"
    using 0 i assms(2) spells_nth [OF assms(2), of i] by (cases "i < length ys") (auto simp: spells_def)
  ultimately show ?case by simp
next
  case (Suc n)
  then have xi: "i < length xs" by simp
  note a = spells_nth [OF assms(1) xi]
  show ?case
  proof (cases "i < length ys \<and> f i = e i")
    case False
    then have "xs \<noteq> ys" "e i = 0 \<or> f i \<noteq> e i"
      using xi a spells_nth [OF assms(2), of i] assms(2) Suc.prems by (auto simp: spells_def)
    then show ?thesis using a by (subst name_match.simps) auto
  next
    case True
    note b = spells_nth [OF assms(2) conjunct1 [OF True]]
    have "take (Suc i) xs = take (Suc i) ys" using Suc.prems(3) a b xi True by (simp add: take_Suc_conv_app_nth)
    then have "name_match f e (Suc i) = Some (xs = ys)"
      using Suc.hyps(1) [of "Suc i"] Suc.hyps(2) xi True by simp
    then show ?thesis using a b True by (subst name_match.simps) auto
  qed
qed

lemma name_match_spells: "spells f xs \<Longrightarrow> spells e ys \<Longrightarrow> name_match f e 0 = Some (xs = ys)"
  by (rule name_match_from) simp_all

subsection \<open>The index of an archive\<close>

text \<open>The entries for the files of an archive at address \<open>a\<close>, from offset \<open>q\<close> on.\<close>

fun index_of :: "u64 \<Rightarrow> nat \<Rightarrow> arc_file list \<Rightarrow> ramdisk_entry_t list" where
  "index_of a q [] = []"
| "index_of a q (f # fs) =
     (if a_data f = [] then []
      else [\<lparr>e_filename = a + of_nat (name_at q), e_data = a + of_nat (data_at q f), e_size = file_field f 6,
             e_mode = file_field f 1, e_mtime = file_field f 5\<rparr>])
     @ index_of a (q + length (newc_entry f)) fs"

definition has_data :: "arc_file \<Rightarrow> bool" where
  "has_data f \<longleftrightarrow> a_data f \<noteq> []"

definition good_name :: "u8 list \<Rightarrow> bool" where
  "good_name xs \<longleftrightarrow> 0 \<notin> set xs \<and> xs \<noteq> map of_char CPIO_TRAILER"

lemma entry_length_dvd: "4 dvd length (newc_entry f)"
  using pad4_props(3) by (simp add: newc_entry_length dvd_add)

lemma trailer_name: "0 \<notin> set (map of_char CPIO_TRAILER :: u8 list)"
  unfolding CPIO_TRAILER_def by code_simp

lemma index_of_length: "length (index_of a q fs) = length (filter has_data fs)"
  by (induction fs arbitrary: q) (simp_all add: has_data_def)

text \<open>The loop stores the index and sets the count.\<close>

definition indexed :: "ramdisk \<Rightarrow> nat \<Rightarrow> ramdisk_entry_t list \<Rightarrow> ramdisk \<Rightarrow> bool" where
  "indexed rd k es rd' \<longleftrightarrow> initialized rd' \<and> unat (file_count rd') = k + length es
     \<and> (\<forall>i < k + length es. files rd' i = (if i < k then files rd i else es ! (i - k)))"

lemma init_loop_archive:
  assumes "stored_at m (archive it + of_nat q) (concat (map newc_entry fs) @ newc_entry trailer_file)"
    and "unat (pos it) = q" and "4 dvd q"
    and "q + length (concat (map newc_entry fs) @ newc_entry trailer_file) \<le> unat (archive_size it)"
    and "list_all (\<lambda>f. good_name (a_name f)) fs" and "unat k + length (filter has_data fs) \<le> 128"
  shows "\<exists>rd'. init_loop m it k rd = Some (0, rd') \<and> indexed rd (unat k) (index_of (archive it) q fs) rd'"
  using assms
proof (induction fs arbitrary: it q k rd)
  case Nil
  have "cpio_iter_next m it = Some (Inl CPIO_END_OF_ARCHIVE)"
    using cpio_iter_next_entry [of m it q trailer_file] Nil trailer_name by (simp add: trailer_file_def)
  then show ?case
    by (subst init_loop.simps) (simp add: ramdisk_done_def indexed_def)
next
  case (Cons f fs)
  let ?L = "length (newc_entry f)" and ?a = "archive it"
  define it' where "it' = it\<lparr>pos := of_nat (q + ?L), entry_count := entry_count it + 1\<rparr>"
  define en where "en = entry_of f (?a + of_nat (name_at q)) (?a + of_nat (data_at q f))"
  have g: "0 \<notin> set (a_name f)" "a_name f \<noteq> map of_char CPIO_TRAILER" using Cons.prems(5) by (simp_all add: good_name_def)
  have nx: "cpio_iter_next m it = Some (Inr (it', en))"
    using cpio_iter_next_entry [of m it q f] Cons.prems g by (simp add: it'_def en_def)
  have sz: "q + ?L < 2 ^ 32" using Cons.prems(4) unsigned_less [of "archive_size it", where 'a = nat] by simp
  have fit: "length (a_data f) < 2 ^ 32" using sz pad4_props(1) [of "length (a_data f)"] by (simp add: newc_entry_length)
  have IH: "\<exists>rd'. init_loop m it' k' rd1 = Some (0, rd') \<and> indexed rd1 (unat k') (index_of ?a (q + ?L) fs) rd'"
    if "unat k' + length (filter has_data fs) \<le> 128" for k' rd1
    using Cons.IH [of it' "q + ?L" k' rd1] Cons.prems that sz entry_length_dvd [of f]
    by (simp add: it'_def add.assoc unat_of_nat_u32 dvd_add del: of_nat_add) (simp add: add.assoc)
  have fz: "filesize en = 0 \<longleftrightarrow> a_data f = []"
    using fit of_nat_u32_eq_0 [of "length (a_data f)"] by (simp add: en_def entry_of_def file_field_def)
  show ?case
  proof (cases "a_data f = []")
    case True
    have "unat k + length (filter has_data fs) \<le> 128" using Cons.prems(6) True by (simp add: has_data_def [of f])
    from IH [OF this, of rd] obtain rd' where r: "init_loop m it' k rd = Some (0, rd')"
      "indexed rd (unat k) (index_of ?a (q + ?L) fs) rd'" by blast
    show ?thesis
    proof (cases "k \<ge> 128")
      case True
      then have "128 \<le> unat k" by (simp add: word_le_nat_alt)
      then have none: "length (filter has_data (f # fs)) = 0" "unat k = 128" using Cons.prems(6) by linarith+
      then have "index_of ?a q (f # fs) = []" using index_of_length [of ?a q "f # fs"] by (metis length_0_conv)
      then show ?thesis using True nx by (subst init_loop.simps) (auto simp: ramdisk_done_def indexed_def none(2))
    next
      case False
      then show ?thesis using r nx fz True by (subst init_loop.simps) simp
    qed
  next
    case False
    then have k: "unat k + 1 + length (filter has_data fs) \<le> 128" using Cons.prems(6) by (simp add: has_data_def [of f])
    have k1: "unat (k + 1) = unat k + 1" using k by (simp add: unat_word_ariths)
    then obtain rd' where r: "init_loop m it' (k + 1) (ramdisk_store k en rd) = Some (0, rd')"
      "indexed (ramdisk_store k en rd) (unat k + 1) (index_of ?a (q + ?L) fs) rd'"
      using IH [of "k + 1" "ramdisk_store k en rd"] k by auto
    have "\<not> k \<ge> 128" using k by (simp add: word_le_nat_alt)
    then have "init_loop m it k rd = Some (0, rd')" using r(1) nx fz False by (subst init_loop.simps) simp
    moreover have "indexed rd (unat k) (index_of ?a q (f # fs)) rd'"
      using r(2) False by (auto simp: indexed_def ramdisk_store_def en_def entry_of_def nth_Cons' less_Suc_eq)
    ultimately show ?thesis by blast
  qed
qed

text \<open>An index entry leads to the name and the data of its file.\<close>

definition leads_to :: "mem \<Rightarrow> arc_file \<Rightarrow> ramdisk_entry_t \<Rightarrow> bool" where
  "leads_to m f e \<longleftrightarrow> spells (str_at m (e_filename e)) (a_name f) \<and> unat (e_size e) = length (a_data f)
     \<and> stored_at m (e_data e) (a_data f) \<and> e_mode e = a_field f 1 \<and> e_mtime e = a_field f 5"

lemma index_leads_to:
  assumes "stored_at m (a + of_nat q) (concat (map newc_entry fs) @ ys)" and "list_all (\<lambda>f. good_name (a_name f)) fs"
    and "q + length (concat (map newc_entry fs)) < 2 ^ 32"
  shows "list_all2 (leads_to m) (filter has_data fs) (index_of a q fs)"
  using assms
proof (induction fs arbitrary: q)
  case (Cons f fs)
  have st: "stored_at m (a + of_nat q) (newc_entry f)" using Cons.prems(1) by simp
  note ep = entry_parts [OF st]
  have sp: "spells (str_at m (a + of_nat (name_at q))) (a_name f)"
    using spells_at [OF ep(2)] Cons.prems(2) by (simp add: good_name_def)
  have "length (a_data f) < 2 ^ 32" using Cons.prems(3) pad4_props(1) [of "length (a_data f)"] by (simp add: newc_entry_length)
  then have "leads_to m f \<lparr>e_filename = a + of_nat (name_at q), e_data = a + of_nat (data_at q f), e_size = file_field f 6,
      e_mode = file_field f 1, e_mtime = file_field f 5\<rparr>"
    using sp ep(3) by (simp add: leads_to_def file_field_def unat_of_nat_u32 del: of_nat_add)
  moreover have "list_all2 (leads_to m) (filter has_data fs) (index_of a (q + length (newc_entry f)) fs)"
    using Cons.IH [of "q + length (newc_entry f)"] Cons.prems by (simp add: add.assoc)
  ultimately show ?case by (simp add: has_data_def [of f])
qed simp

text \<open>What looking \<open>nm\<close> up must return: the first of the files \<open>fs\<close> with that name.\<close>

definition lookup_spec :: "mem \<Rightarrow> u8 list \<Rightarrow> arc_file list \<Rightarrow> (int + ramdisk_file_t) option \<Rightarrow> bool" where
  "lookup_spec m nm fs res \<longleftrightarrow>
     (case find (\<lambda>f. a_name f = nm) fs of
        None \<Rightarrow> res = Some (Inl RAMDISK_NO_SUCH_FILE)
      | Some f \<Rightarrow> \<exists>e. res = Some (Inr e) \<and> leads_to m f e)"

lemma lookup_indexed:
  assumes "list_all2 (leads_to m) fs es" and "spells g nm"
    and "\<And>i. i < length es \<Longrightarrow> files rd (k + i) = es ! i"
  shows "lookup_spec m nm fs (lookup_from m rd g [k..<k + length es])"
  using assms(1,3)
proof (induction arbitrary: k rule: list_all2_induct)
  case (Cons f fs e es)
  have e: "files rd k = e" using Cons.prems [of 0] by simp
  have "name_match g (str_at m (e_filename e)) 0 = Some (nm = a_name f)"
    using assms(2) Cons.hyps(1) by (intro name_match_spells) (simp_all add: leads_to_def)
  moreover have up: "[k..<k + length (e # es)] = k # [Suc k..<Suc k + length es]" using upt_conv_Cons [of k "k + length (e # es)"] by simp
  moreover have "files rd (Suc k + i) = es ! i" if "i < length es" for i using Cons.prems [of "Suc i"] that by simp
  ultimately show ?case unfolding up using Cons.IH [of "Suc k"] e Cons.hyps(1) by (cases "nm = a_name f") (auto simp: lookup_spec_def)
qed (simp add: lookup_spec_def)

lemma newc_archive_length: "110 \<le> length (newc_archive fs)"
  using pad4_props(1) [of "111 + length (a_name trailer_file)"] by (simp add: newc_archive_def newc_entry_length)

lemma ramdisk_archive:
  assumes "stored_at m arc (newc_archive fs)" and "arc \<noteq> 0" and "length (newc_archive fs) < 2 ^ 32"
    and "list_all (\<lambda>f. good_name (a_name f)) fs" and "length (filter has_data fs) \<le> 128"
    and "\<not> initialized rd"
  obtains rd' where "ramdisk_init_from_archive m arc (of_nat (length (newc_archive fs))) rd = Some (RAMDISK_OK, rd')"
    and "\<And>g nm. spells g nm \<Longrightarrow> lookup_spec m nm (filter has_data fs) (ramdisk_lookup m rd' (Some g) True)"
proof -
  let ?n = "length (newc_archive fs)"
  have n: "unat (of_nat ?n :: u32) = ?n" using assms(3) by (simp add: unat_of_nat_u32)
  note n110 = newc_archive_length [of fs]
  define it where "it = \<lparr>archive = arc, archive_size = of_nat ?n, pos = 0, entry_count = 0\<rparr>"
  obtain f rest where "newc_archive fs = newc_entry f @ rest" by (cases fs) (auto simp: newc_archive_def)
  then have "stored_at m arc (newc_header (file_field f))" using assms(1) entry_parts(1) [of m arc 0 f] by simp
  from magic_of_header [OF this] have init: "cpio_iter_init m arc (of_nat ?n) = Inr it"
    using assms(2) n n110 by (simp add: cpio_iter_init_def it_def word_less_nat_alt)
  obtain rd' where r: "init_loop m it 0 rd = Some (0, rd')" "indexed rd 0 (index_of arc 0 fs) rd'"
    using init_loop_archive [of m it 0 fs 0 rd] assms(1,4,5) n by (auto simp: it_def newc_archive_def)
  have "(of_nat ?n :: u32) \<noteq> 0" using n n110 by auto
  then have ini: "ramdisk_init_from_archive m arc (of_nat ?n) rd = Some (RAMDISK_OK, rd')"
    using assms(2,6) init r(1) by (simp add: ramdisk_init_from_archive_def)
  have la: "list_all2 (leads_to m) (filter has_data fs) (index_of arc 0 fs)"
    by (rule index_leads_to) (use assms(1,3,4) in \<open>auto simp: newc_archive_def\<close>)
  have lk: "ramdisk_lookup m rd' (Some g) True = lookup_from m rd' g [0..<0 + length (index_of arc 0 fs)]" for g
    using r(2) by (simp add: ramdisk_lookup_def indexed_def)
  have "lookup_spec m nm (filter has_data fs) (ramdisk_lookup m rd' (Some g) True)" if "spells g nm" for g nm
    unfolding lk by (rule lookup_indexed [OF la that]) (use r(2) in \<open>simp add: indexed_def\<close>)
  with ini show thesis by (rule that)
qed

text \<open>
  C13. Indexing an archive and looking a name up inverts the archiver: for any archive written in
  the \<open>newc\<close> format whose names have no null character and are not the trailer's, with at most 128
  files that are not empty, the initialisation returns with success, and a lookup finds exactly
  the first file of that name that has data, with its size, mode, time and bytes, or reports that
  there is none.
\<close>

theorem ramdisk_roundtrip:
  assumes "stored_at m arc (newc_archive fs)" and "arc \<noteq> 0" and "length (newc_archive fs) < 2 ^ 32"
    and "list_all (\<lambda>f. good_name (a_name f)) fs" and "length (filter has_data fs) \<le> 128"
    and "\<not> initialized rd" and "spells g nm"
  shows "\<exists>rd'. ramdisk_init_from_archive m arc (of_nat (length (newc_archive fs))) rd = Some (RAMDISK_OK, rd')
    \<and> lookup_spec m nm (filter has_data fs) (ramdisk_lookup m rd' (Some g) True)"
  by (rule ramdisk_archive [OF assms(1-6)]) (use assms(7) in blast)

definition sample_files :: "arc_file list" where
  "sample_files = [\<lparr>a_name = map of_char ''lib'', a_data = [], a_field = \<lambda>_. 0\<rparr>,
     \<lparr>a_name = map of_char ''a.dll'', a_data = [0x4D, 0x5A, 0x90], a_field = \<lambda>_. 0\<rparr>]"

definition mem_with :: "u64 \<Rightarrow> u8 list \<Rightarrow> mem" where
  "mem_with p xs = (\<lambda>a. if unat (a - p) < length xs then xs ! unat (a - p) else 0)"

lemma mem_with_stored: "length xs < 2 ^ 64 \<Longrightarrow> stored_at (mem_with p xs) p xs"
  by (simp add: stored_at_def mem_with_def unat_of_nat_u64)

definition empty_ramdisk :: ramdisk where
  "empty_ramdisk = \<lparr>files = \<lambda>_. \<lparr>e_filename = 0, e_data = 0, e_size = 0, e_mode = 0, e_mtime = 0\<rparr>, file_count = 0, initialized = False\<rparr>"

theorem ramdisk_roundtrip_witness:
  "\<exists>rd' e. ramdisk_init_from_archive (mem_with 0x1000 (newc_archive sample_files)) 0x1000
       (of_nat (length (newc_archive sample_files))) empty_ramdisk = Some (0, rd')
     \<and> ramdisk_lookup (mem_with 0x1000 (newc_archive sample_files)) rd' (Some (lit ''a.dll'')) True = Some (Inr e) \<and> unat (e_size e) = 3"
proof -
  let ?xs = "newc_archive sample_files" and ?m = "mem_with 0x1000 (newc_archive sample_files)"
  let ?nm = "map of_char ''a.dll'' :: u8 list"
  have len: "length ?xs < 2 ^ 32"
    by (simp add: newc_archive_def newc_entry_length sample_files_def trailer_file_def CPIO_TRAILER_def pad4_def)
  have st: "stored_at ?m 0x1000 ?xs" using len by (intro mem_with_stored) simp
  have gn: "list_all (\<lambda>f. good_name (a_name f)) sample_files" unfolding sample_files_def good_name_def CPIO_TRAILER_def by code_simp
  have sp: "spells (lit ''a.dll'') ?nm" unfolding spells_def lit_def by code_simp
  have fs: "find (\<lambda>f. a_name f = ?nm) (filter has_data sample_files) = Some (sample_files ! 1)" "length (filter has_data sample_files) \<le> 128"
    by (simp_all add: sample_files_def has_data_def)
  obtain rd' where r: "ramdisk_init_from_archive ?m 0x1000 (of_nat (length ?xs)) empty_ramdisk = Some (0, rd')"
      "lookup_spec ?m ?nm (filter has_data sample_files) (ramdisk_lookup ?m rd' (Some (lit ''a.dll'')) True)"
    using ramdisk_roundtrip [OF st _ len gn fs(2) _ sp, of empty_ramdisk] by (auto simp: empty_ramdisk_def)
  then obtain e where "ramdisk_lookup ?m rd' (Some (lit ''a.dll'')) True = Some (Inr e)" "leads_to ?m (sample_files ! 1) e"
    unfolding lookup_spec_def fs by auto
  then show ?thesis using r(1) by (auto simp: leads_to_def sample_files_def)
qed

text \<open>
  The size checks of \<open>cpio_iter_next\<close> wrap around: a name size of \<open>2\<^sup>3\<^sup>2 - 110\<close> brings the position
  back to the entry itself, and the loop over the archive never ends.
\<close>

lemma cpio_entry_stuck:
  assumes st: "stored_at m (archive it) (newc_header fld)" and fld: "fld 11 = 0xFFFFFF92" "fld 6 = 0"
    and it: "pos it = 0" "110 \<le> archive_size it" and nm: "m (archive it + 110) = 0"
  shows "\<exists>en. cpio_iter_next m it = Some (Inr (it\<lparr>entry_count := entry_count it + 1\<rparr>, en)) \<and> filesize en = 0"
proof -
  have "str_at m (archive it + 110) 0 = 0" using nm by (simp add: str_at_def)
  moreover have "lit CPIO_TRAILER 0 \<noteq> 0" unfolding lit_def CPIO_TRAILER_def by code_simp
  ultimately have "cpio_strcmp (str_at m (archive it + 110)) (lit CPIO_TRAILER) = Some 1"
    unfolding cpio_strcmp_def by (subst cpio_strcmp_from.simps) simp
  moreover have "\<not> archive_size it \<le> 0" "\<not> archive_size it < 6" "\<not> archive_size it < 110"
    using it(2) by (auto simp: word_le_nat_alt word_less_nat_alt)
  moreover have "it\<lparr>pos := 0, entry_count := entry_count it + 1\<rparr> = it\<lparr>entry_count := entry_count it + 1\<rparr>" using it(1) by simp
  moreover have wrap: "(0x100000000 :: u32) = 0" by code_simp
  ultimately show ?thesis
    using magic_of_header [OF st] fields_of_header [OF st] fld it(1)
    by (simp add: cpio_iter_next_def Let_def cpio_align4_def wrap)
qed

lemma init_loop_stuck:
  assumes "stored_at m (archive it) (newc_header fld)" and "fld 11 = 0xFFFFFF92" and "fld 6 = 0"
    and "pos it = 0" and "110 \<le> archive_size it" and "m (archive it + 110) = 0" and "k < 128"
  shows "init_loop m it k rd = None"
proof -
  let ?bad = "\<lambda>m it k. stored_at m (archive it) (newc_header fld) \<and> pos it = 0 \<and> 110 \<le> archive_size it
    \<and> m (archive it + 110) = 0 \<and> k < (128 :: u32)"
  have "\<not> ?bad m it k" if "init_loop m it k rd = Some r" for r
    using _ that
  proof (rule init_loop.raw_induct [where P = "\<lambda>m it k rd r. \<not> ?bad m it k"])
    fix loop m it k rd r
    assume IH: "\<And>m it k rd r. loop m it k rd = Some r \<Longrightarrow> \<not> ?bad m it k"
      and run: "do { r \<leftarrow> cpio_iter_next m it;
         case r of
           Inl status \<Rightarrow> if status = CPIO_END_OF_ARCHIVE then Some (ramdisk_done k rd) else Some (RAMDISK_CORRUPTED, rd)
         | Inr (iter', entry) \<Rightarrow>
             if k \<ge> RAMDISK_MAX_FILES then Some (ramdisk_done k rd)
             else if filesize entry = 0 then loop m iter' k rd
             else loop m iter' (k + 1) (ramdisk_store k entry rd) } = Some r"
    show "\<not> ?bad m it k"
    proof
      assume bad: "?bad m it k"
      obtain en where "cpio_iter_next m it = Some (Inr (it\<lparr>entry_count := entry_count it + 1\<rparr>, en))" "filesize en = 0"
        using cpio_entry_stuck [of m it fld] bad assms(2,3) by blast
      moreover have "\<not> 128 \<le> k" using bad by (simp add: not_le)
      ultimately have "loop m (it\<lparr>entry_count := entry_count it + 1\<rparr>) k rd = Some r" using run by simp
      from IH [OF this] bad show False by simp
    qed
  qed
  with assms show ?thesis by (cases "init_loop m it k rd") auto
qed

end
