(* ===== verification/Tinflate.thy ===== *)
theory Tinflate
  imports Kernel_Prelude
begin

text \<open>
  The DEFLATE and gzip decompressor, \<^verbatim>\<open>src/kernel/initramfs/tinflate.c\<close>. The input and the
  output are buffers that do not overlap. The bytes from \<open>source\<close> to \<open>source_end\<close> are a
  list, and so are the bytes from \<open>dest_start\<close> to \<open>dest\<close>; the room of the output buffer is
  \<open>dest_cap\<close>. Arrays are total functions; what the stack holds before an array is written is
  an argument (\<open>uninit\<close>), so that the theorems cover any contents.
\<close>

subsection \<open>Data\<close>

record tinf_tree_t =
  counts :: "nat \<Rightarrow> u16"
  symbols :: "nat \<Rightarrow> u16"
  max_sym :: int

record tinf_data_t =
  source :: "u8 list"
  tag :: u32
  bitcount :: nat
  overflow :: bool
  dest :: "u8 list"
  dest_cap :: nat
  ltree :: tinf_tree_t
  dtree :: tinf_tree_t

record uninit =
  un_ltree :: tinf_tree_t
  un_dtree :: tinf_tree_t
  un_lengths :: "nat \<Rightarrow> u8"

abbreviation (input) TINFLATE_OK :: int where "TINFLATE_OK \<equiv> 0"
abbreviation (input) TINFLATE_INVALID_DATA :: int where "TINFLATE_INVALID_DATA \<equiv> - 1"
abbreviation (input) TINFLATE_OUTPUT_OVERFLOW :: int where "TINFLATE_OUTPUT_OVERFLOW \<equiv> - 2"

definition read_le16 :: "(nat \<Rightarrow> u8) \<Rightarrow> nat \<Rightarrow> u32" where
  "read_le16 p i = ucast (p i) OR push_bit 8 (ucast (p (i + 1)))"

definition read_le32 :: "(nat \<Rightarrow> u8) \<Rightarrow> nat \<Rightarrow> u32" where
  "read_le32 p i = ((ucast (p i) OR push_bit 8 (ucast (p (i + 1)))) OR push_bit 16 (ucast (p (i + 2))))
     OR push_bit 24 (ucast (p (i + 3)))"

subsection \<open>Checksum\<close>

definition tinf_crc32tab :: "u32 list" where
  "tinf_crc32tab =
    [0x00000000, 0x1DB71064, 0x3B6E20C8, 0x26D930AC,
     0x76DC4190, 0x6B6B51F4, 0x4DB26158, 0x5005713C,
     0xEDB88320, 0xF00F9344, 0xD6D6A3E8, 0xCB61B38C,
     0x9B64C2B0, 0x86D3D2D4, 0xA00AE278, 0xBDBDF21C]"

definition crc_nibble :: "u32 \<Rightarrow> u32" where
  "crc_nibble crc = (tinf_crc32tab ! unat (crc AND 0x0F)) XOR drop_bit 4 crc"

definition crc_byte :: "u8 \<Rightarrow> u32 \<Rightarrow> u32" where
  "crc_byte b crc = crc_nibble (crc_nibble (crc XOR ucast b))"

definition tinf_crc32 :: "u8 list \<Rightarrow> u32" where
  "tinf_crc32 buf = (if buf = [] then 0 else fold crc_byte buf 0xFFFFFFFF XOR 0xFFFFFFFF)"

subsection \<open>Trees\<close>

definition put_range :: "nat \<Rightarrow> nat \<Rightarrow> nat \<Rightarrow> (nat \<Rightarrow> u16) \<Rightarrow> nat \<Rightarrow> u16" where
  "put_range at n first = fold (\<lambda>i s. s(at + i := of_nat (first + i))) [0..<n]"

definition tinf_build_fixed_trees :: "tinf_tree_t \<times> tinf_tree_t \<Rightarrow> tinf_tree_t \<times> tinf_tree_t" where
  "tinf_build_fixed_trees = (\<lambda>(lt, dt).
     (let lcounts = (fold (\<lambda>i c. c(i := 0)) [0..<16] (counts lt))(7 := 24, 8 := 152, 9 := 112);
          lsymbols = put_range (24 + 144 + 8) 112 144 (put_range (24 + 144) 8 280
                       (put_range 24 144 0 (put_range 0 24 256 (symbols lt))));
          dcounts = (fold (\<lambda>i c. c(i := 0)) [0..<16] (counts dt))(5 := 32);
          dsymbols = put_range 0 32 0 (symbols dt)
      in (\<lparr>counts = lcounts, symbols = lsymbols, max_sym = 285\<rparr>,
          \<lparr>counts = dcounts, symbols = dsymbols, max_sym = 29\<rparr>)))"

text \<open>The first loop of \<open>tinf_build_tree\<close>; \<open>None\<close> is the early return.\<close>

fun count_codes :: "(nat \<Rightarrow> u8) \<Rightarrow> nat list \<Rightarrow> tinf_tree_t \<Rightarrow> tinf_tree_t option" where
  "count_codes lengths [] t = Some t"
| "count_codes lengths (i # is) t =
     (if lengths i > 15 then None
      else count_codes lengths is
        (if lengths i \<noteq> 0
         then t\<lparr>max_sym := int i, counts := (counts t)(unat (lengths i) := counts t (unat (lengths i)) + 1)\<rparr>
         else t))"

text \<open>The second loop: the offset of the first symbol of every length.\<close>

fun code_offsets ::
  "(nat \<Rightarrow> u16) \<Rightarrow> nat list \<Rightarrow> u32 \<Rightarrow> u32 \<Rightarrow> (nat \<Rightarrow> u16) \<Rightarrow> (u32 \<times> u32 \<times> (nat \<Rightarrow> u16)) option" where
  "code_offsets cnt [] available num_codes offs = Some (available, num_codes, offs)"
| "code_offsets cnt (i # is) available num_codes offs =
     (let used = ucast (cnt i) :: u32
      in if used > available then None
         else code_offsets cnt is (2 * (available - used)) (num_codes + used) (offs(i := ucast num_codes)))"

text \<open>The third loop: \<open>t->symbols[offs[lengths[i]]++] = i\<close>.\<close>

definition place_symbol :: "(nat \<Rightarrow> u8) \<Rightarrow> nat \<Rightarrow> (nat \<Rightarrow> u16) \<times> (nat \<Rightarrow> u16) \<Rightarrow> (nat \<Rightarrow> u16) \<times> (nat \<Rightarrow> u16)" where
  "place_symbol lengths i = (\<lambda>(offs, syms).
     (let l = unat (lengths i)
      in if lengths i \<noteq> 0 then (offs(l := offs l + 1), syms(unat (offs l) := of_nat i)) else (offs, syms)))"

definition tinf_build_tree :: "tinf_tree_t \<Rightarrow> (nat \<Rightarrow> u8) \<Rightarrow> nat \<Rightarrow> tinf_tree_t option" where
  "tinf_build_tree t lengths num =
     do {
       t1 \<leftarrow> count_codes lengths [0..<num] (t\<lparr>counts := fold (\<lambda>i c. c(i := 0)) [0..<16] (counts t), max_sym := - 1\<rparr>);
       (available, num_codes, offs) \<leftarrow> code_offsets (counts t1) [0..<16] 1 0 (\<lambda>_. 0);
       if num_codes > 1 \<and> available > 0 \<or> num_codes = 1 \<and> counts t1 1 \<noteq> 1 then None
       else
         (let (_, syms) = fold (place_symbol lengths) [0..<num] (offs, symbols t1);
              t2 = t1\<lparr>symbols := syms\<rparr>
          in if num_codes = 1
             then Some (t2\<lparr>counts := (counts t2)(1 := 2), symbols := syms(1 := of_int (max_sym t2 + 1))\<rparr>)
             else Some t2)
     }"

subsection \<open>Bits\<close>

function tinf_refill :: "tinf_data_t \<Rightarrow> nat \<Rightarrow> tinf_data_t" where
  "tinf_refill d num =
     (if bitcount d < num then
        tinf_refill
          (case source d of
             b # bs \<Rightarrow> d\<lparr>source := bs, tag := tag d OR push_bit (bitcount d) (ucast b), bitcount := bitcount d + 8\<rparr>
           | [] \<Rightarrow> d\<lparr>overflow := True, bitcount := bitcount d + 8\<rparr>) num
      else d)"
  by pat_completeness auto

termination by (relation "measure (\<lambda>(d, num). num - bitcount d)") (auto split: list.split)

declare tinf_refill.simps [simp del]

definition tinf_getbits_no_refill :: "tinf_data_t \<Rightarrow> nat \<Rightarrow> u32 \<times> tinf_data_t" where
  "tinf_getbits_no_refill d num =
     (tag d AND (push_bit num 1 - 1), d\<lparr>tag := drop_bit num (tag d), bitcount := bitcount d - num\<rparr>)"

definition tinf_getbits :: "tinf_data_t \<Rightarrow> nat \<Rightarrow> u32 \<times> tinf_data_t" where
  "tinf_getbits d num = tinf_getbits_no_refill (tinf_refill d num) num"

definition tinf_getbits_base :: "tinf_data_t \<Rightarrow> nat \<Rightarrow> u32 \<Rightarrow> u32 \<times> tinf_data_t" where
  "tinf_getbits_base d num base =
     (if num \<noteq> 0 then (let (bits, d') = tinf_getbits d num in (base + bits, d')) else (base + 0, d))"

text \<open>
  The loop of \<open>tinf_decode_symbol\<close>. Neither \<open>base\<close> nor \<open>offs\<close> is ever negative; only the
  result is.
\<close>

function decode_loop :: "tinf_data_t \<Rightarrow> tinf_tree_t \<Rightarrow> nat \<Rightarrow> nat \<Rightarrow> nat \<Rightarrow> int \<times> tinf_data_t" where
  "decode_loop d t len base offs =
     (let (b0, d1) = tinf_getbits d 1;
          offs1 = 2 * offs + unat b0
      in if len > 15 then (- 1, d1)
         else if offs1 < unat (counts t len) then (uint (symbols t (base + offs1)), d1)
         else decode_loop d1 t (len + 1) (base + unat (counts t len)) (offs1 - unat (counts t len)))"
  by pat_completeness auto

termination by (relation "measure (\<lambda>(d, t, len, base, offs). 16 - len)") auto

declare decode_loop.simps [simp del]

definition tinf_decode_symbol :: "tinf_data_t \<Rightarrow> tinf_tree_t \<Rightarrow> int \<times> tinf_data_t" where
  "tinf_decode_symbol d t = decode_loop d t 1 0 0"

subsection \<open>What the bit reader consumes\<close>

text \<open>The bits not yet handed out. Past the end of the input the reader delivers zeros and sets
  \<open>overflow\<close>, which is never cleared.\<close>

definition bits_left :: "tinf_data_t \<Rightarrow> nat" where
  "bits_left d = 8 * length (source d) + bitcount d"

text \<open>What only the bit reader changed: the output and the trees are the same.\<close>

definition same_output :: "tinf_data_t \<Rightarrow> tinf_data_t \<Rightarrow> bool" where
  "same_output d d' \<longleftrightarrow> dest d' = dest d \<and> dest_cap d' = dest_cap d \<and> ltree d' = ltree d \<and> dtree d' = dtree d
     \<and> length (source d') \<le> length (source d) \<and> (overflow d \<longrightarrow> overflow d') \<and> (overflow d' \<or> bits_left d' \<le> bits_left d)"

lemma same_output_refl [simp]: "same_output d d"
  by (simp add: same_output_def)

lemma same_output_trans: "same_output d d1 \<Longrightarrow> same_output d1 d2 \<Longrightarrow> same_output d d2"
  by (auto simp: same_output_def)

lemma tinf_refill_props:
  "same_output d (tinf_refill d num) \<and> num \<le> bitcount (tinf_refill d num)
     \<and> (overflow (tinf_refill d num) \<or> bits_left (tinf_refill d num) = bits_left d)"
proof (induction d num rule: tinf_refill.induct)
  case (1 d num)
  show ?case
  proof (cases "bitcount d < num")
    case True
    note IH = 1 [OF True]
    show ?thesis
    proof (cases "source d")
      case Nil
      then show ?thesis using IH True
        by (subst (1 2 3 4) tinf_refill.simps) (auto simp: same_output_def bits_left_def)
    next
      case (Cons b bs)
      then show ?thesis using IH True
        by (subst (1 2 3 4) tinf_refill.simps) (auto simp: same_output_def bits_left_def)
    qed
  qed (simp add: tinf_refill.simps)
qed

lemma tinf_getbits_props:
  assumes "tinf_getbits d num = (b, d')" and "num < 32"
  shows "unat b < 2 ^ num" and "same_output d d'" and "overflow d' \<or> bits_left d' + num = bits_left d"
proof -
  let ?r = "tinf_refill d num"
  have b: "b = take_bit num (tag ?r)" and d': "d' = ?r\<lparr>tag := drop_bit num (tag ?r), bitcount := bitcount ?r - num\<rparr>"
    using assms(1) by (auto simp: tinf_getbits_def tinf_getbits_no_refill_def take_bit_eq_mask mask_eq_exp_minus_1 push_bit_of_1)
  show "unat b < 2 ^ num" by (simp add: b unsigned_take_bit_eq take_bit_nat_less_exp)
  show "same_output d d'" using tinf_refill_props [of d num] by (auto simp: same_output_def d' bits_left_def)
  show "overflow d' \<or> bits_left d' + num = bits_left d"
    using tinf_refill_props [of d num] by (auto simp: d' bits_left_def)
qed

lemma tinf_getbits_base_props:
  assumes "tinf_getbits_base d num base = (v, d')" and "num < 16" and "unat base < 2 ^ 16"
  shows "unat base \<le> unat v" and "unat v < unat base + 2 ^ num" and "same_output d d'"
    and "overflow d' \<or> bits_left d' + num = bits_left d"
proof -
  have "unat base \<le> unat v \<and> unat v < unat base + 2 ^ num \<and> same_output d d' \<and> (overflow d' \<or> bits_left d' + num = bits_left d)"
  proof (cases "num = 0")
    case False
    then obtain b where g: "tinf_getbits d num = (b, d')" and v: "v = base + b"
      using assms(1) by (auto simp: tinf_getbits_base_def split: prod.splits)
    note p = tinf_getbits_props [OF g]
    have b: "unat b < 2 ^ num" using p(1) assms(2) by simp
    have "(2 :: nat) ^ num \<le> 2 ^ 16" using assms(2) by (intro power_increasing) simp_all
    with b assms(3) have "unat v = unat base + unat b" by (simp add: v unat_word_ariths)
    then show ?thesis using p b assms(2) by auto
  qed (use assms(1) in \<open>auto simp: tinf_getbits_base_def\<close>)
  then show "unat base \<le> unat v" "unat v < unat base + 2 ^ num" "same_output d d'"
    "overflow d' \<or> bits_left d' + num = bits_left d" by simp_all
qed

lemma decode_loop_step:
  "tinf_getbits d 1 = (b0, d1) \<Longrightarrow> decode_loop d t len base offs =
     (if len > 15 then (- 1, d1)
      else if 2 * offs + unat b0 < unat (counts t len) then (uint (symbols t (base + (2 * offs + unat b0))), d1)
      else decode_loop d1 t (len + 1) (base + unat (counts t len)) (2 * offs + unat b0 - unat (counts t len)))"
  by (subst decode_loop.simps) (simp add: Let_def)

lemma decode_loop_props:
  "decode_loop d t len base offs = (s, d') \<Longrightarrow> same_output d d' \<and> (overflow d' \<or> bits_left d' < bits_left d)"
proof (induction d t len base offs rule: decode_loop.induct)
  case (1 d t len base offs)
  obtain b0 d1 where g: "tinf_getbits d 1 = (b0, d1)" by fastforce
  have p: "same_output d d1" "overflow d1 \<or> bits_left d1 < bits_left d" using tinf_getbits_props [OF g] by auto
  let ?o = "2 * offs + unat b0"
  show ?case
  proof (cases "len > 15 \<or> ?o < unat (counts t len)")
    case True
    then have "d' = d1" using 1(2) decode_loop_step [OF g] by (auto split: if_splits)
    then show ?thesis using p by simp
  next
    case False
    then have "decode_loop d1 t (len + 1) (base + unat (counts t len)) (?o - unat (counts t len)) = (s, d')"
      using 1(2) decode_loop_step [OF g] by simp
    from 1(1) [OF g [symmetric] refl refl _ _ this] False
    have "same_output d1 d' \<and> (overflow d' \<or> bits_left d' < bits_left d1)" by simp
    then show ?thesis using p same_output_trans [OF p(1)] by (auto simp: same_output_def)
  qed
qed

lemma tinf_decode_symbol_props:
  "tinf_decode_symbol d t = (s, d') \<Longrightarrow> same_output d d'"
  "tinf_decode_symbol d t = (s, d') \<Longrightarrow> \<not> overflow d' \<Longrightarrow> bits_left d' < bits_left d"
  by (auto simp: tinf_decode_symbol_def dest!: decode_loop_props)

subsection \<open>Dynamic trees\<close>

definition clcidx :: "nat list" where
  "clcidx = [16, 17, 18, 0, 8, 7, 9, 6, 10, 5, 11, 4, 12, 3, 13, 2, 14, 1, 15]"

definition read_clen :: "nat \<Rightarrow> (nat \<Rightarrow> u8) \<times> tinf_data_t \<Rightarrow> (nat \<Rightarrow> u8) \<times> tinf_data_t" where
  "read_clen i = (\<lambda>(lengths, d). (let (bits, d1) = tinf_getbits d 3 in (lengths(clcidx ! i := ucast bits), d1)))"

text \<open>The \<open>switch\<close> of \<open>tinf_decode_trees\<close>: the value to store and how often.\<close>

definition length_symbol :: "(nat \<Rightarrow> u8) \<Rightarrow> nat \<Rightarrow> int \<Rightarrow> tinf_data_t \<Rightarrow> (u8 \<times> nat \<times> tinf_data_t) option" where
  "length_symbol lengths num sy d =
     (if sy = 16 then
        (if num = 0 then None
         else (let (l, d1) = tinf_getbits_base d 2 3 in Some (lengths (num - 1), unat l, d1)))
      else if sy = 17 then (let (l, d1) = tinf_getbits_base d 3 3 in Some (0, unat l, d1))
      else if sy = 18 then (let (l, d1) = tinf_getbits_base d 7 11 in Some (0, unat l, d1))
      else Some (of_int sy, 1, d))"

lemma length_symbol_props:
  assumes "length_symbol lengths num sy d = Some (v, n, d')"
  shows "1 \<le> n" and "same_output d d'"
proof -
  have b: "unat (3 :: u32) = 3" "unat (11 :: u32) = 11" by simp_all
  have "1 \<le> n \<and> same_output d d'"
    using assms tinf_getbits_base_props(1,3) [of d 2 3] tinf_getbits_base_props(1,3) [of d 3 3] tinf_getbits_base_props(1,3) [of d 7 11]
    unfolding length_symbol_def b by (auto split: if_splits prod.splits)
  then show "1 \<le> n" "same_output d d'" by simp_all
qed

function read_lengths ::
  "tinf_data_t \<Rightarrow> tinf_tree_t \<Rightarrow> nat \<Rightarrow> nat \<Rightarrow> (nat \<Rightarrow> u8) \<Rightarrow> ((nat \<Rightarrow> u8) \<times> tinf_data_t) option" where
  "read_lengths d lt todo num lengths =
     (if num < todo then
        (let (sym, d1) = tinf_decode_symbol d lt
         in if sym < 0 \<or> sym > max_sym lt then None
            else
              (case length_symbol lengths num sym d1 of
                 None \<Rightarrow> None
               | Some (v, n, d2) \<Rightarrow>
                   if n > todo - num then None
                   else read_lengths d2 lt todo (num + n) (fold (\<lambda>j l. l(j := v)) [num..<num + n] lengths)))
      else Some (lengths, d))"
  by pat_completeness auto

termination
  by (relation "measure (\<lambda>(d, lt, todo, num, lengths). todo - num)") (auto dest!: length_symbol_props(1))

declare read_lengths.simps [simp del]

definition tinf_decode_trees ::
  "uninit \<Rightarrow> tinf_data_t \<Rightarrow> tinf_tree_t \<Rightarrow> tinf_tree_t \<Rightarrow> (tinf_tree_t \<times> tinf_tree_t \<times> tinf_data_t) option" where
  "tinf_decode_trees u d lt dt =
     (let (hlit, d1) = tinf_getbits_base d 5 257;
          (hdist, d2) = tinf_getbits_base d1 5 1;
          (hclen, d3) = tinf_getbits_base d2 4 4
      in if hlit > 286 \<or> hdist > 30 then None
         else
           (let lengths0 = fold (\<lambda>i l. l(i := 0)) [0..<19] (un_lengths u);
                (lengths1, d4) = fold read_clen [0..<unat hclen] (lengths0, d3)
            in do {
                 lt1 \<leftarrow> tinf_build_tree lt lengths1 19;
                 if max_sym lt1 = - 1 then None
                 else do {
                   (lengths2, d5) \<leftarrow> read_lengths d4 lt1 (unat hlit + unat hdist) 0 lengths1;
                   if lengths2 256 = 0 then None
                   else do {
                     lt2 \<leftarrow> tinf_build_tree lt1 lengths2 (unat hlit);
                     dt2 \<leftarrow> tinf_build_tree dt (\<lambda>i. lengths2 (unat hlit + i)) (unat hdist);
                     Some (lt2, dt2, d5)
                   }
                 }
               }))"

subsection \<open>Blocks\<close>

definition length_bits :: "nat list" where
  "length_bits = [0, 0, 0, 0, 0, 0, 0, 0, 1, 1, 1, 1, 2, 2, 2, 2, 3, 3, 3, 3, 4, 4, 4, 4, 5, 5, 5, 5, 0, 127]"

definition length_base :: "u32 list" where
  "length_base = [3, 4, 5, 6, 7, 8, 9, 10, 11, 13, 15, 17, 19, 23, 27, 31, 35, 43, 51, 59,
     67, 83, 99, 115, 131, 163, 195, 227, 258, 0]"

definition dist_bits :: "nat list" where
  "dist_bits = [0, 0, 0, 0, 1, 1, 2, 2, 3, 3, 4, 4, 5, 5, 6, 6, 7, 7, 8, 8, 9, 9, 10, 10, 11, 11, 12, 12, 13, 13]"

definition dist_base :: "u32 list" where
  "dist_base = [1, 2, 3, 4, 5, 7, 9, 13, 17, 25, 33, 49, 65, 97, 129, 193, 257, 385, 513, 769,
     1025, 1537, 2049, 3073, 4097, 6145, 8193, 12289, 16385, 24577]"

text \<open>\<open>(int)\<close> of a pointer difference keeps its low 32 bits.\<close>

definition as_int :: "nat \<Rightarrow> int" where
  "as_int n = sint (of_nat n :: u32)"

text \<open>\<open>d->dest[i] = d->dest[i - offs]\<close>, byte by byte: the source may run into the copy.\<close>

primrec copy_match :: "nat \<Rightarrow> nat \<Rightarrow> u8 list \<Rightarrow> u8 list" where
  "copy_match offs 0 out = out"
| "copy_match offs (Suc n) out = copy_match offs n (out @ [out ! (length out - offs)])"

text \<open>One turn of the loop of \<open>tinf_inflate_block_data\<close>: \<open>Inl\<close> is a return.\<close>

definition inflate_symbol :: "tinf_data_t \<Rightarrow> tinf_tree_t \<Rightarrow> tinf_tree_t \<Rightarrow> (int \<times> tinf_data_t) + tinf_data_t" where
  "inflate_symbol d lt dt =
     (let (sym, d1) = tinf_decode_symbol d lt
      in if overflow d1 then Inl (TINFLATE_INVALID_DATA, d1)
         else if sym < 256 then
           (if length (dest d1) = dest_cap d1 then Inl (TINFLATE_OUTPUT_OVERFLOW, d1)
            else Inr (d1\<lparr>dest := dest d1 @ [of_int sym]\<rparr>))
         else if sym = 256 then Inl (TINFLATE_OK, d1)
         else if sym > max_sym lt \<or> sym - 257 > 28 \<or> max_sym dt = - 1 then Inl (TINFLATE_INVALID_DATA, d1)
         else
           (let l = nat (sym - 257);
                (len, d2) = tinf_getbits_base d1 (length_bits ! l) (length_base ! l);
                (dist, d3) = tinf_decode_symbol d2 dt
            in if dist < 0 \<or> dist > max_sym dt \<or> dist > 29 then Inl (TINFLATE_INVALID_DATA, d3)
               else
                 (let (offs, d4) = tinf_getbits_base d3 (dist_bits ! nat dist) (dist_base ! nat dist)
                  in if int (unat offs) > as_int (length (dest d4)) then Inl (TINFLATE_INVALID_DATA, d4)
                     else if as_int (dest_cap d4 - length (dest d4)) < int (unat len) then Inl (TINFLATE_OUTPUT_OVERFLOW, d4)
                     else Inr (d4\<lparr>dest := copy_match (unat offs) (unat len) (dest d4)\<rparr>))))"

text \<open>A turn that does not return has consumed a bit or reached the end of the input.\<close>

definition input_left :: "tinf_data_t \<Rightarrow> nat" where
  "input_left d = (if overflow d then 0 else Suc (bits_left d))"

lemma table_bounds:
  "l < 29 \<Longrightarrow> length_bits ! l < 16 \<and> unat (length_base ! l) < 2 ^ 16"
  "k < 30 \<Longrightarrow> dist_bits ! k < 16 \<and> unat (dist_base ! k) < 2 ^ 16 \<and> 1 \<le> unat (dist_base ! k)"
proof -
  have "list_all (\<lambda>n. n < 16) (take 29 length_bits)" "list_all (\<lambda>w. unat w < 2 ^ 16) (take 29 length_base)"
    "length (take 29 length_bits) = 29" "length (take 29 length_base) = 29" by (simp_all add: length_bits_def length_base_def)
  then show "l < 29 \<Longrightarrow> length_bits ! l < 16 \<and> unat (length_base ! l) < 2 ^ 16"
    using nth_take [of l 29] by (metis list_all_length)
  have "list_all (\<lambda>n. n < 16) dist_bits" "list_all (\<lambda>w. unat w < 2 ^ 16 \<and> 1 \<le> unat w) dist_base"
    "length dist_bits = 30" "length dist_base = 30" by (simp_all add: dist_bits_def dist_base_def)
  then show "k < 30 \<Longrightarrow> dist_bits ! k < 16 \<and> unat (dist_base ! k) < 2 ^ 16 \<and> 1 \<le> unat (dist_base ! k)"
    by (simp add: list_all_length)
qed

lemma as_int_le: "as_int n \<le> int n"
proof -
  have "sint x \<le> int (unat x)" for x :: u32
  proof (cases "unat x < 2 ^ 31")
    case False
    then have "sint x < 0" by (intro sint_large) simp
    then show ?thesis using of_nat_0_le_iff [of "unat x"] by linarith
  qed (use sint_small [of x] in linarith)
  then have "sint (of_nat n :: u32) \<le> int (unat (of_nat n :: u32))" .
  also have "... \<le> int n" by (simp add: unsigned_of_nat take_bit_eq_mod)
  finally show ?thesis by (simp add: as_int_def)
qed

lemma copy_match_length [simp]: "length (copy_match offs n out) = length out + n"
  by (induction n arbitrary: out) simp_all

lemma copy_match_prefix: "\<exists>ys. copy_match offs n out = out @ ys"
proof (induction n arbitrary: out)
  case (Suc n)
  from Suc [of "out @ [out ! (length out - offs)]"] show ?case by auto
qed simp

text \<open>What a turn does to the output: bytes are appended, within the room of the buffer.\<close>

definition grows :: "tinf_data_t \<Rightarrow> tinf_data_t \<Rightarrow> bool" where
  "grows d d' \<longleftrightarrow> (\<exists>ys. dest d' = dest d @ ys) \<and> dest_cap d' = dest_cap d
     \<and> (length (dest d) \<le> dest_cap d \<longrightarrow> length (dest d') \<le> dest_cap d)"

lemma grows_refl [simp]: "grows d d"
  by (simp add: grows_def)

lemma grows_trans: "grows d d1 \<Longrightarrow> grows d1 d2 \<Longrightarrow> grows d d2"
  by (auto simp: grows_def)

lemma same_output_grows: "same_output d d' \<Longrightarrow> grows d d'"
  by (simp add: grows_def same_output_def)

lemma inflate_symbol_props:
  shows "inflate_symbol d lt dt = Inr d' \<Longrightarrow> input_left d' < input_left d \<and> grows d d' \<and> ltree d' = ltree d \<and> dtree d' = dtree d"
    and "inflate_symbol d lt dt = Inl (r, d') \<Longrightarrow> grows d d' \<and> (r = 0 \<longrightarrow> \<not> overflow d \<and> \<not> overflow d' \<and> bits_left d' < bits_left d)"
proof -
  obtain sy d1 where s: "tinf_decode_symbol d lt = (sy, d1)" by fastforce
  define l where "l = nat (sy - 257)"
  obtain len d2 where g: "tinf_getbits_base d1 (length_bits ! l) (length_base ! l) = (len, d2)" by fastforce
  obtain di d3 where t: "tinf_decode_symbol d2 dt = (di, d3)" by fastforce
  obtain offs d4 where o: "tinf_getbits_base d3 (dist_bits ! nat di) (dist_base ! nat di) = (offs, d4)" by fastforce
  have e: "inflate_symbol d lt dt =
    (if overflow d1 then Inl (TINFLATE_INVALID_DATA, d1)
     else if sy < 256 then
       (if length (dest d1) = dest_cap d1 then Inl (TINFLATE_OUTPUT_OVERFLOW, d1) else Inr (d1\<lparr>dest := dest d1 @ [of_int sy]\<rparr>))
     else if sy = 256 then Inl (TINFLATE_OK, d1)
     else if sy > max_sym lt \<or> sy - 257 > 28 \<or> max_sym dt = - 1 then Inl (TINFLATE_INVALID_DATA, d1)
     else if di < 0 \<or> di > max_sym dt \<or> di > 29 then Inl (TINFLATE_INVALID_DATA, d3)
     else if int (unat offs) > as_int (length (dest d4)) then Inl (TINFLATE_INVALID_DATA, d4)
     else if as_int (dest_cap d4 - length (dest d4)) < int (unat len) then Inl (TINFLATE_OUTPUT_OVERFLOW, d4)
     else Inr (d4\<lparr>dest := copy_match (unat offs) (unat len) (dest d4)\<rparr>))"
    by (simp add: inflate_symbol_def Let_def s g [unfolded l_def] t o)
  have s1: "same_output d d1" "\<not> overflow d1 \<Longrightarrow> bits_left d1 < bits_left d" using tinf_decode_symbol_props [OF s] by auto
  have s2: "same_output d1 d2" if "256 < sy" "\<not> 28 < sy - 257"
  proof -
    have "l < 29" using that by (simp add: l_def)
    from table_bounds(1) [OF this] show ?thesis using tinf_getbits_base_props(3) [OF g] by simp
  qed
  have s3: "same_output d2 d3" using tinf_decode_symbol_props(1) [OF t] .
  have s4: "same_output d3 d4" if "\<not> di < 0" "\<not> 29 < di"
  proof -
    have "nat di < 30" using that by simp
    from table_bounds(2) [OF this] show ?thesis using tinf_getbits_base_props(3) [OF o] by simp
  qed
  have s13: "same_output d1 d3" if "256 < sy" "\<not> 28 < sy - 257" using same_output_trans [OF s2 s3] that .
  have s14: "same_output d1 d4" if "256 < sy" "\<not> 28 < sy - 257" "\<not> di < 0" "\<not> 29 < di"
    using same_output_trans [OF s13 s4] that by blast
  note gr = same_output_grows [OF s1(1)]
  show "grows d d' \<and> (r = 0 \<longrightarrow> \<not> overflow d \<and> \<not> overflow d' \<and> bits_left d' < bits_left d)"
    if "inflate_symbol d lt dt = Inl (r, d')"
    using that gr s1 grows_trans [OF gr same_output_grows [OF s13]] grows_trans [OF gr same_output_grows [OF s14]]
    unfolding e by (auto split: if_splits simp: same_output_def)
  show "input_left d' < input_left d \<and> grows d d' \<and> ltree d' = ltree d \<and> dtree d' = dtree d"
    if r: "inflate_symbol d lt dt = Inr d'"
  proof (cases "sy < 256")
    case True
    then have "d' = d1\<lparr>dest := dest d1 @ [of_int sy]\<rparr>" "\<not> overflow d1" "length (dest d1) \<noteq> dest_cap d1"
      using r unfolding e by (auto split: if_splits)
    then show ?thesis using s1 by (auto simp: same_output_def input_left_def bits_left_def grows_def)
  next
    case False
    then have d': "d' = d4\<lparr>dest := copy_match (unat offs) (unat len) (dest d4)\<rparr>" "\<not> overflow d1" "256 < sy" "\<not> 28 < sy - 257"
        "\<not> di < 0" "\<not> 29 < di" "int (unat len) \<le> as_int (dest_cap d4 - length (dest d4))"
      using r unfolding e by (auto split: if_splits)
    have "unat len \<le> dest_cap d4 - length (dest d4)" using d'(7) as_int_le [of "dest_cap d4 - length (dest d4)"] by linarith
    moreover obtain ys where "copy_match (unat offs) (unat len) (dest d4) = dest d4 @ ys" using copy_match_prefix by blast
    ultimately have "grows d4 d'" using copy_match_length [of "unat offs" "unat len" "dest d4"] by (auto simp: grows_def d'(1))
    moreover note s14' = s14 [OF d'(3-6)]
    ultimately have "grows d d'" using grows_trans [OF grows_trans [OF gr same_output_grows [OF s14']]] by blast
    moreover have "input_left d' < input_left d"
      using s1 s14' d'(1,2) by (auto simp: same_output_def input_left_def bits_left_def)
    ultimately show ?thesis using s1 s14' by (simp add: d'(1) same_output_def)
  qed
qed

function tinf_inflate_block_data :: "tinf_data_t \<Rightarrow> tinf_tree_t \<Rightarrow> tinf_tree_t \<Rightarrow> int \<times> tinf_data_t" where
  "tinf_inflate_block_data d lt dt =
     (case inflate_symbol d lt dt of
        Inl r \<Rightarrow> r
      | Inr d' \<Rightarrow> tinf_inflate_block_data d' lt dt)"
  by pat_completeness auto

termination
  by (relation "measure (\<lambda>(d, lt, dt). input_left d)") (auto dest!: inflate_symbol_props(1))

declare tinf_inflate_block_data.simps [simp del]

lemma tinf_inflate_block_data_props:
  "tinf_inflate_block_data d lt dt = (r, d') \<Longrightarrow>
     grows d d' \<and> (r = 0 \<longrightarrow> \<not> overflow d \<and> \<not> overflow d' \<and> bits_left d' < bits_left d)"
proof (induction d lt dt rule: tinf_inflate_block_data.induct)
  case (1 d lt dt)
  show ?case
  proof (cases "inflate_symbol d lt dt")
    case (Inl p)
    then have "inflate_symbol d lt dt = Inl (r, d')"
      using 1(2) by (subst (asm) tinf_inflate_block_data.simps) simp
    then show ?thesis by (rule inflate_symbol_props(2))
  next
    case (Inr d1)
    then have "tinf_inflate_block_data d1 lt dt = (r, d')"
      using 1(2) by (subst (asm) tinf_inflate_block_data.simps) simp
    from 1(1) [OF Inr this] inflate_symbol_props(1) [OF Inr] show ?thesis
      using grows_trans by (auto simp: input_left_def split: if_splits)
  qed
qed

definition tinf_inflate_uncompressed_block :: "tinf_data_t \<Rightarrow> int \<times> tinf_data_t" where
  "tinf_inflate_uncompressed_block d =
     (if length (source d) < 4 then (TINFLATE_INVALID_DATA, d)
      else
        (let len = read_le16 ((!) (source d)) 0;
             invlength = read_le16 ((!) (source d)) 2
         in if len \<noteq> NOT invlength AND 0x0000FFFF then (TINFLATE_INVALID_DATA, d)
            else
              (let src = drop 4 (source d); d1 = d\<lparr>source := src\<rparr>
               in if length src < unat len then (TINFLATE_INVALID_DATA, d1)
                  else if dest_cap d - length (dest d) < unat len then (TINFLATE_OUTPUT_OVERFLOW, d1)
                  else (TINFLATE_OK, d1\<lparr>source := drop (unat len) src, dest := dest d @ take (unat len) src,
                                        tag := 0, bitcount := 0\<rparr>))))"

text \<open>The \<open>switch\<close> of \<open>tinf_uncompress\<close>.\<close>

definition inflate_block :: "uninit \<Rightarrow> u32 \<Rightarrow> tinf_data_t \<Rightarrow> int \<times> tinf_data_t" where
  "inflate_block u btype d =
     (if btype = 0 then tinf_inflate_uncompressed_block (d\<lparr>bitcount := 0, tag := 0\<rparr>)
      else if btype = 1 then
        (let (lt, dt) = tinf_build_fixed_trees (ltree d, dtree d)
         in tinf_inflate_block_data (d\<lparr>ltree := lt, dtree := dt\<rparr>) lt dt)
      else if btype = 2 then
        (case tinf_decode_trees u d (ltree d) (dtree d) of
           None \<Rightarrow> (TINFLATE_INVALID_DATA, d)
         | Some (lt, dt, d1) \<Rightarrow> tinf_inflate_block_data (d1\<lparr>ltree := lt, dtree := dt\<rparr>) lt dt)
      else (TINFLATE_INVALID_DATA, d))"

lemma read_clen_props: "fold read_clen is (l, d) = (l', d') \<Longrightarrow> same_output d d'"
proof (induction "is" arbitrary: l d)
  case (Cons i "is")
  obtain b d1 where g: "tinf_getbits d 3 = (b, d1)" by fastforce
  then have "read_clen i (l, d) = (l(clcidx ! i := ucast b), d1)" by (simp add: read_clen_def)
  then have "fold read_clen is (l(clcidx ! i := ucast b), d1) = (l', d')" using Cons.prems by simp
  from same_output_trans [OF tinf_getbits_props(2) [OF g] Cons.IH [OF this]] show ?case by simp
qed simp

lemma read_lengths_props: "read_lengths d lt todo num l = Some (l', d') \<Longrightarrow> same_output d d'"
proof (induction d lt todo num l rule: read_lengths.induct)
  case (1 d lt todo num l)
  show ?case
  proof (cases "num < todo")
    case False
    then show ?thesis using 1(2) by (subst (asm) read_lengths.simps) simp
  next
    case True
    obtain sy d1 where s: "tinf_decode_symbol d lt = (sy, d1)" by fastforce
    with 1(2) True obtain v n d2 where k: "\<not> (sy < 0 \<or> sy > max_sym lt)" "length_symbol l num sy d1 = Some (v, n, d2)"
        "\<not> n > todo - num" "read_lengths d2 lt todo (num + n) (fold (\<lambda>j l. l(j := v)) [num..<num + n] l) = Some (l', d')"
      by (subst (asm) read_lengths.simps) (auto split: if_splits option.splits)
    from 1(1) [OF True s [symmetric] refl k(1) k(2) refl refl k(3,4)]
    show ?thesis using tinf_decode_symbol_props(1) [OF s] length_symbol_props(2) [OF k(2)] same_output_trans by metis
  qed
qed

lemma tinf_decode_trees_props:
  assumes "tinf_decode_trees u d lt dt = Some (lt', dt', d')"
  shows "same_output d d'"
proof -
  obtain hlit d1 where g1: "tinf_getbits_base d 5 257 = (hlit, d1)" by fastforce
  obtain hdist d2 where g2: "tinf_getbits_base d1 5 1 = (hdist, d2)" by fastforce
  obtain hclen d3 where g3: "tinf_getbits_base d2 4 4 = (hclen, d3)" by fastforce
  let ?l0 = "fold (\<lambda>i l. l(i := 0)) [0..<19] (un_lengths u)"
  obtain l1 d4 where g4: "fold read_clen [0..<unat hclen] (?l0, d3) = (l1, d4)" by fastforce
  obtain lt1 l2 where "read_lengths d4 lt1 (unat hlit + unat hdist) 0 l1 = Some (l2, d')"
    using assms by (auto simp: tinf_decode_trees_def Let_def g1 g2 g3 g4 simp del: upt_rec_numeral split: if_splits Option.bind_splits)
  from read_lengths_props [OF this] read_clen_props [OF g4] tinf_getbits_base_props(3) [OF g1] tinf_getbits_base_props(3) [OF g2]
    tinf_getbits_base_props(3) [OF g3]
  have "same_output d4 d'" "same_output d3 d4" "same_output d d1" "same_output d1 d2" "same_output d2 d3" by simp_all
  then show ?thesis by (meson same_output_trans)
qed

lemma inflate_block_props:
  assumes "inflate_block u btype d = (r, d')"
  shows "grows d d'" and "r = 0 \<Longrightarrow> bits_left d' < 8 * length (source d) \<or> \<not> overflow d \<and> bits_left d' < bits_left d"
proof -
  let ?goal = "grows d d' \<and> (r = 0 \<longrightarrow> bits_left d' < 8 * length (source d) \<or> \<not> overflow d \<and> bits_left d' < bits_left d)"
  have coded: ?goal if s: "same_output d d1" and b: "tinf_inflate_block_data (d1\<lparr>ltree := lt, dtree := dt\<rparr>) lt dt = (r, d')" for d1 lt dt
  proof -
    have "grows d1 d' \<and> (r = 0 \<longrightarrow> \<not> overflow d1 \<and> bits_left d' < bits_left d1)"
      using tinf_inflate_block_data_props [OF b] by (simp add: grows_def bits_left_def)
    then show ?thesis using grows_trans [OF same_output_grows [OF s]] s by (auto simp: same_output_def)
  qed
  have ?goal
  proof (cases "btype = 0 \<or> btype \<noteq> 1 \<and> btype \<noteq> 2")
    case True
    then show ?thesis using assms
      by (auto simp: inflate_block_def tinf_inflate_uncompressed_block_def Let_def grows_def bits_left_def split: if_splits)
  next
    case False
    then consider (fixed) "btype = 1" | (dynamic) "btype = 2" by blast
    then show ?thesis
    proof cases
      case fixed
      obtain lt dt where t: "tinf_build_fixed_trees (ltree d, dtree d) = (lt, dt)" by fastforce
      show ?thesis using coded [OF same_output_refl, where lt = lt and dt = dt] assms fixed t by (simp add: inflate_block_def)
    next
      case dynamic
      show ?thesis
      proof (cases "tinf_decode_trees u d (ltree d) (dtree d)")
        case None
        then show ?thesis using assms dynamic by (auto simp: inflate_block_def)
      next
        case (Some x)
        obtain lt dt d1 where x: "x = (lt, dt, d1)" by (cases x)
        show ?thesis
          using coded [OF tinf_decode_trees_props [OF Some [unfolded x]], where lt = lt and dt = dt] assms dynamic Some x by (simp add: inflate_block_def)
      qed
    qed
  qed
  then show "grows d d'" "r = 0 \<Longrightarrow> bits_left d' < 8 * length (source d) \<or> \<not> overflow d \<and> bits_left d' < bits_left d" by simp_all
qed

lemma inflate_blocks_less:
  assumes "(bfinal, d1) = tinf_getbits d (Suc 0)" and "(btype, d2) = tinf_getbits d1 2" and "(0, d3) = inflate_block u btype d2"
  shows "bits_left d3 < bits_left d"
proof -
  have "same_output d d1" "same_output d1 d2"
    using tinf_getbits_props(2) [OF assms(1) [symmetric]] tinf_getbits_props(2) [OF assms(2) [symmetric]] by simp_all
  then have "same_output d d2" by (rule same_output_trans)
  moreover have "bits_left d3 < 8 * length (source d2) \<or> \<not> overflow d2 \<and> bits_left d3 < bits_left d2"
    using inflate_block_props(2) [OF assms(3) [symmetric]] by simp
  ultimately show ?thesis by (auto simp: same_output_def bits_left_def)
qed

function inflate_blocks :: "uninit \<Rightarrow> tinf_data_t \<Rightarrow> int \<times> tinf_data_t" where
  "inflate_blocks u d =
     (let (bfinal, d1) = tinf_getbits d 1;
          (btype, d2) = tinf_getbits d1 2;
          (res, d3) = inflate_block u btype d2
      in if res \<noteq> TINFLATE_OK then (res, d3)
         else if bfinal = 0 then inflate_blocks u d3
         else (TINFLATE_OK, d3))"
  by pat_completeness auto

termination
  by (relation "measure (\<lambda>(u, d). bits_left d)") (auto intro: inflate_blocks_less)

declare inflate_blocks.simps [simp del]

text \<open>
  The result is the status, the new value of \<open>*dest_len\<close> and the bytes in the output buffer. The
  callers pass no \<open>NULL\<close>.
\<close>

definition tinf_uncompress :: "uninit \<Rightarrow> nat \<Rightarrow> u8 list \<Rightarrow> int \<times> nat \<times> u8 list" where
  "tinf_uncompress u dest_len src =
     (let d = \<lparr>source = src, tag = 0, bitcount = 0, overflow = False, dest = [], dest_cap = dest_len,
               ltree = un_ltree u, dtree = un_dtree u\<rparr>;
          (res, d') = inflate_blocks u d
      in if res \<noteq> TINFLATE_OK then (res, dest_len, dest d')
         else (TINFLATE_OK, length (dest d'), dest d'))"

subsection \<open>The gzip wrapper\<close>

text \<open>\<open>do ... while (*start++ != 0u)\<close>: past a string of the header.\<close>

function skip_string :: "(nat \<Rightarrow> u8) \<Rightarrow> nat \<Rightarrow> nat \<Rightarrow> nat option" where
  "skip_string src source_len start =
     (if start \<ge> source_len then None
      else if src start \<noteq> 0 then skip_string src source_len (start + 1)
      else Some (start + 1))"
  by pat_completeness auto

termination by (relation "measure (\<lambda>(src, source_len, start). source_len - start)") auto

declare skip_string.simps [simp del]

text \<open>The optional fields, each under its flag: where the compressed data begins.\<close>

definition skip_extra :: "u8 \<Rightarrow> (nat \<Rightarrow> u8) \<Rightarrow> nat \<Rightarrow> nat \<Rightarrow> nat option" where
  "skip_extra flg src source_len start =
     (if flg AND 4 \<noteq> 0 then
        (let xlen = unat (read_le16 src start)
         in if xlen > source_len - 12 then None else Some (start + xlen + 2))
      else Some start)"

definition skip_hcrc :: "u8 \<Rightarrow> (nat \<Rightarrow> u8) \<Rightarrow> nat \<Rightarrow> nat \<Rightarrow> nat option" where
  "skip_hcrc flg src source_len start =
     (if flg AND 2 \<noteq> 0 then
        (if start > source_len - 2 then None
         else if read_le16 src start \<noteq> tinf_crc32 (map src [0..<start]) AND 0x0000FFFF then None
         else Some (start + 2))
      else Some start)"

definition gzip_start :: "(nat \<Rightarrow> u8) \<Rightarrow> nat \<Rightarrow> nat option" where
  "gzip_start src source_len =
     (let flg = src 3
      in if flg AND 0xE0 \<noteq> 0 then None
         else do {
           s1 \<leftarrow> skip_extra flg src source_len 10;
           s2 \<leftarrow> (if flg AND 8 \<noteq> 0 then skip_string src source_len s1 else Some s1);
           s3 \<leftarrow> (if flg AND 16 \<noteq> 0 then skip_string src source_len s2 else Some s2);
           skip_hcrc flg src source_len s3
         })"

definition tinf_gzip_uncompress :: "uninit \<Rightarrow> nat \<Rightarrow> (nat \<Rightarrow> u8) \<Rightarrow> nat \<Rightarrow> int \<times> nat \<times> u8 list" where
  "tinf_gzip_uncompress u dest_len src source_len =
     (if source_len < 18 \<or> src 0 \<noteq> 0x1F \<or> src 1 \<noteq> 0x8B \<or> src 2 \<noteq> 8 then (TINFLATE_INVALID_DATA, dest_len, [])
      else
        (case gzip_start src source_len of
           None \<Rightarrow> (TINFLATE_INVALID_DATA, dest_len, [])
         | Some start \<Rightarrow>
             (let dlen = unat (read_le32 src (source_len - 4));
                  crc32 = read_le32 src (source_len - 8)
              in if dlen > dest_len then (TINFLATE_OUTPUT_OVERFLOW, dest_len, [])
                 else if source_len - start < 8 then (TINFLATE_INVALID_DATA, dest_len, [])
                 else
                   (let (res, out_len, dst) = tinf_uncompress u dest_len (map src [start..<source_len - 8])
                    in if res \<noteq> TINFLATE_OK then (res, out_len, dst)
                       else if out_len \<noteq> dlen then (TINFLATE_INVALID_DATA, out_len, dst)
                       else if crc32 \<noteq> tinf_crc32 (take dlen dst) then (TINFLATE_INVALID_DATA, out_len, dst)
                       else (TINFLATE_OK, out_len, dst)))))"

text \<open>\<open>src\<close> is \<open>None\<close> for \<open>NULL\<close>; \<open>dst\<close> and \<open>out_len\<close> tell whether those pointers are set.\<close>

definition tinflate_decompress ::
  "uninit \<Rightarrow> (nat \<Rightarrow> u8) option \<Rightarrow> u32 \<Rightarrow> bool \<Rightarrow> u32 \<Rightarrow> bool \<Rightarrow> int \<times> u32 \<times> u8 list" where
  "tinflate_decompress u src src_len dst dst_len out_len =
     (case src of
        None \<Rightarrow> (TINFLATE_INVALID_DATA, 0, [])
      | Some s \<Rightarrow>
          if \<not> dst \<or> \<not> out_len then (TINFLATE_INVALID_DATA, 0, [])
          else
            (let (res, n, out) =
               (if src_len \<ge> 2 \<and> s 0 = 0x1F \<and> s 1 = 0x8B
                then tinf_gzip_uncompress u (unat dst_len) s (unat src_len)
                else tinf_uncompress u (unat dst_len) (map s [0..<unat src_len]))
             in (res, of_nat n, out)))"

end
