(* ===== verification/Tinflate_Correct.thy ===== *)
theory Tinflate_Correct
  imports Tinflate
begin

text \<open>
  Correctness of the decompressor: the bounds of the output for any input, the completeness of
  the code trees, the checksum against its bitwise definition, and the round trip through the
  stored form of gzip.
\<close>

subsection \<open>The checksum\<close>

text \<open>The CRC-32 of gzip (RFC 1952), one bit at a time.\<close>

definition crc_bit :: "u32 \<Rightarrow> u32" where
  "crc_bit c = (if bit c 0 then drop_bit 1 c XOR 0xEDB88320 else drop_bit 1 c)"

definition crc32_spec :: "u8 list \<Rightarrow> u32" where
  "crc32_spec buf = fold (\<lambda>b c. (crc_bit ^^ 8) (c XOR ucast b)) buf 0xFFFFFFFF XOR 0xFFFFFFFF"

lemma crc_bit_xor: "crc_bit (x XOR y) = crc_bit x XOR crc_bit y"
  by (simp add: crc_bit_def bit_xor_iff drop_bit_xor ac_simps)

lemma crc_bits_xor: "(crc_bit ^^ n) (x XOR y) = (crc_bit ^^ n) x XOR (crc_bit ^^ n) y"
  by (induction n) (simp_all add: crc_bit_xor)

lemma crc_bits_high: "(\<And>i. i < n \<Longrightarrow> \<not> bit x i) \<Longrightarrow> (crc_bit ^^ n) x = drop_bit n x"
proof (induction n)
  case (Suc n)
  then have "(crc_bit ^^ n) x = drop_bit n x" "\<not> bit x n" by simp_all
  then show ?case by (simp add: crc_bit_def [of "drop_bit n x"] bit_drop_bit_eq)
qed simp

lemma crc_bits_4: "(crc_bit ^^ 4) x = crc_bit (crc_bit (crc_bit (crc_bit x)))"
  by (simp add: eval_nat_numeral)

lemma crc_table: "k < 16 \<Longrightarrow> (crc_bit ^^ 4) (of_nat k) = tinf_crc32tab ! k"
proof -
  have "list_all (\<lambda>k. (crc_bit ^^ 4) (of_nat k) = tinf_crc32tab ! k) [0..<16]"
    unfolding crc_bits_4 by code_simp
  then show "k < 16 \<Longrightarrow> (crc_bit ^^ 4) (of_nat k) = tinf_crc32tab ! k" by (simp add: list_all_iff)
qed

lemma crc_nibble_bits: "crc_nibble x = (crc_bit ^^ 4) x"
proof -
  let ?lo = "take_bit 4 x" and ?hi = "x AND NOT (mask 4)"
  have "x = ?lo XOR ?hi" by (rule bit_word_eqI) (auto simp: bit_simps)
  then have "(crc_bit ^^ 4) x = (crc_bit ^^ 4) ?lo XOR (crc_bit ^^ 4) ?hi" by (metis crc_bits_xor)
  also have "(crc_bit ^^ 4) ?hi = drop_bit 4 ?hi" by (rule crc_bits_high) (simp add: bit_simps)
  also have "drop_bit 4 ?hi = drop_bit 4 x" by (rule bit_word_eqI) (auto simp: bit_simps dest: bit_imp_le_length)
  also have "(crc_bit ^^ 4) ?lo = tinf_crc32tab ! unat ?lo"
  proof -
    have "unat ?lo < 16" by (simp add: unsigned_take_bit_eq take_bit_nat_less_exp [where n = 4, simplified])
    then show ?thesis using crc_table [of "unat ?lo"] by simp
  qed
  moreover have "x AND 0x0F = ?lo" by (simp add: take_bit_eq_mask mask_eq_exp_minus_1)
  ultimately show ?thesis by (simp add: crc_nibble_def)
qed

lemma crc_byte_bits: "crc_byte b c = (crc_bit ^^ 8) (c XOR ucast b)"
proof -
  have "(crc_bit ^^ (4 + 4)) x = (crc_bit ^^ 4) ((crc_bit ^^ 4) x)" for x by (simp only: funpow_add o_apply)
  then show ?thesis by (simp add: crc_byte_def crc_nibble_bits)
qed

lemma tinf_crc32_spec: "tinf_crc32 buf = crc32_spec buf"
proof -
  have "fold crc_byte buf c = fold (\<lambda>b c. (crc_bit ^^ 8) (c XOR ucast b)) buf c" for c
    by (induction buf arbitrary: c) (simp_all add: crc_byte_bits)
  then show ?thesis by (cases buf) (simp_all add: tinf_crc32_def crc32_spec_def)
qed

text \<open>
  C29. The table-driven checksum, four bits at a step, is the CRC-32 of the gzip format defined
  bit by bit with the reflected polynomial, on every buffer.
\<close>

theorem tinf_crc32_correct: "tinf_crc32 buf = crc32_spec buf"
  by (rule tinf_crc32_spec)

subsection \<open>Bounds of the output\<close>

definition status_ok :: "int \<Rightarrow> bool" where
  "status_ok r \<longleftrightarrow> r = TINFLATE_OK \<or> r = TINFLATE_INVALID_DATA \<or> r = TINFLATE_OUTPUT_OVERFLOW"

lemma inflate_symbol_status: "inflate_symbol d lt dt = Inl (r, d') \<Longrightarrow> status_ok r"
  by (auto simp: inflate_symbol_def Let_def status_ok_def split: prod.splits if_splits)

lemma block_data_status: "tinf_inflate_block_data d lt dt = (r, d') \<Longrightarrow> status_ok r"
proof (induction d lt dt rule: tinf_inflate_block_data.induct)
  case (1 d lt dt)
  then show ?case
    by (cases "inflate_symbol d lt dt") (simp_all add: tinf_inflate_block_data.simps [of d] inflate_symbol_status)
qed

lemma inflate_block_status: "inflate_block u btype d = (r, d') \<Longrightarrow> status_ok r"
  by (auto simp: inflate_block_def tinf_inflate_uncompressed_block_def Let_def block_data_status
      split: if_splits prod.splits option.splits) (simp_all add: status_ok_def)

lemma inflate_blocks_props: "inflate_blocks u d = (r, d') \<Longrightarrow> grows d d' \<and> status_ok r"
proof (induction u d rule: inflate_blocks.induct)
  case (1 u d)
  obtain bf d1 where g1: "tinf_getbits d 1 = (bf, d1)" by fastforce
  obtain bt d2 where g2: "tinf_getbits d1 2 = (bt, d2)" by fastforce
  obtain res d3 where b: "inflate_block u bt d2 = (res, d3)" by fastforce
  have "same_output d d2" using same_output_trans [OF tinf_getbits_props(2) [OF g1] tinf_getbits_props(2) [OF g2]] by simp
  then have gr: "grows d d3" using grows_trans [OF same_output_grows inflate_block_props(1) [OF b]] by blast
  have e: "inflate_blocks u d = (if res \<noteq> 0 then (res, d3) else if bf = 0 then inflate_blocks u d3 else (0, d3))"
    by (subst inflate_blocks.simps) (simp add: Let_def g1 [simplified] g2 b)
  show ?case
  proof (cases "res = 0 \<and> bf = 0")
    case True
    then have "inflate_blocks u d3 = (r, d')" using 1(2) e by simp
    then have "grows d3 d' \<and> status_ok r" using 1(1) [OF g1 [symmetric] refl g2 [symmetric] refl b [symmetric] refl] True by simp
    then show ?thesis using grows_trans [OF gr] by blast
  next
    case False
    then have "d' = d3" "r = res \<or> r = 0" using 1(2) e by (auto split: if_splits)
    then show ?thesis using gr inflate_block_status [OF b] by (auto simp: status_ok_def)
  qed
qed

lemma tinf_uncompress_props:
  assumes "tinf_uncompress u cap src = (r, n, out)"
  shows "length out \<le> cap" and "n \<le> cap" and "status_ok r" and "r = 0 \<Longrightarrow> n = length out"
proof -
  define d where "d = \<lparr>source = src, tag = 0, bitcount = 0, overflow = False, dest = [], dest_cap = cap,
               ltree = un_ltree u, dtree = un_dtree u\<rparr>"
  obtain res d' where b: "inflate_blocks u d = (res, d')" by fastforce
  note p = inflate_blocks_props [OF b]
  then have "length (dest d') \<le> cap" by (auto simp: grows_def d_def)
  moreover have "status_ok res" using p by simp
  moreover have "r = res" "out = dest d'" "n = (if res = 0 then length (dest d') else cap)"
    using assms b by (auto simp: tinf_uncompress_def Let_def d_def [symmetric] split: if_splits)
  ultimately show "length out \<le> cap" "n \<le> cap" "status_ok r" "r = 0 \<Longrightarrow> n = length out" by simp_all
qed

lemma tinf_gzip_uncompress_props:
  assumes "tinf_gzip_uncompress u cap src len = (r, n, out)"
  shows "length out \<le> cap" and "n \<le> cap" and "status_ok r" and "r = 0 \<Longrightarrow> n = length out"
proof -
  have "length out \<le> cap \<and> n \<le> cap \<and> status_ok r \<and> (r = 0 \<longrightarrow> n = length out)"
  proof (cases "gzip_start src len")
    case None
    then show ?thesis using assms by (auto simp: tinf_gzip_uncompress_def status_ok_def split: if_splits)
  next
    case (Some start)
    obtain r' n' out' where t: "tinf_uncompress u cap (map src [start..<len - 8]) = (r', n', out')" by (metis prod_cases3)
    from assms have "n = cap \<and> out = [] \<and> r \<noteq> 0 \<and> status_ok r \<or> n = n' \<and> out = out' \<and> (r = r' \<or> r = - 1)"
      by (simp add: tinf_gzip_uncompress_def Some Let_def t status_ok_def split: if_splits)
    then show ?thesis using tinf_uncompress_props [OF t] by (auto simp: status_ok_def)
  qed
  then show "length out \<le> cap" "n \<le> cap" "status_ok r" "r = 0 \<Longrightarrow> n = length out" by simp_all
qed

text \<open>
  C12. On any input, valid or not, and whatever the stack held, the decompressor returns with
  TINFLATE_OK, TINFLATE_INVALID_DATA or TINFLATE_OUTPUT_OVERFLOW, never writes more than \<open>dst_len\<close>
  bytes, and when it reports success \<open>*out_len\<close> is exactly the number of bytes written. The
  fourth status of the header, TINFLATE_INCOMPLETE for truncated input, is never returned: the
  code does not keep to that part of its documentation.
\<close>

theorem tinflate_output_bounds:
  "case tinflate_decompress u src src_len dst dst_len out_len of
     (r, n, out) \<Rightarrow> (r = TINFLATE_OK \<or> r = TINFLATE_INVALID_DATA \<or> r = TINFLATE_OUTPUT_OVERFLOW) \<and> length out \<le> unat dst_len \<and> (if r = TINFLATE_OK then unat n = length out else True)"
proof -
  have u: "unat (of_nat k :: u32) = k" if "k \<le> unat dst_len" for k
    using that unsigned_less [of dst_len, where 'a = nat] by (intro unat_of_nat_u32) simp
  show ?thesis
  proof (cases src)
    case (Some s)
    show ?thesis
      using tinf_uncompress_props [of u "unat dst_len" "map s [0..<unat src_len]"]
        tinf_gzip_uncompress_props [of u "unat dst_len" s "unat src_len"] u
      by (auto simp: Some tinflate_decompress_def Let_def status_ok_def split: prod.splits)
  qed (simp add: tinflate_decompress_def)
qed

subsection \<open>Code trees\<close>

text \<open>
  The number of code words of length \<open>n\<close> that are not below a shorter code; a tree is complete
  when nothing is left after the longest length.
\<close>

fun avail :: "(nat \<Rightarrow> nat) \<Rightarrow> nat \<Rightarrow> nat" where
  "avail c 0 = 1"
| "avail c (Suc n) = 2 * (avail c n - c n)"

definition num_codes :: "tinf_tree_t \<Rightarrow> nat" where
  "num_codes t = (\<Sum>i<16. unat (counts t i))"

definition complete :: "tinf_tree_t \<Rightarrow> bool" where
  "complete t \<longleftrightarrow> unat (counts t 0) = 0 \<and> avail (\<lambda>i. unat (counts t i)) 16 = 0"

lemma decode_loop_complete:
  assumes "complete t" and "1 \<le> len" and "len \<le> 16"
    and "2 * offs + 2 \<le> avail (\<lambda>i. unat (counts t i)) len" and "base = (\<Sum>i<len. unat (counts t i))"
  shows "\<exists>i < num_codes t. fst (decode_loop d t len base offs) = uint (symbols t i)"
  using assms
proof (induction "16 - len" arbitrary: d len base offs)
  case 0
  then show ?case by (simp add: complete_def)
next
  case (Suc k)
  let ?c = "\<lambda>i. unat (counts t i)"
  have len: "len \<le> 15" using Suc(2) by simp
  obtain b d1 where g: "tinf_getbits d 1 = (b, d1)" by fastforce
  have b: "unat b < 2" using tinf_getbits_props(1) [OF g] by simp
  let ?o = "2 * offs + unat b"
  note step = decode_loop_step [OF g]
  show ?case
  proof (cases "?o < ?c len")
    case True
    have "(\<Sum>i<Suc len. ?c i) \<le> num_codes t" unfolding num_codes_def
      by (rule sum_mono2) (use len in auto)
    then have "base + ?o < num_codes t" using True Suc.prems(5) by simp
    then show ?thesis using True len step by auto
  next
    case False
    have "\<exists>i < num_codes t. fst (decode_loop d1 t (len + 1) (base + ?c len) (?o - ?c len)) = uint (symbols t i)"
    proof (rule Suc.hyps(1))
      show "2 * (?o - ?c len) + 2 \<le> avail ?c (len + 1)" using Suc.prems(4) b False by simp
    qed (use Suc len in auto)
    then show ?thesis using False len step by simp
  qed
qed

lemma tinf_decode_symbol_complete:
  assumes "complete t"
  shows "\<exists>i < num_codes t. fst (tinf_decode_symbol d t) = uint (symbols t i)"
  unfolding tinf_decode_symbol_def
  by (rule decode_loop_complete) (use assms in \<open>simp_all add: complete_def\<close>)

lemma avail_le: "avail c n \<le> 2 ^ n"
proof (induction n)
  case (Suc n)
  have "avail c (Suc n) \<le> 2 * avail c n" by simp
  also have "... \<le> 2 * 2 ^ n" by (intro mult_le_mono Suc order_refl)
  finally show ?case by simp
qed simp

text \<open>The second loop computes the code words left, and counts the codes.\<close>

lemma code_offsets_avail:
  assumes "code_offsets cnt [i..<16] a k offs = Some (a', k', offs')" and "i \<le> 16"
    and "unat a = avail (\<lambda>i. unat (cnt i)) i" and "unat k = (\<Sum>j<i. unat (cnt j))"
  shows "unat a' = avail (\<lambda>i. unat (cnt i)) 16 \<and> unat k' = (\<Sum>j<16. unat (cnt j))
    \<and> (\<forall>j. i \<le> j \<and> j < 16 \<longrightarrow> unat (cnt j) \<le> avail (\<lambda>i. unat (cnt i)) j)"
  using assms
proof (induction "16 - i" arbitrary: i a k offs)
  case 0
  then show ?case by (auto simp: not_less)
next
  case (Suc n)
  let ?c = "\<lambda>i. unat (cnt i)" and ?u = "ucast (cnt i) :: u32"
  have i: "i < 16" "[i..<16] = i # [Suc i..<16]" using Suc(2) by (auto simp: upt_conv_Cons)
  have u: "unat ?u = ?c i"
    using unsigned_less [of "cnt i", where 'a = nat] by (simp add: unsigned_ucast_eq take_bit_eq_mod)
  from Suc.prems(1) i(2) have le: "?u \<le> a"
    and rec: "code_offsets cnt [Suc i..<16] (2 * (a - ?u)) (k + ?u) (offs(i := ucast k)) = Some (a', k', offs')"
    by (auto simp: Let_def not_less split: if_splits)
  have c: "?c i \<le> avail ?c i" using le u Suc.prems(3) by (simp add: word_le_nat_alt)
  have "(2 :: nat) ^ i \<le> 2 ^ 15" by (rule power_increasing) (use i(1) in simp_all)
  then have "avail ?c i \<le> 2 ^ 15" using avail_le [of ?c i] by linarith
  then have d: "unat (a - ?u) = avail ?c i - ?c i" "unat (a - ?u) \<le> 2 ^ 15"
    using Suc.prems(3) u le by (simp_all add: unat_sub)
  have "unat (2 * w) = 2 * unat w" if "unat w \<le> 2 ^ 15" for w :: u32 using that by (simp add: unat_word_ariths)
  from this [OF d(2)] d(1) have "unat (2 * (a - ?u)) = avail ?c (Suc i)" by (simp only: avail.simps)
  moreover have "unat (k + ?u) = (\<Sum>j<Suc i. ?c j)"
  proof -
    have "(\<Sum>j<i. ?c j) \<le> i * 65535"
    proof -
      have "?c j \<le> 65535" for j using unsigned_less [of "cnt j", where 'a = nat] by simp
      then show ?thesis using sum_bounded_above [of "{..<i}" ?c 65535] by simp
    qed
    moreover have "?c i \<le> 65535" using unsigned_less [of "cnt i", where 'a = nat] by simp
    ultimately have "(\<Sum>j<i. ?c j) + ?c i < 2 ^ 32" using i(1) by simp
    then show ?thesis using Suc.prems(4) u by (simp add: unat_word_ariths)
  qed
  ultimately have "unat a' = avail ?c 16 \<and> unat k' = (\<Sum>j<16. ?c j)
      \<and> (\<forall>j. Suc i \<le> j \<and> j < 16 \<longrightarrow> ?c j \<le> avail ?c j)"
    using Suc.hyps(1) [OF _ rec] Suc.hyps(2) i(1) by simp
  then show ?case using c by (metis le_eq_less_or_eq Suc_leI)
qed

lemma count_codes_props:
  assumes "count_codes lengths is t = Some t'" and "\<And>l. l \<le> 15 \<Longrightarrow> unat (counts t l) + length is < 65536"
  shows "l \<le> 15 \<Longrightarrow> unat (counts t' l) = unat (counts t l) + length (filter (\<lambda>i. lengths i \<noteq> 0 \<and> unat (lengths i) = l) is)"
    and "\<forall>i \<in> set is. unat (lengths i) \<le> 15" and "symbols t' = symbols t"
    and "max_sym t' = (if filter (\<lambda>i. lengths i \<noteq> 0) is = [] then max_sym t else int (last (filter (\<lambda>i. lengths i \<noteq> 0) is)))"
proof -
  have "(l \<le> 15 \<longrightarrow> unat (counts t' l) = unat (counts t l) + length (filter (\<lambda>i. lengths i \<noteq> 0 \<and> unat (lengths i) = l) is))
    \<and> (\<forall>i \<in> set is. unat (lengths i) \<le> 15) \<and> symbols t' = symbols t
    \<and> max_sym t' = (if filter (\<lambda>i. lengths i \<noteq> 0) is = [] then max_sym t else int (last (filter (\<lambda>i. lengths i \<noteq> 0) is)))"
    using assms
  proof (induction "is" arbitrary: t)
    case (Cons i "is")
    let ?l = "unat (lengths i)"
    define t1 where "t1 = (if lengths i \<noteq> 0 then t\<lparr>max_sym := int i, counts := (counts t)(?l := counts t ?l + 1)\<rparr> else t)"
    have le: "?l \<le> 15" and rec: "count_codes lengths is t1 = Some t'"
      using Cons.prems(1) by (auto simp: t1_def word_less_nat_alt split: if_splits)
    have inc: "unat (counts t ?l + 1) = unat (counts t ?l) + 1"
      using Cons.prems(2) [of ?l] le by (simp add: unat_word_ariths)
    have small: "unat (counts t1 l) + length is < 65536" if "l \<le> 15" for l
      using Cons.prems(2) [OF that] inc by (auto simp: t1_def)
    from Cons.IH [OF rec small] le inc show ?case by (auto simp: t1_def)
  qed simp
  then show "l \<le> 15 \<Longrightarrow> unat (counts t' l) = unat (counts t l) + length (filter (\<lambda>i. lengths i \<noteq> 0 \<and> unat (lengths i) = l) is)"
    "\<forall>i \<in> set is. unat (lengths i) \<le> 15" "symbols t' = symbols t"
    "max_sym t' = (if filter (\<lambda>i. lengths i \<noteq> 0) is = [] then max_sym t else int (last (filter (\<lambda>i. lengths i \<noteq> 0) is)))"
    by simp_all
qed

lemma sum_filter_lengths:
  fixes f :: "'a \<Rightarrow> nat"
  shows "(\<forall>i \<in> set xs. f i < n) \<Longrightarrow> (\<Sum>l<n. length (filter (\<lambda>i. P i \<and> f i = l) xs)) = length (filter P xs)"
proof (induction xs)
  case (Cons x xs)
  have "(\<Sum>l<n. length (filter (\<lambda>i. P i \<and> f i = l) (x # xs)))
      = (\<Sum>l<n. length (filter (\<lambda>i. P i \<and> f i = l) xs) + (if P x \<and> f x = l then 1 else 0))"
    by (rule sum.cong) auto
  also have "... = (\<Sum>l<n. length (filter (\<lambda>i. P i \<and> f i = l) xs)) + (\<Sum>l<n. if P x \<and> f x = l then 1 else 0)"
    by (rule sum.distrib)
  also have "(\<Sum>l<n. if P x \<and> f x = l then 1 else (0 :: nat)) = (\<Sum>l<n. if l = f x then (if P x then 1 else 0) else 0)"
    by (rule sum.cong) auto
  also have "... = (if P x then 1 else 0)" using Cons.prems by (subst sum.delta) simp_all
  finally show ?case using Cons by simp
qed simp

lemma fold_clear: "fold (\<lambda>i c. c(i := 0)) [0..<n] c i = (if i < n then 0 else c i)"
  by (induction n) auto

lemma avail_zero: "avail c n = 0 \<Longrightarrow> avail c (n + m) = 0"
  by (induction m) simp_all

lemma tinf_build_tree_complete:
  assumes b: "tinf_build_tree t lengths num = Some t'" and num: "num \<le> 288" and some: "\<exists>i < num. lengths i \<noteq> 0"
  shows "complete t'" and "num_codes t' \<le> 288"
proof -
  define t0 where "t0 = t\<lparr>counts := fold (\<lambda>i c. c(i := 0)) [0..<16] (counts t), max_sym := - 1\<rparr>"
  let ?P = "\<lambda>i. lengths i \<noteq> 0" and ?is = "[0..<num]"
  obtain t1 av k offs where t1: "count_codes lengths ?is t0 = Some t1"
      and o: "code_offsets (counts t1) [0..<16] 1 0 (\<lambda>_. 0) = Some (av, k, offs)"
    and ok: "\<not> (k > 1 \<and> av > 0 \<or> k = 1 \<and> counts t1 1 \<noteq> 1)"
    and t': "counts t' = (if k = 1 then (counts t1)(1 := 2) else counts t1)" "max_sym t' = max_sym t1"
    using b by (auto simp: tinf_build_tree_def t0_def [symmetric] Let_def simp del: upt_rec_numeral split: Option.bind_splits if_splits prod.splits)
  let ?c = "\<lambda>i. unat (counts t1 i)"
  have c0: "unat (counts t0 l) = 0" if "l \<le> 15" for l using that by (simp add: t0_def fold_clear del: upt_rec_numeral)
  have small: "unat (counts t0 l) + length ?is < 65536" if "l \<le> 15" for l using c0 [OF that] num by simp
  note cc = count_codes_props [OF t1 small]
  have c: "?c l = length (filter (\<lambda>i. ?P i \<and> unat (lengths i) = l) ?is)" if "l \<le> 15" for l
    using cc(1) [OF _ that] c0 [OF that] by simp
  have n: "(\<Sum>l<16. ?c l) = length (filter ?P ?is)"
  proof -
    have "(\<Sum>l<16. ?c l) = (\<Sum>l<16. length (filter (\<lambda>i. ?P i \<and> unat (lengths i) = l) ?is))"
      by (rule sum.cong) (use c in auto)
    also have "... = length (filter ?P ?is)" by (rule sum_filter_lengths) (use cc(2) in force)
    finally show ?thesis .
  qed
  have av: "unat av = avail ?c 16" "unat k = (\<Sum>l<16. ?c l)" using code_offsets_avail [OF o] by simp_all
  have "filter ?P ?is \<noteq> []" using some by (auto simp: filter_empty_conv)
  then have k1: "1 \<le> unat k" using av(2) n by (simp add: Suc_le_eq)
  have kn: "unat k \<le> 288" using av(2) n num length_filter_le [of ?P ?is] by simp
  have cz: "?c 0 = 0" using c [of 0] by (simp add: unat_eq_zero filter_empty_conv)
  have k2: "k > 1" if "k \<noteq> 1"
  proof -
    have "unat k \<noteq> 1" using that by (simp add: word_unat_eq_iff)
    then show ?thesis using k1 by (simp add: word_less_nat_alt)
  qed
  let ?c' = "\<lambda>i. unat (counts t' i)"
  have single: "?c' 1 = 2 \<and> (\<forall>l. l < 16 \<and> l \<noteq> 1 \<longrightarrow> ?c' l = 0)" if "k = 1"
  proof -
    have one: "?c 1 = 1" using that ok by simp
    have "(\<Sum>l<16. ?c l) = 1" using that av(2) by simp
    then have "(\<Sum>l \<in> {..<16} - {1}. ?c l) = 0" using one sum.remove [of "{..<16}" 1 ?c] by simp
    then show ?thesis by (auto simp: t'(1) that)
  qed
  show "complete t'"
  proof (cases "k = 1")
    case True
    have "avail ?c' 2 = 0" using single [OF True] by (simp add: numeral_2_eq_2)
    from avail_zero [OF this, of 14] show ?thesis using single [OF True] by (simp add: complete_def)
  next
    case False
    have "av = 0" using ok k2 [OF False] by (simp add: word_gt_0)
    then show ?thesis using av(1) cz False by (simp add: complete_def t'(1))
  qed
  show "num_codes t' \<le> 288"
  proof (cases "k = 1")
    case True
    have "(\<Sum>l \<in> {..<16} - {1}. ?c' l) = 0" using single [OF True] by simp
    then have "(\<Sum>l<16. ?c' l) = 2" using single [OF True] sum.remove [of "{..<16}" 1 ?c'] by simp
    then show ?thesis by (simp add: num_codes_def)
  next
    case False
    then show ?thesis using kn av(2) by (simp add: num_codes_def t'(1))
  qed
qed

lemma fixed_trees_complete:
  assumes "tinf_build_fixed_trees (lt, dt) = (lt', dt')"
  shows "complete lt'" and "complete dt'" and "num_codes lt' = 288" and "num_codes dt' = 32"
proof -
  have c: "counts lt' = (fold (\<lambda>i c. c(i := 0)) [0..<16] (counts lt))(7 := 24, 8 := 152, 9 := 112)"
    "counts dt' = (fold (\<lambda>i c. c(i := 0)) [0..<16] (counts dt))(5 := 32)"
    using assms by (auto simp: tinf_build_fixed_trees_def Let_def simp del: upt_rec_numeral)
  have l: "unat (counts lt' i) = (if i = 7 then 24 else if i = 8 then 152 else if i = 9 then 112 else 0)"
    and d: "unat (counts dt' i) = (if i = 5 then 32 else 0)" if "i < 16" for i
    using that by (simp_all add: c fold_clear del: upt_rec_numeral)
  let ?l = "\<lambda>i. unat (counts lt' i)" and ?d = "\<lambda>i. unat (counts dt' i)"
  have "avail ?l 10 = 0" "avail ?d 6 = 0" by (simp_all add: l d eval_nat_numeral)
  with avail_zero [of ?l 10 6] avail_zero [of ?d 6 10] show "complete lt'" "complete dt'" by (simp_all add: complete_def l d)
  have "num_codes lt' = (\<Sum>i<16::nat. if i = 7 then 24 else if i = 8 then 152 else if i = 9 then 112 else 0)"
    unfolding num_codes_def by (rule sum.cong) (use l in auto)
  moreover have "num_codes dt' = (\<Sum>i<16::nat. if i = 5 then 32 else 0)"
    unfolding num_codes_def by (rule sum.cong) (use d in auto)
  ultimately show "num_codes lt' = 288" "num_codes dt' = 32" by (simp_all add: lessThan_nat_numeral lessThan_Suc)
qed

text \<open>A tree without codes is accepted as well; decoding with it takes the error exit.\<close>

lemma tinf_build_tree_empty:
  assumes b: "tinf_build_tree t lengths num = Some t'" and none: "\<forall>i < num. lengths i = 0" and l: "l < 16"
  shows "unat (counts t' l) = 0"
proof -
  define t0 where "t0 = t\<lparr>counts := fold (\<lambda>i c. c(i := 0)) [0..<16] (counts t), max_sym := - 1\<rparr>"
  have same: "count_codes lengths is u = Some u" if "\<forall>i \<in> set is. lengths i = 0" for "is" u
    using that by (induction "is") auto
  have c0: "unat (counts t0 l) = 0" if "l < 16" for l using that by (simp add: t0_def fold_clear del: upt_rec_numeral)
  obtain av k offs where o: "code_offsets (counts t0) [0..<16] 1 0 (\<lambda>_. 0) = Some (av, k, offs)"
    and t': "counts t' = (if k = 1 then (counts t0)(1 := 2) else counts t0)"
    using b same [of "[0..<num]" t0] none
    by (auto simp: tinf_build_tree_def t0_def [symmetric] Let_def simp del: upt_rec_numeral split: Option.bind_splits if_splits prod.splits)
  have "unat k = 0" using code_offsets_avail [OF o] c0 by simp
  then show ?thesis using t' c0 [OF l] by auto
qed

lemma decode_loop_empty:
  assumes "\<forall>l < 16. unat (counts t l) = 0" and "len \<le> 16"
  shows "fst (decode_loop d t len base offs) = - 1"
  using assms(2)
proof (induction "16 - len" arbitrary: d len base offs)
  case 0
  obtain b d1 where "tinf_getbits d 1 = (b, d1)" by fastforce
  from decode_loop_step [OF this] 0 show ?case by simp
next
  case (Suc n)
  obtain b d1 where "tinf_getbits d 1 = (b, d1)" by fastforce
  from decode_loop_step [OF this] Suc assms(1) show ?case by simp
qed

text \<open>Every pass of the loop takes one bit.\<close>

lemma decode_loop_bits:
  assumes "decode_loop d t len base offs = (s, d')" and "s \<noteq> - 1" and "1 \<le> len" and "len \<le> 15"
  shows "overflow d' \<or> bits_left d \<le> bits_left d' + (16 - len)"
  using assms
proof (induction "15 - len" arbitrary: d len base offs)
  case 0
  obtain b d1 where g: "tinf_getbits d 1 = (b, d1)" by fastforce
  obtain b2 d2 where g2: "tinf_getbits d1 1 = (b2, d2)" by fastforce
  have "len = 15" using 0 by simp
  then have "d' = d1"
    using 0 decode_loop_step [OF g, of t len base offs] decode_loop_step [OF g2] by (auto split: if_splits)
  then show ?case using tinf_getbits_props(3) [OF g] 0 by auto
next
  case (Suc n)
  obtain b d1 where g: "tinf_getbits d 1 = (b, d1)" by fastforce
  note p = tinf_getbits_props(2,3) [OF g]
  show ?case
  proof (cases "2 * offs + unat b < unat (counts t len)")
    case True
    then have "d' = d1" using Suc decode_loop_step [OF g, of t len base offs] by (auto split: if_splits)
    then show ?thesis using p Suc(2,5,6) by auto
  next
    case False
    then have rec: "decode_loop d1 t (len + 1) (base + unat (counts t len)) (2 * offs + unat b - unat (counts t len)) = (s, d')"
      using Suc decode_loop_step [OF g, of t len base offs] by (auto split: if_splits)
    have n: "n = 15 - (len + 1)" "1 \<le> len + 1" "len + 1 \<le> 15" using Suc(2) by simp_all
    from Suc.hyps(1) [OF n(1) rec Suc.prems(2) n(2,3)] have "overflow d' \<or> bits_left d1 \<le> bits_left d' + (15 - len)" by simp
    moreover have "overflow d1 \<Longrightarrow> overflow d'" using decode_loop_props [OF rec] by (simp add: same_output_def)
    ultimately show ?thesis using p(2) Suc(2,5) by auto
  qed
qed

text \<open>
  The trees that symbols are decoded with: built from code lengths, or the fixed ones. \<open>codes\<close> says
  whether the tree has a code at all.
\<close>

definition decoding_tree :: "bool \<Rightarrow> tinf_tree_t \<Rightarrow> bool" where
  "decoding_tree codes t \<longleftrightarrow>
     (\<exists>t0 lengths num. num \<le> 288 \<and> tinf_build_tree t0 lengths num = Some t \<and> codes = (\<exists>i < num. lengths i \<noteq> 0))
     \<or> codes \<and> (\<exists>p. t = fst (tinf_build_fixed_trees p) \<or> t = snd (tinf_build_fixed_trees p))"

lemma decoding_tree_complete: "decoding_tree True t \<Longrightarrow> complete t \<and> num_codes t \<le> 288"
proof -
  assume t: "decoding_tree True t"
  then consider t0 lengths num where "tinf_build_tree t0 lengths num = Some t" "num \<le> 288" "\<exists>i < num. lengths i \<noteq> 0"
    | p where "t = fst (tinf_build_fixed_trees p) \<or> t = snd (tinf_build_fixed_trees p)"
    unfolding decoding_tree_def by metis
  then show ?thesis
  proof cases
    case (1 t0 lengths num)
    then show ?thesis using tinf_build_tree_complete [OF 1] by simp
  next
    case (2 p)
    then show ?thesis
      using fixed_trees_complete [of "fst p" "snd p" "fst (tinf_build_fixed_trees p)" "snd (tinf_build_fixed_trees p)"] by auto
  qed
qed

text \<open>
  C30. Every tree that \<open>tinf_build_tree\<close> accepts and that has a code, and both fixed trees, are
  complete prefix codes: decoding a symbol from any bits, even past the end of the input, ends
  after at most 15 bits at an entry of the 288-element symbol table and does not take the
  error exit. \<open>tinf_build_tree\<close> also accepts the tree without any code; decoding with it always
  takes the error exit.
\<close>

theorem tinf_decode_symbol_in_range:
  assumes "decoding_tree codes t"
  shows "\<exists>s d'. tinf_decode_symbol d t = (s, d') \<and>
    (if codes then (\<exists>i < 288. s = uint (symbols t i)) \<and> (overflow d' \<or> bits_left d \<le> bits_left d' + 15) else s = - 1)"
proof -
  obtain s d' where dec: "tinf_decode_symbol d t = (s, d')" by fastforce
  show ?thesis
  proof (cases codes)
    case True
    obtain i where i: "i < 288" "s = uint (symbols t i)"
      using decoding_tree_complete [of t] tinf_decode_symbol_complete [of t d] assms True dec by (auto intro: less_le_trans)
    moreover have "s \<noteq> - 1" using i(2) uint_ge_0 [of "symbols t i"] by linarith
    then have "overflow d' \<or> bits_left d \<le> bits_left d' + 15"
      using decode_loop_bits [of d t 1 0 0 s d'] dec by (simp add: tinf_decode_symbol_def)
    ultimately show ?thesis using dec True by auto
  next
    case False
    then obtain t0 lengths num where "tinf_build_tree t0 lengths num = Some t" "\<forall>i < num. lengths i = 0"
      using assms unfolding decoding_tree_def by auto
    then have "\<forall>l < 16. unat (counts t l) = 0" using tinf_build_tree_empty by blast
    from decode_loop_empty [OF this, of 1 d 0 0] show ?thesis using dec False by (simp add: tinf_decode_symbol_def)
  qed
qed

definition sample_data :: tinf_data_t where
  "sample_data = \<lparr>source = [], tag = 0, bitcount = 0, overflow = False, dest = [], dest_cap = 0,
     ltree = \<lparr>counts = \<lambda>_. 0, symbols = \<lambda>_. 0, max_sym = 0\<rparr>, dtree = \<lparr>counts = \<lambda>_. 0, symbols = \<lambda>_. 0, max_sym = 0\<rparr>\<rparr>"

theorem tinf_decode_symbol_in_range_witness:
  "decoding_tree True (fst (tinf_build_fixed_trees (ltree sample_data, dtree sample_data)))
   \<and> (\<exists>i. i < 288 \<and> fst (tinf_decode_symbol sample_data (fst (tinf_build_fixed_trees (ltree sample_data, dtree sample_data))))
        = uint (symbols (fst (tinf_build_fixed_trees (ltree sample_data, dtree sample_data))) i))"
proof -
  let ?t = "fst (tinf_build_fixed_trees (ltree sample_data, dtree sample_data))"
  have t: "decoding_tree True ?t" unfolding decoding_tree_def by blast
  from t tinf_decode_symbol_in_range [OF t, of sample_data] show ?thesis by auto
qed

subsection \<open>Stored blocks\<close>

text \<open>What a compressor emits that stores its input: blocks of at most 65535 bytes (RFC 1951,
  3.2.4) in a gzip member without optional fields (RFC 1952).\<close>

definition le16 :: "u32 \<Rightarrow> u8 list" where
  "le16 w = [ucast w, ucast (drop_bit 8 w)]"

definition le32 :: "u32 \<Rightarrow> u8 list" where
  "le32 w = [ucast w, ucast (drop_bit 8 w), ucast (drop_bit 16 w), ucast (drop_bit 24 w)]"

definition stored_block :: "bool \<Rightarrow> u8 list \<Rightarrow> u8 list" where
  "stored_block final xs =
     (if final then 1 else 0) # le16 (of_nat (length xs)) @ le16 (NOT (of_nat (length xs))) @ xs"

fun deflate_stored :: "u8 list list \<Rightarrow> u8 list" where
  "deflate_stored [] = []"
| "deflate_stored [xs] = stored_block True xs"
| "deflate_stored (xs # ys # zs) = stored_block False xs @ deflate_stored (ys # zs)"

definition gzip_stored :: "u8 list list \<Rightarrow> u8 list" where
  "gzip_stored chunks =
     [0x1F, 0x8B, 8, 0, 0, 0, 0, 0, 0, 3] @ deflate_stored chunks
     @ le32 (crc32_spec (concat chunks)) @ le32 (of_nat (length (concat chunks)))"

lemma read_le32_le32:
  assumes "p i = ucast w" and "p (i + 1) = ucast (drop_bit 8 w)" and "p (i + 2) = ucast (drop_bit 16 w)"
    and "p (i + 3) = ucast (drop_bit 24 w)"
  shows "read_le32 p i = w"
proof (rule bit_word_eqI)
  fix n
  assume "n < LENGTH(32)"
  then show "bit (read_le32 p i) n = bit w n"
    using assms by (cases "n < 16"; cases "n < 24") (auto simp: read_le32_def bit_simps)
qed

lemma read_le16_le16:
  "p i = ucast w \<Longrightarrow> p (i + 1) = ucast (drop_bit 8 w) \<Longrightarrow> read_le16 p i = w AND 0xFFFF"
proof -
  assume "p i = ucast w" "p (i + 1) = ucast (drop_bit 8 w)"
  then have "read_le16 p i = take_bit 16 w" by (intro bit_word_eqI) (auto simp: read_le16_def bit_simps)
  then show ?thesis by (simp add: take_bit_eq_mask mask_eq_exp_minus_1)
qed

lemma header_bits:
  assumes "source d = b # src" and "tag d = 0" and "bitcount d = 0" and "b = (if final then 1 else 0)"
  shows "tinf_getbits d 1 = (if final then 1 else 0, d\<lparr>source := src, tag := 0, bitcount := 7\<rparr>)"
    and "tinf_getbits (d\<lparr>source := src, tag := 0, bitcount := 7\<rparr>) 2 = (0, d\<lparr>source := src, tag := 0, bitcount := 5\<rparr>)"
proof -
  have "tinf_refill d 1 = d\<lparr>source := src, tag := ucast b, bitcount := 8\<rparr>"
    using assms(1-3) by (subst tinf_refill.simps) (simp add: tinf_refill.simps)
  then show "tinf_getbits d 1 = (if final then 1 else 0, d\<lparr>source := src, tag := 0, bitcount := 7\<rparr>)"
    by (simp add: tinf_getbits_def tinf_getbits_no_refill_def assms(4))
  show "tinf_getbits (d\<lparr>source := src, tag := 0, bitcount := 7\<rparr>) 2 = (0, d\<lparr>source := src, tag := 0, bitcount := 5\<rparr>)"
    by (simp add: tinf_getbits_def tinf_getbits_no_refill_def tinf_refill.simps)
qed

lemma stored_block_step:
  assumes s: "source d = stored_block final xs @ rest" "tag d = 0" "bitcount d = 0"
    and xs: "length xs \<le> 65535" "length (dest d) + length xs \<le> dest_cap d"
  shows "inflate_blocks u d = (if final then (0, d\<lparr>source := rest, dest := dest d @ xs\<rparr>)
    else inflate_blocks u (d\<lparr>source := rest, dest := dest d @ xs\<rparr>))"
proof -
  define n :: u32 where "n = of_nat (length xs)"
  have n: "unat n = length xs" using xs(1) by (simp add: n_def unat_of_nat_u32)
  define src where "src = le16 n @ le16 (NOT n) @ xs @ rest"
  have s1: "source d = (if final then 1 else 0) # src" using s(1) by (simp add: stored_block_def src_def n_def)
  note h = header_bits [OF s1 s(2,3) refl]
  have n16: "n AND 0xFFFF = n"
  proof -
    have "take_bit 16 n = n" using xs(1) n by (simp add: word_unat_eq_iff unsigned_take_bit_eq take_bit_nat_eq_self)
    then show ?thesis by (simp add: take_bit_eq_mask mask_eq_exp_minus_1)
  qed
  have "read_le16 ((!) src) 0 = n" using read_le16_le16 [of "(!) src" 0 n] n16 by (simp add: src_def le16_def)
  moreover have "read_le16 ((!) src) 2 = NOT n AND 0xFFFF"
    using read_le16_le16 [of "(!) src" 2 "NOT n"] by (simp add: src_def le16_def nth_Cons' numeral_eq_Suc)
  moreover have "NOT (NOT n AND 0xFFFF) AND 0xFFFF = n AND 0xFFFF" by (rule bit_word_eqI) (auto simp: bit_simps)
  moreover have "drop 4 src = xs @ rest" "4 \<le> length src" by (simp_all add: src_def le16_def)
  ultimately have b: "inflate_block u 0 (d\<lparr>source := src, tag := 0, bitcount := 5\<rparr>) = (0, d\<lparr>source := rest, dest := dest d @ xs\<rparr>)"
    using xs(2) s(2,3) n n16 by (simp add: inflate_block_def tinf_inflate_uncompressed_block_def Let_def not_less)
  show ?thesis by (subst inflate_blocks.simps) (simp only: Let_def h b prod.case split: if_split, simp)
qed

lemma deflate_stored_run:
  assumes "chunks \<noteq> []" and "\<forall>c \<in> set chunks. length c \<le> 65535"
    and "source d = deflate_stored chunks" "tag d = 0" "bitcount d = 0" "length (dest d) + length (concat chunks) \<le> dest_cap d"
  shows "inflate_blocks u d = (0, d\<lparr>source := [], dest := dest d @ concat chunks\<rparr>)"
  using assms
proof (induction chunks arbitrary: d rule: deflate_stored.induct)
  case (2 xs)
  then show ?case using stored_block_step [of d True xs "[]" u] by simp
next
  case (3 xs ys zs)
  let ?d = "d\<lparr>source := deflate_stored (ys # zs), dest := dest d @ xs\<rparr>"
  have "inflate_blocks u d = inflate_blocks u ?d"
    using stored_block_step [of d False xs "deflate_stored (ys # zs)" u] "3.prems" by simp
  also have "... = (0, ?d\<lparr>source := [], dest := dest ?d @ concat (ys # zs)\<rparr>)"
    by (rule "3.IH") (use "3.prems" in simp_all)
  finally show ?case by simp
qed simp

lemma map_nth_segment: "map ((!) (as @ bs @ cs)) [length as..<length as + length bs] = bs"
  by (rule nth_equalityI) (simp_all add: nth_append)

lemma read_le32_at: "read_le32 ((!) (as @ le32 w @ bs)) (length as) = w"
  by (rule read_le32_le32) (simp_all add: nth_append le32_def nth_Cons')

lemma deflate_stored_length: "chunks \<noteq> [] \<Longrightarrow> 5 \<le> length (deflate_stored chunks)"
  by (cases chunks rule: deflate_stored.cases) (simp_all add: stored_block_def le16_def)

lemma gzip_stored_decompress:
  assumes s: "\<And>i. i < length (gzip_stored chunks) \<Longrightarrow> s i = gzip_stored chunks ! i"
    and ne: "chunks \<noteq> []" and c: "list_all (\<lambda>c. length c \<le> 65535) chunks"
    and small: "length (gzip_stored chunks) < 2 ^ 32" and cap: "length (concat chunks) \<le> unat dst_len"
  shows "tinflate_decompress u (Some s) (of_nat (length (gzip_stored chunks))) True dst_len True
    = (0, of_nat (length (concat chunks)), concat chunks)"
proof -
  define hdr :: "u8 list" where "hdr = [0x1F, 0x8B, 8, 0, 0, 0, 0, 0, 0, 3]"
  define body where "body = deflate_stored chunks"
  define crc where "crc = le32 (crc32_spec (concat chunks))"
  define len where "len = le32 (of_nat (length (concat chunks)))"
  define g where "g = gzip_stored chunks"
  have g: "g = hdr @ body @ crc @ len" by (simp add: g_def gzip_stored_def hdr_def body_def crc_def len_def)
  have l: "length hdr = 10" "length crc = 4" "length len = 4" "length g = length body + 18" "5 \<le> length body"
    using deflate_stored_length [OF ne] by (simp_all add: g hdr_def crc_def len_def le32_def body_def)
  have sg: "s i = g ! i" if "i < length g" for i using s that by (simp add: g_def)
  have h: "s 0 = 0x1F" "s 1 = 0x8B" "s 2 = 8" "s 3 = 0" using l by (simp_all add: sg) (simp_all add: g hdr_def)
  have n: "unat (of_nat (length g) :: u32) = length g" using small by (simp add: g_def unat_of_nat_u32)
  have u2: "length g \<ge> 18" using l by simp
  have d32: "length (concat chunks) < 2 ^ 32" using cap unsigned_less [of dst_len, where 'a = nat] by simp
  have "inflate_blocks u \<lparr>source = body, tag = 0, bitcount = 0, overflow = False, dest = [], dest_cap = unat dst_len,
      ltree = un_ltree u, dtree = un_dtree u\<rparr> = (0, \<lparr>source = [], tag = 0, bitcount = 0, overflow = False,
      dest = concat chunks, dest_cap = unat dst_len, ltree = un_ltree u, dtree = un_dtree u\<rparr>)"
    using deflate_stored_run [OF ne, of "\<lparr>source = body, tag = 0, bitcount = 0, overflow = False, dest = [], dest_cap = unat dst_len,
      ltree = un_ltree u, dtree = un_dtree u\<rparr>" u] c cap by (simp add: body_def list_all_iff)
  then have unc: "tinf_uncompress u (unat dst_len) body = (0, length (concat chunks), concat chunks)"
    by (simp add: tinf_uncompress_def)
  have "map s [10..<length g - 8] = map ((!) g) [10..<length g - 8]" by (auto simp: sg)
  also have "... = body" using map_nth_segment [of hdr body "crc @ len"] l by (simp add: g)
  finally have seg: "map s [10..<length g - 8] = body" .
  have rs: "read_le32 s i = read_le32 ((!) g) i" if "i + 3 < length g" for i using that by (simp add: read_le32_def sg)
  have r1: "read_le32 s (length g - 8) = crc32_spec (concat chunks)"
    using read_le32_at [of "hdr @ body" _ len] l rs [of "length g - 8"] by (simp add: g crc_def)
  have r2: "unat (read_le32 s (length g - 4)) = length (concat chunks)"
    using read_le32_at [of "hdr @ body @ crc" _ "[]"] l d32 rs [of "length g - 4"] by (simp add: g len_def unat_of_nat_u32)
  have st: "gzip_start s (length g) = Some 10"
    by (simp add: gzip_start_def h skip_extra_def skip_hcrc_def)
  have "tinf_gzip_uncompress u (unat dst_len) s (length g) = (0, length (concat chunks), concat chunks)"
    using u2 cap by (simp add: tinf_gzip_uncompress_def Let_def h h(2) [simplified] st r1 r2 seg unc tinf_crc32_spec)
  then show ?thesis
    using u2 n by (simp add: tinflate_decompress_def g_def [symmetric] word_le_nat_alt h h(2) [simplified])
qed

text \<open>
  C20. The decompressor inverts storing: a gzip member made of stored blocks of at most 65535 bytes
  each, with its checksum and length, decompresses to the bytes that were stored, for any number
  of blocks and any contents, into any buffer that is large enough.
\<close>

theorem tinflate_stored_roundtrip:
  assumes ne: "chunks \<noteq> []" and c: "list_all (\<lambda>c. length c \<le> 65535) chunks"
    and small: "length (gzip_stored chunks) < 2 ^ 32" and cap: "length (concat chunks) \<le> unat dst_len"
  shows "tinflate_decompress u (Some ((!) (gzip_stored chunks))) (of_nat (length (gzip_stored chunks))) True dst_len True
    = (0, of_nat (length (concat chunks)), concat chunks)"
  by (rule gzip_stored_decompress [OF refl ne c small cap])

definition sample_uninit :: uninit where
  "sample_uninit = \<lparr>un_ltree = ltree sample_data, un_dtree = dtree sample_data, un_lengths = \<lambda>_. 0\<rparr>"

theorem tinflate_stored_roundtrip_witness:
  "tinflate_decompress sample_uninit (Some ((!) (gzip_stored [[0x5A, 0x61], [], [0x70]])))
     (of_nat (length (gzip_stored [[0x5A, 0x61], [], [0x70]]))) True 16 True = (0, 3, [0x5A, 0x61, 0x70])"
  using tinflate_stored_roundtrip [of "[[0x5A, 0x61], [], [0x70]]" 16 sample_uninit]
  by (simp add: gzip_stored_def stored_block_def le16_def le32_def)

end
