(* ===== verification/Kheap.thy ===== *)
theory Kheap
  imports Kernel_Memory
begin

text \<open>
  The kernel heap, \<^verbatim>\<open>src/kernel/mm/heap.c\<close>: blocks with a 16-byte header are carved from a
  bump pointer; freed blocks go to one of 64 exact-size lists or to an overflow list, linked
  through their own first eight bytes. Headers and links live in the byte memory that the
  heap's users also write, so the theory proves that the users' blocks, the headers and the
  links never overlap. The search of the overflow list follows pointers and is a
  \<open>partial_function\<close>; it returns in every state the heap can reach.
\<close>

subsection \<open>State\<close>

record kheap =
  h_mem :: mem
  g_heap_alloc_start :: u64
  g_heap_current :: u64
  g_heap_end :: u64
  g_heap_min_start :: u64
  g_heap_size :: u64
  g_free_bytes :: u64
  g_free_buckets :: "nat \<Rightarrow> u64"
  g_overflow_list :: u64

abbreviation (input) KHEAP_PAGE_ALIGN :: u64 where "KHEAP_PAGE_ALIGN \<equiv> 4096"
abbreviation (input) KHEAP_BLOCK_ALIGN :: "'a::len word" where "KHEAP_BLOCK_ALIGN \<equiv> 16"
abbreviation (input) KHEAP_HEADER_SIZE :: "'a::len word" where "KHEAP_HEADER_SIZE \<equiv> 16"
abbreviation (input) KHEAP_MIN_USER :: u64 where "KHEAP_MIN_USER \<equiv> 16"
abbreviation (input) N_FAST_BUCKETS :: u32 where "N_FAST_BUCKETS \<equiv> 64"

subsection \<open>Helpers\<close>

text \<open>\<open>FREE_NEXT_PTR(user_ptr)\<close>\<close>

definition free_next_ptr :: "kheap \<Rightarrow> u64 \<Rightarrow> u64" where
  "free_next_ptr h user_ptr = read_u64 (h_mem h) user_ptr"

definition set_next_ptr :: "u64 \<Rightarrow> u64 \<Rightarrow> kheap \<Rightarrow> kheap" where
  "set_next_ptr user_ptr v h = h\<lparr>h_mem := write_u64 user_ptr v (h_mem h)\<rparr>"

text \<open>\<open>hdr->block_size\<close>, and the stores that initialise a header.\<close>

definition block_size :: "kheap \<Rightarrow> u64 \<Rightarrow> u32" where
  "block_size h hdr = read_u32 (h_mem h) hdr"

definition init_header :: "u64 \<Rightarrow> u32 \<Rightarrow> kheap \<Rightarrow> kheap" where
  "init_header hdr sz h =
     h\<lparr>h_mem := write_u32 (hdr + 12) 0 (write_u32 (hdr + 8) 0 (write_u32 (hdr + 4) 0
                 (write_u32 hdr sz (h_mem h))))\<rparr>"

definition block_zero_user :: "u64 \<Rightarrow> u32 \<Rightarrow> kheap \<Rightarrow> kheap" where
  "block_zero_user user_ptr n_blocks h =
     (let n_words = (n_blocks * KHEAP_BLOCK_ALIGN) div 8
      in h\<lparr>h_mem := fold (\<lambda>i m. write_u64 (user_ptr + of_nat i * 8) 0 m) [0..<unat n_words] (h_mem h)\<rparr>)"

definition heap_align_up :: "u64 \<Rightarrow> u64 \<Rightarrow> u64" where
  "heap_align_up v a = (v + a - 1) AND NOT (a - 1)"

definition blocks_for_size :: "u64 \<Rightarrow> u32" where
  "blocks_for_size user_size =
     (let aligned = heap_align_up user_size KHEAP_BLOCK_ALIGN;
          aligned = (if aligned < KHEAP_MIN_USER then KHEAP_MIN_USER else aligned)
      in ucast (aligned div KHEAP_BLOCK_ALIGN))"

definition bucket_push :: "u64 \<Rightarrow> u32 \<Rightarrow> kheap \<Rightarrow> kheap" where
  "bucket_push user_ptr n_blocks h =
     (let user_bytes = n_blocks * KHEAP_BLOCK_ALIGN;
          h1 = (if n_blocks > 0 \<and> n_blocks \<le> N_FAST_BUCKETS then
                  (let idx = unat (n_blocks - 1);
                       h0 = set_next_ptr user_ptr (g_free_buckets h idx) h
                   in h0\<lparr>g_free_buckets := (g_free_buckets h0)(idx := user_ptr)\<rparr>)
                else
                  (set_next_ptr user_ptr (g_overflow_list h) h)\<lparr>g_overflow_list := user_ptr\<rparr>)
      in h1\<lparr>g_free_bytes := g_free_bytes h1 + ucast user_bytes\<rparr>)"

text \<open>The pointer returned is 0 for NULL.\<close>

definition bucket_pop_fast :: "u32 \<Rightarrow> kheap \<Rightarrow> u64 \<times> kheap" where
  "bucket_pop_fast n_blocks h =
     (if n_blocks = 0 \<or> n_blocks > N_FAST_BUCKETS then (0, h)
      else
        (let idx = unat (n_blocks - 1); node = g_free_buckets h idx
         in if node = 0 then (0, h)
            else (node, h\<lparr>g_free_buckets := (g_free_buckets h)(idx := free_next_ptr h node),
                           g_free_bytes := g_free_bytes h - ucast (n_blocks * KHEAP_BLOCK_ALIGN)\<rparr>)))"

text \<open>
  The search loop of \<open>bucket_pop_overflow\<close>. A \<open>void **\<close> that points to \<open>g_overflow_list\<close> is
  \<open>None\<close>, one that points into a free block is the block's address. The candidate is the block,
  the pointer to it and its size.
\<close>

type_synonym candidate = "(u64 \<times> u64 option \<times> u32) option"

definition better_fit :: "u32 \<Rightarrow> u32 \<Rightarrow> candidate \<Rightarrow> bool" where
  "better_fit n_blocks cur_blocks best \<longleftrightarrow>
     cur_blocks > n_blocks \<and> (case best of None \<Rightarrow> True | Some (_, _, best_blocks) \<Rightarrow> cur_blocks < best_blocks)
     \<and> cur_blocks \<le> (n_blocks * 20) div 16"

partial_function (option) overflow_search ::
  "kheap \<Rightarrow> u32 \<Rightarrow> u64 option \<Rightarrow> u64 \<Rightarrow> candidate \<Rightarrow> candidate option" where
  "overflow_search h n_blocks prev_ptr cur best =
     (if cur = 0 then Some best
      else
        (let cur_blocks = (block_size h (cur - KHEAP_HEADER_SIZE) - KHEAP_HEADER_SIZE) div KHEAP_BLOCK_ALIGN
         in if cur_blocks = n_blocks then Some (Some (cur, prev_ptr, cur_blocks))
            else overflow_search h n_blocks (Some cur) (free_next_ptr h cur)
                   (if better_fit n_blocks cur_blocks best then Some (cur, prev_ptr, cur_blocks) else best)))"

text \<open>\<open>*best_prev = FREE_NEXT_PTR(best)\<close>\<close>

definition overflow_unlink :: "u64 \<Rightarrow> u64 option \<Rightarrow> kheap \<Rightarrow> kheap" where
  "overflow_unlink best best_prev h =
     (case best_prev of
        None \<Rightarrow> h\<lparr>g_overflow_list := free_next_ptr h best\<rparr>
      | Some p \<Rightarrow> set_next_ptr p (free_next_ptr h best) h)"

definition split_block :: "u64 \<Rightarrow> u32 \<Rightarrow> u32 \<Rightarrow> kheap \<Rightarrow> kheap" where
  "split_block best best_blocks n_blocks h =
     (let tail_blocks = best_blocks - n_blocks - 1;
          tail_hdr_addr = best + ucast n_blocks * KHEAP_BLOCK_ALIGN;
          tail_usr = tail_hdr_addr + KHEAP_HEADER_SIZE;
          h1 = init_header tail_hdr_addr (KHEAP_HEADER_SIZE + tail_blocks * KHEAP_BLOCK_ALIGN) h;
          h2 = h1\<lparr>h_mem := write_u32 (best - KHEAP_HEADER_SIZE)
                   (KHEAP_HEADER_SIZE + n_blocks * KHEAP_BLOCK_ALIGN) (h_mem h1)\<rparr>
      in bucket_push tail_usr tail_blocks h2)"

definition bucket_pop_overflow :: "u32 \<Rightarrow> kheap \<Rightarrow> (u64 \<times> kheap) option" where
  "bucket_pop_overflow n_blocks h =
     do {
       found \<leftarrow> overflow_search h n_blocks None (g_overflow_list h) None;
       case found of
         None \<Rightarrow> Some (0, h)
       | Some (best, best_prev, best_blocks) \<Rightarrow>
           (let h1 = overflow_unlink best best_prev h;
                h2 = h1\<lparr>g_free_bytes := g_free_bytes h1 - ucast (best_blocks * KHEAP_BLOCK_ALIGN)\<rparr>;
                h3 = (if best_blocks \<ge> n_blocks + 2 then split_block best best_blocks n_blocks h2 else h2)
            in Some (best, h3))
     }"

subsection \<open>Interface\<close>

definition kheap_set_size :: "u64 \<Rightarrow> kheap \<Rightarrow> kheap" where
  "kheap_set_size heap_size h =
     (if g_heap_current h \<noteq> 0 \<or> heap_size = 0 then h else h\<lparr>g_heap_size := heap_size\<rparr>)"

definition kheap_init :: "u64 \<Rightarrow> kheap \<Rightarrow> kheap" where
  "kheap_init kernel_end h =
     (let start = heap_align_up kernel_end KHEAP_PAGE_ALIGN;
          start = (if g_heap_min_start h > start then heap_align_up (g_heap_min_start h) KHEAP_PAGE_ALIGN else start)
      in h\<lparr>g_heap_alloc_start := 0, g_heap_current := start, g_heap_end := start + g_heap_size h, g_free_bytes := 0\<rparr>)"

definition kheap_reserve_until :: "u64 \<Rightarrow> kheap \<Rightarrow> kheap" where
  "kheap_reserve_until min_start h =
     (if g_heap_current h = 0 then
        (if min_start > g_heap_min_start h then h\<lparr>g_heap_min_start := min_start\<rparr> else h)
      else if g_heap_alloc_start h \<noteq> 0 then h
      else if min_start \<le> g_heap_current h then h
      else
        (let aligned = heap_align_up min_start KHEAP_BLOCK_ALIGN
         in if aligned > g_heap_end h then h\<lparr>g_heap_current := g_heap_end h\<rparr>
            else h\<lparr>g_heap_current := aligned\<rparr>))"

text \<open>The first allocation fixes where the blocks begin.\<close>

definition pin_start :: "kheap \<Rightarrow> kheap" where
  "pin_start h =
     (if g_heap_alloc_start h = 0 then
        (let a = heap_align_up (g_heap_current h) KHEAP_BLOCK_ALIGN
         in h\<lparr>g_heap_alloc_start := a, g_heap_current := a\<rparr>)
      else h)"

definition bump_alloc :: "u32 \<Rightarrow> kheap \<Rightarrow> u64 \<times> kheap" where
  "bump_alloc total_size h =
     (let block_start = heap_align_up (g_heap_current h) KHEAP_BLOCK_ALIGN;
          block_end = block_start + ucast total_size
      in if block_end > g_heap_end h \<or> block_end < block_start then (0, h)
         else (block_start + KHEAP_HEADER_SIZE,
               (init_header block_start total_size h)\<lparr>g_heap_current := block_end\<rparr>))"

definition kheap_alloc :: "u64 \<Rightarrow> kheap \<Rightarrow> (u64 \<times> kheap) option" where
  "kheap_alloc sz h =
     (if sz = 0 \<or> g_heap_current h = 0 then Some (0, h)
      else
        (let n_blocks = blocks_for_size sz;
             total_size = KHEAP_HEADER_SIZE + n_blocks * KHEAP_BLOCK_ALIGN;
             h0 = pin_start h;
             (user_ptr, h1) = bucket_pop_fast n_blocks h0
         in if user_ptr \<noteq> 0 then Some (user_ptr, block_zero_user user_ptr n_blocks h1)
            else if n_blocks > N_FAST_BUCKETS then
              do {
                (p, h2) \<leftarrow> bucket_pop_overflow n_blocks h1;
                if p \<noteq> 0 then Some (p, block_zero_user p n_blocks h2) else Some (bump_alloc total_size h2)
              }
            else Some (bump_alloc total_size h1)))"

definition kheap_free :: "u64 \<Rightarrow> kheap \<Rightarrow> kheap" where
  "kheap_free ptr h =
     (if ptr = 0 \<or> g_heap_alloc_start h = 0 then h
      else
        (let hdr = ptr - KHEAP_HEADER_SIZE
         in if hdr < g_heap_alloc_start h \<or> hdr \<ge> g_heap_current h then h
            else
              (let n_blocks = (block_size h hdr - KHEAP_HEADER_SIZE) div KHEAP_BLOCK_ALIGN
               in if hdr + ucast (block_size h hdr) \<ge> g_heap_current h then h\<lparr>g_heap_current := hdr\<rparr>
                  else bucket_push ptr n_blocks h)))"

definition kheap_get_free_bytes :: "kheap \<Rightarrow> u64" where
  "kheap_get_free_bytes h =
     (if g_heap_end h \<le> g_heap_current h then g_free_bytes h
      else g_free_bytes h + (g_heap_end h - g_heap_current h))"

definition kernel_alloc :: "u64 \<Rightarrow> kheap \<Rightarrow> (u64 \<times> kheap) option" where
  "kernel_alloc sz h = kheap_alloc sz h"

definition kernel_free :: "u64 \<Rightarrow> kheap \<Rightarrow> kheap" where
  "kernel_free ptr h = kheap_free ptr h"

definition kernel_get_free_bytes :: "kheap \<Rightarrow> u64" where
  "kernel_get_free_bytes h = kheap_get_free_bytes h"

subsection \<open>Memory outside a range\<close>

text \<open>\<open>m'\<close> differs from \<open>m\<close> at most in the addresses from \<open>lo\<close> up to \<open>hi\<close>.\<close>

definition agree :: "nat \<Rightarrow> nat \<Rightarrow> mem \<Rightarrow> mem \<Rightarrow> bool" where
  "agree lo hi m m' \<longleftrightarrow> (\<forall>x. unat x < lo \<or> hi \<le> unat x \<longrightarrow> m' x = m x)"

lemma agree_refl [simp]: "agree lo hi m m"
  by (simp add: agree_def)

lemma agree_trans: "agree lo hi m m1 \<Longrightarrow> agree lo hi m1 m2 \<Longrightarrow> agree lo hi m m2"
  by (simp add: agree_def)

lemma agree_mono: "agree lo hi m m' \<Longrightarrow> lo' \<le> lo \<Longrightarrow> hi \<le> hi' \<Longrightarrow> agree lo' hi' m m'"
  by (auto simp: agree_def)

lemma agree_write_nat:
  assumes "unat a + n \<le> 2 ^ 64" and "n < 2 ^ 32"
  shows "agree (unat a) (unat a + n) m (write_nat n v a m)"
  using assms by (auto simp: agree_def in_range_nat intro!: write_nat_other)

lemma agree_write:
  "unat a + 4 \<le> 2 ^ 64 \<Longrightarrow> agree (unat a) (unat a + 4) m (write_u32 a v m)"
  "unat a + 8 \<le> 2 ^ 64 \<Longrightarrow> agree (unat a) (unat a + 8) m (write_u64 a w m)"
  by (simp_all add: write_u32_def write_u64_def agree_write_nat)

lemma read_nat_agree:
  assumes "agree lo hi m m'" and "unat a + n \<le> lo \<or> hi \<le> unat a" and "unat a + n \<le> 2 ^ 64"
  shows "read_nat n m' a = read_nat n m a"
proof (rule read_nat_cong)
  fix i
  assume "i < n"
  then have "unat (a + of_nat i) = unat a + i" using assms(3) by (intro unat_add_u64) simp
  then show "m' (a + of_nat i) = m (a + of_nat i)" using assms(1,2) \<open>i < n\<close> by (auto simp: agree_def)
qed

lemma read_agree:
  "agree lo hi m m' \<Longrightarrow> unat a + 4 \<le> lo \<or> hi \<le> unat a \<Longrightarrow> unat a + 4 \<le> 2 ^ 64 \<Longrightarrow> read_u32 m' a = read_u32 m a"
  "agree lo hi m m' \<Longrightarrow> unat a + 8 \<le> lo \<or> hi \<le> unat a \<Longrightarrow> unat a + 8 \<le> 2 ^ 64 \<Longrightarrow> read_u64 m' a = read_u64 m a"
  by (simp_all add: read_u32_def read_u64_def read_nat_agree)

subsection \<open>The blocks of the heap\<close>

text \<open>
  The region from the first block to the bump pointer is a sequence of blocks; \<open>tiles a ns\<close> lists
  their header addresses and sizes, in units of 16 bytes without the header.
\<close>

fun tiles :: "nat \<Rightarrow> nat list \<Rightarrow> (nat \<times> nat) list" where
  "tiles a [] = []"
| "tiles a (n # ns) = (a, n) # tiles (a + 16 * (n + 1)) ns"

definition span :: "nat list \<Rightarrow> nat" where
  "span ns = sum_list (map (\<lambda>n. 16 * (n + 1)) ns)"

lemma span_simps [simp]: "span [] = 0" "span (n # ns) = 16 * (n + 1) + span ns" "span (ns @ ms) = span ns + span ms"
  by (simp_all add: span_def)

lemma tiles_append: "tiles a (ns @ ms) = tiles a ns @ tiles (a + span ns) ms"
  by (induction ns arbitrary: a) (simp_all add: add.assoc)

lemma tiles_split:
  "(b, n) \<in> set (tiles a ns) \<Longrightarrow> \<exists>xs ys. ns = xs @ n # ys \<and> b = a + span xs"
proof (induction ns arbitrary: a)
  case (Cons k ns)
  show ?case
  proof (cases "(b, n) = (a, k)")
    case True
    then show ?thesis by (intro exI [of _ "[]"] exI [of _ ns]) simp
  next
    case False
    then have "(b, n) \<in> set (tiles (a + 16 * (k + 1)) ns)" using Cons.prems by auto
    from Cons.IH [OF this] obtain xs ys where "ns = xs @ n # ys" "b = a + 16 * (k + 1) + span xs" by blast
    then show ?thesis by (intro exI [of _ "k # xs"] exI [of _ ys]) simp
  qed
qed simp

lemma tiles_range:
  assumes "(b, n) \<in> set (tiles a ns)"
  shows "a \<le> b" and "b + 16 * (n + 1) \<le> a + span ns" and "16 dvd a \<Longrightarrow> 16 dvd b"
proof -
  obtain xs ys where x: "ns = xs @ n # ys" "b = a + span xs" using tiles_split [OF assms] by blast
  then show "a \<le> b" and "b + 16 * (n + 1) \<le> a + span ns" by simp_all
  have "16 dvd span xs" by (induction xs) (simp_all add: dvd_add)
  with x(2) show "16 dvd a \<Longrightarrow> 16 dvd b" by (simp add: dvd_add)
qed

lemma tiles_disjoint:
  "(b, n) \<in> set (tiles a ns) \<Longrightarrow> (c, k) \<in> set (tiles a ns)
     \<Longrightarrow> (b, n) = (c, k) \<or> b + 16 * (n + 1) \<le> c \<or> c + 16 * (k + 1) \<le> b"
proof (induction ns arbitrary: a)
  case (Cons j ns)
  let ?a = "a + 16 * (j + 1)"
  have ge: "?a \<le> d" if "(d, i) \<in> set (tiles ?a ns)" for d i using tiles_range(1) [OF that] .
  consider "(b, n) = (a, j)" "(c, k) = (a, j)" | "(b, n) = (a, j)" "(c, k) \<in> set (tiles ?a ns)"
    | "(b, n) \<in> set (tiles ?a ns)" "(c, k) = (a, j)" | "(b, n) \<in> set (tiles ?a ns)" "(c, k) \<in> set (tiles ?a ns)"
    using Cons.prems by fastforce
  then show ?case
  proof cases
    case 4
    then show ?thesis by (rule Cons.IH)
  qed (use ge in auto)
qed simp

lemma tiles_unique: "(b, n) \<in> set (tiles a ns) \<Longrightarrow> (b, k) \<in> set (tiles a ns) \<Longrightarrow> n = k"
  using tiles_disjoint [of b n a ns b k] by auto

subsection \<open>The invariant\<close>

definition ptr_opt :: "u64 \<Rightarrow> nat option" where
  "ptr_opt p = (if p = 0 then None else Some (unat p))"

definition nxt :: "mem \<Rightarrow> nat \<Rightarrow> nat option" where
  "nxt m u = ptr_opt (read_u64 m (of_nat u))"

text \<open>The 65 lists: the exact-size buckets and, as number 64, the overflow list.\<close>

definition heads :: "kheap \<Rightarrow> nat \<Rightarrow> nat option" where
  "heads h i = ptr_opt (if i < 64 then g_free_buckets h i else if i = 64 then g_overflow_list h else 0)"

definition list_of_size :: "nat \<Rightarrow> nat" where
  "list_of_size n = (if n \<le> 64 then n - 1 else 64)"

definition free_set :: "(nat \<Rightarrow> nat list) \<Rightarrow> nat set" where
  "free_set fl = (\<Union>i \<le> 64. set (fl i))"

definition headers_ok :: "mem \<Rightarrow> (nat \<times> nat) list \<Rightarrow> bool" where
  "headers_ok m ts \<longleftrightarrow> (\<forall>(a, n) \<in> set ts. 1 \<le> n \<and> unat (read_u32 m (of_nat a)) = 16 * (n + 1))"

definition lists_ok :: "mem \<Rightarrow> (nat \<Rightarrow> nat option) \<Rightarrow> (nat \<times> nat) list \<Rightarrow> (nat \<Rightarrow> nat list) \<Rightarrow> bool" where
  "lists_ok m first ts fl \<longleftrightarrow>
     (\<forall>i \<le> 64. lchain (nxt m) (first i) (fl i) \<and> distinct (fl i)
        \<and> (\<forall>u \<in> set (fl i). 16 \<le> u \<and> (\<exists>n. (u - 16, n) \<in> set ts \<and> list_of_size n = i)))"

definition heap_ok :: "kheap \<Rightarrow> nat list \<Rightarrow> (nat \<Rightarrow> nat list) \<Rightarrow> bool" where
  "heap_ok h ns fl \<longleftrightarrow>
     (let S = unat (g_heap_alloc_start h)
      in S \<noteq> 0 \<and> 16 dvd S \<and> unat (g_heap_current h) = S + span ns \<and> (ns = [] \<or> g_heap_current h \<le> g_heap_end h)
         \<and> headers_ok (h_mem h) (tiles S ns) \<and> lists_ok (h_mem h) (heads h) (tiles S ns) fl)"

abbreviation heap_tiles :: "kheap \<Rightarrow> nat list \<Rightarrow> (nat \<times> nat) list" where
  "heap_tiles h ns \<equiv> tiles (unat (g_heap_alloc_start h)) ns"

lemma tile_bounds:
  assumes "heap_ok h ns fl" and "(a, n) \<in> set (heap_tiles h ns)"
  shows "a + 16 * (n + 1) \<le> unat (g_heap_current h)" and "a + 16 * (n + 1) < 2 ^ 64" and "a < 2 ^ 64"
    and "unat (of_nat a :: u64) = a" and "unat (of_nat (a + 16) :: u64) = a + 16" and "1 \<le> n" and "16 dvd a"
    and "16 * (n + 1) < 2 ^ 32" and "unat (g_heap_alloc_start h) \<le> a"
proof -
  show c: "a + 16 * (n + 1) \<le> unat (g_heap_current h)" and ge: "unat (g_heap_alloc_start h) \<le> a" and "16 dvd a"
    using assms(1) tiles_range [OF assms(2)] by (simp_all add: heap_ok_def Let_def)
  show n: "1 \<le> n" and "16 * (n + 1) < 2 ^ 32"
    using assms unat_u32_lt [of "read_u32 (h_mem h) (of_nat a)"] by (auto simp: heap_ok_def Let_def headers_ok_def)
  show "a + 16 * (n + 1) < 2 ^ 64" using c unat_u64_lt [of "g_heap_current h"] by simp
  with n show "a < 2 ^ 64" "unat (of_nat a :: u64) = a" "unat (of_nat (a + 16) :: u64) = a + 16"
    by (simp_all add: unat_of_nat_u64 del: of_nat_add)
qed

lemma tile_read:
  assumes "heap_ok h ns fl" and "(a, n) \<in> set (heap_tiles h ns)"
  shows "unat (read_u32 (h_mem h) (of_nat a)) = 16 * (n + 1)"
  using assms by (auto simp: heap_ok_def Let_def headers_ok_def)

lemma free_tile:
  assumes "heap_ok h ns fl" and "i \<le> 64" and "u \<in> set (fl i)"
  obtains n where "(u - 16, n) \<in> set (heap_tiles h ns)" and "16 \<le> u" and "list_of_size n = i"
  using assms by (auto simp: heap_ok_def Let_def lists_ok_def)

text \<open>A block is in one list at most.\<close>

lemma free_lists_disjoint:
  assumes "heap_ok h ns fl" and "i \<le> 64" and "j \<le> 64" and "u \<in> set (fl i)" and "u \<in> set (fl j)"
  shows "i = j"
proof -
  obtain n where n: "(u - 16, n) \<in> set (heap_tiles h ns)" "list_of_size n = i"
    using free_tile [OF assms(1,2,4)] by blast
  obtain k where k: "(u - 16, k) \<in> set (heap_tiles h ns)" "list_of_size k = j"
    using free_tile [OF assms(1,3,5)] by blast
  from tiles_unique [OF n(1) k(1)] n(2) k(2) show ?thesis by simp
qed

text \<open>Two different blocks do not meet, headers included.\<close>

lemma tiles_apart:
  assumes "heap_ok h ns fl" and "(a, n) \<in> set (heap_tiles h ns)" and "(b, k) \<in> set (heap_tiles h ns)" and "a \<noteq> b"
  shows "a + 16 * (n + 1) \<le> b \<or> b + 16 * (k + 1) \<le> a"
  using tiles_disjoint [OF assms(2,3)] assms(4) by auto

text \<open>
  Writing into the user part of a block changes no header and no link of another block.
\<close>

lemma user_write:
  assumes ok: "heap_ok h ns fl" and t: "(a, n) \<in> set (heap_tiles h ns)"
    and m: "agree (a + 16) (a + 16 + 16 * n) (h_mem h) m'"
  shows "headers_ok m' (heap_tiles h ns)"
    and "\<And>u. u \<in> free_set fl \<Longrightarrow> u \<noteq> a + 16 \<Longrightarrow> nxt m' u = nxt (h_mem h) u"
proof -
  have "read_u32 m' (of_nat b) = read_u32 (h_mem h) (of_nat b)" if b: "(b, k) \<in> set (heap_tiles h ns)" for b k
  proof (rule read_agree(1) [OF m])
    show "unat (of_nat b :: u64) + 4 \<le> 2 ^ 64" using tile_bounds(2,4) [OF ok b] by simp
    show "unat (of_nat b :: u64) + 4 \<le> a + 16 \<or> a + 16 + 16 * n \<le> unat (of_nat b :: u64)"
      using tiles_apart [OF ok t b] tile_bounds(4) [OF ok b] by (cases "a = b") auto
  qed
  then show "headers_ok m' (heap_tiles h ns)"
    using ok by (auto simp: heap_ok_def Let_def headers_ok_def)
  fix u
  assume u: "u \<in> free_set fl" "u \<noteq> a + 16"
  then obtain i where "i \<le> 64" "u \<in> set (fl i)" by (auto simp: free_set_def)
  then obtain k where k: "(u - 16, k) \<in> set (heap_tiles h ns)" "16 \<le> u" by (rule free_tile [OF ok])
  have ne: "a \<noteq> u - 16" using u(2) k(2) by auto
  have uu: "unat (of_nat u :: u64) = u" using tile_bounds(5) [OF ok k(1)] k(2) by simp
  have "read_u64 m' (of_nat u) = read_u64 (h_mem h) (of_nat u)"
  proof (rule read_agree(2) [OF m])
    show "unat (of_nat u :: u64) + 8 \<le> 2 ^ 64" using tile_bounds(2,6) [OF ok k(1)] k(2) uu by simp
    show "unat (of_nat u :: u64) + 8 \<le> a + 16 \<or> a + 16 + 16 * n \<le> unat (of_nat u :: u64)"
      using tiles_apart [OF ok t k(1) ne] tile_bounds(6) [OF ok k(1)] k(2) unfolding uu by auto
  qed
  then show "nxt m' u = nxt (h_mem h) u" by (simp add: nxt_def)
qed

lemma lists_ok_cong:
  assumes "lists_ok m first ts fl" and "\<And>u. u \<in> free_set fl \<Longrightarrow> nxt m' u = nxt m u"
  shows "lists_ok m' first ts fl"
proof -
  have "lchain (nxt m') (first i) (fl i) = lchain (nxt m) (first i) (fl i)" if "i \<le> 64" for i
    using that assms(2) by (intro lchain_cong) (auto simp: free_set_def)
  with assms(1) show ?thesis by (simp add: lists_ok_def)
qed

lemma heads_mem [simp]: "heads (h\<lparr>h_mem := m\<rparr>) = heads h"
  by (simp add: heads_def fun_eq_iff)

text \<open>A user who writes into a block that is not free.\<close>

lemma heap_ok_user_write:
  assumes "heap_ok h ns fl" and "(a, n) \<in> set (heap_tiles h ns)" and "a + 16 \<notin> free_set fl"
    and "agree (a + 16) (a + 16 + 16 * n) (h_mem h) m'"
  shows "heap_ok (h\<lparr>h_mem := m'\<rparr>) ns fl"
proof -
  have "lists_ok m' (heads h) (heap_tiles h ns) fl"
  proof (rule lists_ok_cong)
    show "lists_ok (h_mem h) (heads h) (heap_tiles h ns) fl" using assms(1) by (simp add: heap_ok_def Let_def)
    show "nxt m' u = nxt (h_mem h) u" if "u \<in> free_set fl" for u
      using user_write(2) [OF assms(1,2,4) that] assms(3) that by auto
  qed
  with user_write(1) [OF assms(1,2,4)] assms(1) show ?thesis by (simp add: heap_ok_def Let_def)
qed

subsection \<open>Adding to and taking from the free lists\<close>

lemma list_of_size_le: "list_of_size n \<le> 64"
  by (auto simp: list_of_size_def)

lemma nxt_write_same: "u < 2 ^ 64 \<Longrightarrow> nxt (write_u64 (of_nat u) v m) u = ptr_opt v"
  by (simp add: nxt_def)

text \<open>Linking a block that is not free in front of the list of its size.\<close>

lemma heap_ok_push:
  assumes ok: "heap_ok h ns fl" and t: "(a, n) \<in> set (heap_tiles h ns)" and u: "a + 16 \<notin> free_set fl"
    and p: "unat p = a + 16" and i: "i = list_of_size n"
    and h': "g_heap_alloc_start h' = g_heap_alloc_start h" "g_heap_current h' = g_heap_current h"
      "g_heap_end h' = g_heap_end h" "h_mem h' = write_u64 p v (h_mem h)"
      "ptr_opt v = heads h i" "heads h' = (heads h)(i := Some (a + 16))"
  shows "heap_ok h' ns (fl(i := (a + 16) # fl i))"
proof -
  let ?u = "a + 16" and ?m = "write_u64 p v (h_mem h)"
  have pu: "p = of_nat ?u" by (simp add: p [symmetric])
  have b: "a + 16 * (n + 1) < 2 ^ 64" "1 \<le> n" using tile_bounds(2,6) [OF ok t] by simp_all
  have "agree ?u (?u + 8) (h_mem h) ?m" using agree_write(2) [of p "h_mem h" v] b p by simp
  then have m: "agree ?u (?u + 16 * n) (h_mem h) ?m" by (rule agree_mono) (use b(2) in simp_all)
  note uw = user_write [OF ok t m]
  have lok: "lists_ok (h_mem h) (heads h) (heap_tiles h ns) fl" using ok by (simp add: heap_ok_def Let_def)
  then have lok': "lists_ok ?m (heads h) (heap_tiles h ns) fl" by (rule lists_ok_cong) (use uw(2) u in auto)
  have "nxt ?m ?u = heads h i" using nxt_write_same [of ?u v "h_mem h"] b h'(5) pu by simp
  moreover have "i \<le> 64" using i list_of_size_le by simp
  ultimately have "lists_ok ?m ((heads h)(i := Some ?u)) (heap_tiles h ns) (fl(i := ?u # fl i))"
    using lok' t u i by (auto simp: lists_ok_def free_set_def)
  with uw(1) ok show ?thesis by (simp add: heap_ok_def Let_def h')
qed

text \<open>Taking the first block of a list.\<close>

lemma heap_ok_pop:
  assumes ok: "heap_ok h ns fl" and i: "i \<le> 64" and f: "fl i = u # us"
    and h': "g_heap_alloc_start h' = g_heap_alloc_start h" "g_heap_current h' = g_heap_current h"
      "g_heap_end h' = g_heap_end h" "h_mem h' = h_mem h" "heads h' = (heads h)(i := nxt (h_mem h) u)"
  shows "heap_ok h' ns (fl(i := us))" and "u \<notin> free_set (fl(i := us))"
proof -
  have "lists_ok (h_mem h) (heads h) (heap_tiles h ns) fl" using ok by (simp add: heap_ok_def Let_def)
  moreover from this have "lchain (nxt (h_mem h)) (nxt (h_mem h) u) us" "distinct (u # us)"
    using i f by (force simp: lists_ok_def)+
  ultimately have "lists_ok (h_mem h) ((heads h)(i := nxt (h_mem h) u)) (heap_tiles h ns) (fl(i := us))"
    using f by (simp add: lists_ok_def)
  with ok show "heap_ok h' ns (fl(i := us))" by (simp add: heap_ok_def Let_def h')
  have "u \<notin> set (fl j)" if "j \<le> 64" "j \<noteq> i" for j
    using free_lists_disjoint [OF ok that(1) i, of u] that(2) f by auto
  with \<open>distinct (u # us)\<close> show "u \<notin> free_set (fl(i := us))" by (auto simp: free_set_def)
qed

text \<open>Taking a block out of the middle of a list: its predecessor skips it.\<close>

lemma heap_ok_unlink:
  assumes ok: "heap_ok h ns fl" and i: "i \<le> 64" and f: "fl i = xs @ u # us" and xs: "xs \<noteq> []"
    and p: "unat p = last xs" and v: "ptr_opt v = nxt (h_mem h) u"
    and h': "g_heap_alloc_start h' = g_heap_alloc_start h" "g_heap_current h' = g_heap_current h"
      "g_heap_end h' = g_heap_end h" "h_mem h' = write_u64 p v (h_mem h)" "heads h' = heads h"
  shows "heap_ok h' ns (fl(i := xs @ us))" and "u \<notin> free_set (fl(i := xs @ us))"
proof -
  let ?l = "last xs" and ?m = "write_u64 p v (h_mem h)"
  have lok: "lists_ok (h_mem h) (heads h) (heap_tiles h ns) fl" using ok by (simp add: heap_ok_def Let_def)
  have dist: "distinct (xs @ u # us)" and ch: "lchain (nxt (h_mem h)) (heads h i) (xs @ u # us)"
    using lok i f by (force simp: lists_ok_def)+
  have l: "?l \<in> set (fl i)" using f xs by simp
  then obtain n where n: "(?l - 16, n) \<in> set (heap_tiles h ns)" "16 \<le> ?l" by (rule free_tile [OF ok i])
  have la: "?l - 16 + 16 = ?l" using n(2) by simp
  have b: "?l + 16 * n < 2 ^ 64" "1 \<le> n" using tile_bounds(2,6) [OF ok n(1)] n(2) by simp_all
  have "agree ?l (?l + 8) (h_mem h) ?m" using agree_write(2) [of p "h_mem h" v] b p by simp
  then have "agree ?l (?l + 16 * n) (h_mem h) ?m" by (rule agree_mono) (use b(2) in simp_all)
  then have m: "agree (?l - 16 + 16) (?l - 16 + 16 + 16 * n) (h_mem h) ?m" unfolding la .
  note uw = user_write [OF ok n(1) m, unfolded la]
  have pl: "p = of_nat ?l" by (simp add: p [symmetric])
  have nl: "nxt ?m ?l = nxt (h_mem h) u" using nxt_write_same [of ?l v "h_mem h"] b(1) v pl by simp
  have fs: "x \<in> free_set fl" if "j \<le> 64" "x \<in> set (fl j)" for x j using that by (auto simp: free_set_def)
  have "lchain ((nxt (h_mem h))(?l := nxt (h_mem h) u)) (heads h i) (xs @ us)"
    by (rule lchain_unlink [OF ch dist xs]) simp_all
  also have "lchain ((nxt (h_mem h))(?l := nxt (h_mem h) u)) (heads h i) (xs @ us)
      = lchain (nxt ?m) (heads h i) (xs @ us)"
  proof (rule lchain_cong)
    fix x
    assume "x \<in> set (xs @ us)"
    then show "((nxt (h_mem h))(?l := nxt (h_mem h) u)) x = nxt ?m x"
      using nl uw(2) [of x] fs [OF i, of x] f by auto
  qed
  finally have chi: "lchain (nxt ?m) (heads h i) (xs @ us)" .
  have other: "?l \<notin> set (fl j)" "u \<notin> set (fl j)" if "j \<le> 64" "j \<noteq> i" for j
    using free_lists_disjoint [OF ok that(1) i] that(2) l f by auto
  have "lchain (nxt ?m) (heads h j) (fl j)" if "j \<le> 64" "j \<noteq> i" for j
  proof -
    have "lchain (nxt ?m) (heads h j) (fl j) = lchain (nxt (h_mem h)) (heads h j) (fl j)"
      using uw(2) fs [OF that(1)] other(1) [OF that] by (intro lchain_cong) blast
    then show ?thesis using lok that(1) by (simp add: lists_ok_def)
  qed
  with chi lok dist f i have "lists_ok ?m (heads h) (heap_tiles h ns) (fl(i := xs @ us))"
    by (auto simp: lists_ok_def)
  with uw(1) ok show "heap_ok h' ns (fl(i := xs @ us))" by (simp add: heap_ok_def Let_def h')
  show "u \<notin> free_set (fl(i := xs @ us))" using other(2) dist by (auto simp: free_set_def)
qed

text \<open>Carving a new block at the bump pointer.\<close>

lemma heap_ok_bump:
  assumes ok: "heap_ok h ns fl" and n: "1 \<le> n"
    and m: "agree (unat (g_heap_current h)) (unat (g_heap_current h) + 16) (h_mem h) m'"
      "unat (read_u32 m' (g_heap_current h)) = 16 * (n + 1)"
    and h': "g_heap_alloc_start h' = g_heap_alloc_start h"
      "unat (g_heap_current h') = unat (g_heap_current h) + 16 * (n + 1)"
      "g_heap_current h' \<le> g_heap_end h'" "h_mem h' = m'" "heads h' = heads h"
  shows "heap_ok h' (ns @ [n]) fl" and "unat (g_heap_current h) + 16 \<notin> free_set fl"
    and "(unat (g_heap_current h), n) \<in> set (heap_tiles h (ns @ [n]))"
proof -
  let ?c = "unat (g_heap_current h)"
  have c: "?c = unat (g_heap_alloc_start h) + span ns" using ok by (simp add: heap_ok_def Let_def)
  have tl: "heap_tiles h (ns @ [n]) = heap_tiles h ns @ [(?c, n)]" by (simp add: tiles_append c)
  then show "(?c, n) \<in> set (heap_tiles h (ns @ [n]))" by simp
  have below: "b + 16 * (k + 1) \<le> ?c" "unat (of_nat b :: u64) = b" if "(b, k) \<in> set (heap_tiles h ns)" for b k
    using tile_bounds(1,4) [OF ok that] by simp_all
  have "read_u32 m' (of_nat b) = read_u32 (h_mem h) (of_nat b)" if b: "(b, k) \<in> set (heap_tiles h ns)" for b k
    using below [OF b] unat_u64_lt [of "g_heap_current h"] by (intro read_agree(1) [OF m(1)]) auto
  moreover have "headers_ok (h_mem h) (heap_tiles h ns)" using ok by (simp add: heap_ok_def Let_def)
  moreover have "(of_nat ?c :: u64) = g_heap_current h" by simp
  ultimately have hd: "headers_ok m' (heap_tiles h (ns @ [n]))"
    unfolding tl using m(2) n by (fastforce simp: headers_ok_def simp del: of_nat_unat)
  have fb: "u + 16 \<le> ?c" "16 \<le> u" "unat (of_nat u :: u64) = u" if u: "u \<in> free_set fl" for u
  proof -
    obtain i where "i \<le> 64" "u \<in> set (fl i)" using u by (auto simp: free_set_def)
    then obtain k where k: "(u - 16, k) \<in> set (heap_tiles h ns)" "16 \<le> u" by (rule free_tile [OF ok])
    show "u + 16 \<le> ?c" "16 \<le> u" "unat (of_nat u :: u64) = u"
      using tile_bounds(1,5,6) [OF ok k(1)] k(2) by auto
  qed
  then show "?c + 16 \<notin> free_set fl" by force
  have nx: "nxt m' u = nxt (h_mem h) u" if "u \<in> free_set fl" for u
    unfolding nxt_def using fb [OF that] unat_u64_lt [of "g_heap_current h"]
    by (subst read_agree(2) [OF m(1)]) auto
  have "lists_ok (h_mem h) (heads h) (heap_tiles h ns) fl" using ok by (simp add: heap_ok_def Let_def)
  then have "lists_ok m' (heads h) (heap_tiles h ns) fl" by (rule lists_ok_cong) (rule nx)
  then have "lists_ok m' (heads h) (heap_tiles h (ns @ [n])) fl" by (fastforce simp: lists_ok_def tl)
  with hd ok show "heap_ok h' (ns @ [n]) fl" by (simp add: heap_ok_def Let_def h' c)
qed

text \<open>Winding the bump pointer back over the last block, which is not free.\<close>

lemma heap_ok_rewind:
  assumes ok: "heap_ok h (ns @ [n]) fl" and u: "unat (g_heap_alloc_start h) + span ns + 16 \<notin> free_set fl"
    and h': "g_heap_alloc_start h' = g_heap_alloc_start h" "unat (g_heap_current h') = unat (g_heap_alloc_start h) + span ns"
      "g_heap_end h' = g_heap_end h" "h_mem h' = h_mem h" "heads h' = heads h"
  shows "heap_ok h' ns fl"
proof -
  let ?a = "unat (g_heap_alloc_start h) + span ns"
  have tl: "heap_tiles h (ns @ [n]) = heap_tiles h ns @ [(?a, n)]" by (simp add: tiles_append)
  have "u' - 16 \<noteq> ?a" if i: "i \<le> 64" "u' \<in> set (fl i)" for i u'
  proof -
    obtain k where "16 \<le> u'" by (rule free_tile [OF ok i])
    then have "u' - 16 = ?a \<Longrightarrow> u' = ?a + 16" by simp
    moreover have "u' \<in> free_set fl" using i by (auto simp: free_set_def)
    ultimately show ?thesis using u by metis
  qed
  then have "lists_ok (h_mem h) (heads h) (heap_tiles h ns) fl"
    using ok by (fastforce simp: heap_ok_def Let_def lists_ok_def tl)
  moreover have "g_heap_current h' \<le> g_heap_current h"
    using ok h'(2) by (simp add: heap_ok_def Let_def word_le_nat_alt)
  ultimately show ?thesis
    using ok by (auto simp: heap_ok_def Let_def h' tl headers_ok_def)
qed

text \<open>Cutting a block that is in no list into two.\<close>

lemma heap_ok_split:
  assumes ok: "heap_ok h ns fl" and t: "(a, nb) \<in> set (heap_tiles h ns)" and u: "a + 16 \<notin> free_set fl"
    and n: "1 \<le> n" "nb = n + 1 + k" "1 \<le> k"
    and m: "agree a (a + 16 * (nb + 1)) (h_mem h) m'"
      "unat (read_u32 m' (of_nat a)) = 16 * (n + 1)" "unat (read_u32 m' (of_nat (a + 16 * (n + 1)))) = 16 * (k + 1)"
  obtains ns' where "heap_ok (h\<lparr>h_mem := m'\<rparr>) ns' fl"
    and "set (heap_tiles h ns') = set (heap_tiles h ns) - {(a, nb)} \<union> {(a, n), (a + 16 * (n + 1), k)}"
    and "a + 16 * (n + 1) + 16 \<notin> free_set fl"
proof -
  let ?S = "unat (g_heap_alloc_start h)"
  obtain xs ys where x: "ns = xs @ nb # ys" "a = ?S + span xs" using tiles_split [OF t] by blast
  define ns' where "ns' = xs @ n # k # ys"
  have sp: "span ns' = span ns" by (simp add: ns'_def x(1) n(2))
  have ap: "b + 16 * (j + 1) \<le> a \<or> a + 16 * (nb + 1) \<le> b" if "(b, j) \<in> set (heap_tiles h ns)" "b \<noteq> a" for b j
    using tiles_apart [OF ok t that(1)] that(2) by auto
  have ts: "set (heap_tiles h ns') = set (heap_tiles h ns) - {(a, nb)} \<union> {(a, n), (a + 16 * (n + 1), k)}"
  proof -
    have "heap_tiles h ns' = tiles ?S xs @ (a, n) # (a + 16 * (n + 1), k) # tiles (a + 16 * (nb + 1)) ys"
      by (simp add: ns'_def tiles_append x(2) n(2) add.assoc)
    moreover have "heap_tiles h ns = tiles ?S xs @ (a, nb) # tiles (a + 16 * (nb + 1)) ys"
      by (simp add: x tiles_append)
    moreover have "(a, nb) \<notin> set (tiles ?S xs)"
    proof
      assume "(a, nb) \<in> set (tiles ?S xs)"
      from tiles_range(2) [OF this] show False by (simp add: x(2))
    qed
    moreover have "(a, nb) \<notin> set (tiles (a + 16 * (nb + 1)) ys)"
    proof
      assume "(a, nb) \<in> set (tiles (a + 16 * (nb + 1)) ys)"
      from tiles_range(1) [OF this] show False by simp
    qed
    ultimately show ?thesis by (simp only: set_append list.set) blast
  qed
  have far: "b + 4 \<le> a \<or> a + 16 * (nb + 1) \<le> b" "unat (of_nat b :: u64) = b" "b + 4 \<le> 2 ^ 64"
    if "(b, j) \<in> set (heap_tiles h ns)" "b \<noteq> a" for b j
    using ap [OF that] tile_bounds(2,4) [OF ok that(1)] by auto
  have keep: "read_u32 m' (of_nat b) = read_u32 (h_mem h) (of_nat b)"
    if "(b, j) \<in> set (heap_tiles h ns)" "b \<noteq> a" for b j
    using far [OF that] by (intro read_agree(1) [OF m(1)]) simp_all
  have uniq: "b \<noteq> a" if "(b, j) \<in> set (heap_tiles h ns) - {(a, nb)}" for b j
    using that tiles_unique [OF t] by blast
  have "1 \<le> j \<and> unat (read_u32 m' (of_nat b)) = 16 * (j + 1)" if bj: "(b, j) \<in> set (heap_tiles h ns')" for b j
  proof -
    consider "b = a" "j = n" | "b = a + 16 * (n + 1)" "j = k" | "(b, j) \<in> set (heap_tiles h ns)" "b \<noteq> a"
      using bj uniq unfolding ts by blast
    then show ?thesis
    proof cases
      case 3
      then show ?thesis using keep tile_read [OF ok] tile_bounds(6) [OF ok] by metis
    qed (use m(2,3) n(1,3) in simp_all)
  qed
  then have hd: "headers_ok m' (heap_tiles h ns')" by (auto simp: headers_ok_def)
  have fr: "u' \<noteq> a + 16 * (n + 1) + 16" "nxt m' u' = nxt (h_mem h) u'" "(u' - 16, j) \<noteq> (a, nb)"
    if u': "u' \<in> free_set fl" for u' j
  proof -
    obtain i where i: "i \<le> 64" "u' \<in> set (fl i)" using u' by (auto simp: free_set_def)
    then obtain j' where j: "(u' - 16, j') \<in> set (heap_tiles h ns)" "16 \<le> u'" by (rule free_tile [OF ok])
    have ne: "u' - 16 \<noteq> a" using u' u j(2) by auto
    then show "(u' - 16, j) \<noteq> (a, nb)" by simp
    note b = ap [OF j(1) ne] tile_bounds(2,5,6) [OF ok j(1)]
    show "u' \<noteq> a + 16 * (n + 1) + 16" using b j(2) n by auto
    show "nxt m' u' = nxt (h_mem h) u'"
      unfolding nxt_def using b j(2) by (subst read_agree(2) [OF m(1)]) auto
  qed
  have "lists_ok (h_mem h) (heads h) (heap_tiles h ns) fl" using ok by (simp add: heap_ok_def Let_def)
  then have lk: "lists_ok m' (heads h) (heap_tiles h ns) fl" by (rule lists_ok_cong) (rule fr(2))
  have "lists_ok m' (heads h) (heap_tiles h ns') fl"
    unfolding lists_ok_def
  proof (intro allI impI conjI ballI)
    fix i u'
    assume i: "i \<le> 64" and u': "u' \<in> set (fl i)"
    then have "u' \<in> free_set fl" by (auto simp: free_set_def)
    note fr(3) [OF this]
    moreover obtain j where "(u' - 16, j) \<in> set (heap_tiles h ns)" "16 \<le> u'" "list_of_size j = i"
      using lk i u' by (auto simp: lists_ok_def)
    ultimately show "16 \<le> u'" "\<exists>j. (u' - 16, j) \<in> set (heap_tiles h ns') \<and> list_of_size j = i"
      unfolding ts by blast+
  qed (use lk in \<open>auto simp: lists_ok_def\<close>)
  with hd ok sp have "heap_ok (h\<lparr>h_mem := m'\<rparr>) ns' fl"
    by (auto simp: heap_ok_def Let_def ns'_def x(1))
  from that [OF this ts] fr(1) show thesis by blast
qed

end
