(* ===== verification/Kheap_Safety.thy ===== *)
theory Kheap_Safety
  imports Kheap
begin

text \<open>
  What the users of the kernel heap rely on. The operations of \<^verbatim>\<open>heap.c\<close> are shown to keep
  the invariant of the heap theory, to keep the blocks that are in use and their contents, and
  to return; from that, a run of allocations, releases and writes by the users never has two
  blocks that overlap.
\<close>

subsection \<open>Blocks in use\<close>

definition inuse :: "kheap \<Rightarrow> nat list \<Rightarrow> (nat \<Rightarrow> nat list) \<Rightarrow> (nat \<times> nat) set" where
  "inuse h ns fl = {(a, n). (a, n) \<in> set (heap_tiles h ns) \<and> a + 16 \<notin> free_set fl}"

definition same_user :: "nat \<Rightarrow> nat \<Rightarrow> mem \<Rightarrow> mem \<Rightarrow> bool" where
  "same_user a n m m' \<longleftrightarrow> (\<forall>x. a + 16 \<le> unat x \<and> unat x < a + 16 + 16 * n \<longrightarrow> m' x = m x)"

text \<open>Every block in use, those at the addresses \<open>X\<close> apart, stays in use with its bytes.\<close>

definition kept :: "nat set \<Rightarrow> kheap \<Rightarrow> nat list \<Rightarrow> (nat \<Rightarrow> nat list) \<Rightarrow> kheap \<Rightarrow> nat list \<Rightarrow> (nat \<Rightarrow> nat list) \<Rightarrow> bool" where
  "kept X h ns fl h' ns' fl' \<longleftrightarrow>
     (\<forall>a n. (a, n) \<in> inuse h ns fl \<longrightarrow> a \<notin> X \<longrightarrow> (a, n) \<in> inuse h' ns' fl' \<and> same_user a n (h_mem h) (h_mem h'))"

lemma kept_refl [simp]: "kept X h ns fl h ns fl"
  by (simp add: kept_def same_user_def)

lemma kept_trans:
  "kept X h ns fl h1 ns1 fl1 \<Longrightarrow> kept X h1 ns1 fl1 h2 ns2 fl2 \<Longrightarrow> kept X h ns fl h2 ns2 fl2"
  unfolding kept_def same_user_def by metis

lemma kept_mono: "kept X h ns fl h' ns' fl' \<Longrightarrow> X \<subseteq> Y \<Longrightarrow> kept Y h ns fl h' ns' fl'"
  unfolding kept_def by blast

text \<open>A block that was free before is not among those a step has to keep.\<close>

lemma kept_drop:
  assumes "kept (insert b X) h ns fl h' ns' fl'" and "b + 16 \<in> free_set fl"
  shows "kept X h ns fl h' ns' fl'"
  using assms unfolding kept_def inuse_def by blast

lemma keptI:
  assumes ok: "heap_ok h ns fl" and b: "(b, k) \<in> set (heap_tiles h ns)" "b \<in> X \<or> b + 16 \<in> free_set fl"
    and m: "agree b (b + 16 * (k + 1)) (h_mem h) (h_mem h')"
    and sub: "\<And>a n. (a, n) \<in> inuse h ns fl \<Longrightarrow> a \<notin> X \<Longrightarrow> (a, n) \<in> inuse h' ns' fl'"
  shows "kept X h ns fl h' ns' fl'"
  unfolding kept_def
proof (intro allI impI conjI)
  fix a n
  assume a: "(a, n) \<in> inuse h ns fl" "a \<notin> X"
  then show "(a, n) \<in> inuse h' ns' fl'" by (rule sub)
  have "a \<noteq> b" using a b(2) by (auto simp: inuse_def)
  with a(1) have "b + 16 * (k + 1) \<le> a \<or> a + 16 * (n + 1) \<le> b"
    using tiles_apart [OF ok b(1)] by (auto simp: inuse_def)
  with m show "same_user a n (h_mem h) (h_mem h')" by (auto simp: same_user_def agree_def)
qed

lemma free_set_take:
  assumes "i \<le> 64" and "fl i = xs @ u # us"
  shows "free_set fl = insert u (free_set (fl(i := xs @ us)))"
proof -
  have "free_set g = set (g i) \<union> (\<Union>j \<in> {..64} - {i}. set (g j))" for g
    using assms(1) by (auto simp: free_set_def)
  from this [of fl] this [of "fl(i := xs @ us)"] assms(2) show ?thesis by auto
qed

lemma free_set_put: "i \<le> 64 \<Longrightarrow> free_set (fl(i := u # fl i)) = insert u (free_set fl)"
  using free_set_take [of i "fl(i := u # fl i)" "[]" u "fl i"] by simp

subsection \<open>Releasing to a list and taking from it\<close>

lemma ptr_opt_eq: "ptr_opt p = Some u \<longleftrightarrow> p \<noteq> 0 \<and> u = unat p"
  by (auto simp: ptr_opt_def)

lemma bucket_push_ok:
  assumes ok: "heap_ok h ns fl" and a: "(a, n) \<in> inuse h ns fl" and p: "unat p = a + 16" and nb: "unat nb = n"
  obtains fl' where "heap_ok (bucket_push p nb h) ns fl'" and "kept {a} h ns fl (bucket_push p nb h) ns fl'"
proof -
  let ?h = "bucket_push p nb h" and ?i = "list_of_size n"
  have t: "(a, n) \<in> set (heap_tiles h ns)" and u: "a + 16 \<notin> free_set fl" using a by (auto simp: inuse_def)
  have n1: "1 \<le> n" using tile_bounds(6) [OF ok t] .
  have p0: "p \<noteq> 0" using p by auto
  have nb0: "nb > 0" using n1 nb by (simp add: word_less_nat_alt)
  then have idx: "unat (nb - 1) = n - 1" using nb by (simp add: unat_minus_one)
  have le: "nb \<le> 64 \<longleftrightarrow> n \<le> 64" using nb by (simp add: word_le_nat_alt)
  define v where "v = (if n \<le> 64 then g_free_buckets h (n - 1) else g_overflow_list h)"
  have st: "g_heap_alloc_start ?h = g_heap_alloc_start h" "g_heap_current ?h = g_heap_current h" "g_heap_end ?h = g_heap_end h"
    by (simp_all add: bucket_push_def Let_def set_next_ptr_def)
  have mem: "h_mem ?h = write_u64 p v (h_mem h)"
    using nb0 le idx by (simp add: bucket_push_def Let_def set_next_ptr_def v_def)
  have v: "ptr_opt v = heads h ?i" using n1 by (auto simp: v_def heads_def list_of_size_def)
  have hd: "heads ?h = (heads h)(?i := Some (a + 16))"
    using nb0 le idx n1 p p0
    by (auto simp: fun_eq_iff heads_def bucket_push_def Let_def set_next_ptr_def list_of_size_def ptr_opt_def)
  have ok': "heap_ok ?h ns (fl(?i := (a + 16) # fl ?i))"
    by (rule heap_ok_push [OF ok t u p refl st mem v hd])
  have "agree (a + 16) (a + 16 + 8) (h_mem h) (h_mem ?h)"
    using agree_write(2) [of p "h_mem h" v] p tile_bounds(2) [OF ok t] n1 by (simp add: mem)
  then have m: "agree a (a + 16 * (n + 1)) (h_mem h) (h_mem ?h)" by (rule agree_mono) (use n1 in simp_all)
  have "kept {a} h ns fl ?h ns (fl(?i := (a + 16) # fl ?i))"
    by (rule keptI [OF ok t _ m]) (auto simp: inuse_def st free_set_put [OF list_of_size_le])
  with ok' show thesis by (rule that)
qed

lemma bucket_pop_fast_ok:
  assumes ok: "heap_ok h ns fl" and pop: "bucket_pop_fast nb h = (p, h')"
  shows "p = 0 \<and> h' = h \<or>
    (\<exists>fl'. p \<noteq> 0 \<and> heap_ok h' ns fl' \<and> kept {} h ns fl h' ns fl' \<and> 16 \<le> unat p
       \<and> unat p \<in> free_set fl \<and> (unat p - 16, unat nb) \<in> inuse h' ns fl')"
proof (cases "p = 0")
  case True
  then show ?thesis using pop by (auto simp: bucket_pop_fast_def Let_def split: if_splits)
next
  case False
  let ?i = "unat (nb - 1)"
  have nb: "nb \<noteq> 0" "nb \<le> 64" and p: "p = g_free_buckets h ?i"
    and h': "h' = h\<lparr>g_free_buckets := (g_free_buckets h)(?i := free_next_ptr h p), g_free_bytes := g_free_bytes h - ucast (nb * 16)\<rparr>"
    using pop False by (auto simp: bucket_pop_fast_def Let_def split: if_splits)
  have i: "?i = unat nb - 1" "?i < 64" "unat nb \<le> 64" "1 \<le> unat nb"
    using nb by (auto simp: unat_minus_one word_le_nat_alt unat_gt_0 Suc_le_eq)
  have "lchain (nxt (h_mem h)) (heads h ?i) (fl ?i)"
    using ok i(2) by (auto simp: heap_ok_def Let_def lists_ok_def)
  moreover have "heads h ?i = Some (unat p)" using i(2) False p by (simp add: heads_def ptr_opt_def)
  ultimately obtain us where f: "fl ?i = unat p # us" by (auto simp: lchain_Some)
  have hd: "heads h' = (heads h)(?i := nxt (h_mem h) (unat p))"
    using i(2) by (auto simp: fun_eq_iff heads_def h' nxt_def free_next_ptr_def)
  have st: "g_heap_alloc_start h' = g_heap_alloc_start h" "g_heap_current h' = g_heap_current h"
    "g_heap_end h' = g_heap_end h" "h_mem h' = h_mem h" by (simp_all add: h')
  have i64: "?i \<le> 64" using i(2) by simp
  note pp = heap_ok_pop [OF ok i64 f st hd]
  have up: "unat p \<in> set (fl ?i)" using f by simp
  obtain n where n: "(unat p - 16, n) \<in> set (heap_tiles h ns)" "16 \<le> unat p" "list_of_size n = ?i"
    by (rule free_tile [OF ok i64 up])
  have "n = unat nb" using n(3) i(1,2,4) tile_bounds(6) [OF ok n(1)] by (auto simp: list_of_size_def split: if_splits)
  moreover have fs: "free_set fl = insert (unat p) (free_set (fl(?i := us)))"
    using free_set_take [OF i64, of fl "[]"] f by simp
  moreover have "kept {} h ns fl h' ns (fl(?i := us))"
    by (auto simp: kept_def inuse_def st fs same_user_def)
  ultimately show ?thesis using pp n(1,2) False by (auto simp: inuse_def st)
qed

subsection \<open>The overflow list\<close>

definition prev_of :: "nat list \<Rightarrow> u64 option" where
  "prev_of xs = (if xs = [] then None else Some (of_nat (last xs)))"

text \<open>What the search returns: a block of the list that is large enough, and the pointer to it.\<close>

definition found_ok :: "kheap \<Rightarrow> nat list \<Rightarrow> (nat \<Rightarrow> nat list) \<Rightarrow> u32 \<Rightarrow> candidate \<Rightarrow> bool" where
  "found_ok h ns fl nb r \<longleftrightarrow>
     (case r of None \<Rightarrow> True
      | Some (b, bp, bb) \<Rightarrow> nb \<le> bb \<and> 16 \<le> unat b \<and> (unat b - 16, unat bb) \<in> set (heap_tiles h ns)
          \<and> (\<exists>xs us. fl 64 = xs @ unat b # us \<and> bp = prev_of xs))"

lemma block_units:
  assumes "heap_ok h ns fl" and "(a, n) \<in> set (heap_tiles h ns)" and "unat p = a + 16"
  shows "unat (block_size h (p - 16)) = 16 * (n + 1)" and "unat ((block_size h (p - 16) - 16) div 16) = n"
    and "p - 16 = of_nat a"
proof -
  have "p = of_nat (a + 16)" by (simp add: assms(3) [symmetric])
  then show p: "p - 16 = of_nat a" by simp
  show r: "unat (block_size h (p - 16)) = 16 * (n + 1)"
    using tile_read [OF assms(1,2)] by (simp add: block_size_def p)
  then have "(16 :: u32) \<le> block_size h (p - 16)" by (simp add: word_le_nat_alt)
  then show "unat ((block_size h (p - 16) - 16) div 16) = n" by (simp add: unat_div unat_sub r)
qed

lemma overflow_search_returns:
  assumes ok: "heap_ok h ns fl" and "fl 64 = xs @ us" and "lchain (nxt (h_mem h)) (ptr_opt cur) us"
    and "found_ok h ns fl nb best"
  shows "\<exists>r. overflow_search h nb (prev_of xs) cur best = Some r \<and> found_ok h ns fl nb r"
  using assms(2-)
proof (induction us arbitrary: xs cur best)
  case Nil
  then have "cur = 0" by (auto simp: ptr_opt_def split: if_splits)
  then show ?case using Nil.prems by (subst overflow_search.simps) simp
next
  case (Cons u us)
  have cur: "cur \<noteq> 0" "unat cur = u" and ch: "lchain (nxt (h_mem h)) (nxt (h_mem h) u) us"
    using Cons.prems(2) by (auto simp: ptr_opt_eq)
  have up: "u \<in> set (fl 64)" using Cons.prems(1) by simp
  obtain k where k: "(u - 16, k) \<in> set (heap_tiles h ns)" "16 \<le> u" by (rule free_tile [OF ok order_refl up])
  let ?cb = "(block_size h (cur - 16) - 16) div 16"
  have cb: "unat ?cb = k" by (rule block_units(2) [OF ok k(1)]) (use cur k in simp)
  have this_ok: "found_ok h ns fl nb (Some (cur, prev_of xs, ?cb))" if "nb \<le> ?cb"
    using that k cur(2) cb Cons.prems(1) by (auto simp: found_ok_def)
  show ?case
  proof (cases "?cb = nb")
    case True
    then show ?thesis using this_ok cur(1) by (subst overflow_search.simps) (simp add: Let_def)
  next
    case False
    let ?best = "if better_fit nb ?cb best then Some (cur, prev_of xs, ?cb) else best"
    have "found_ok h ns fl nb ?best"
      using this_ok Cons.prems(3) by (auto simp: better_fit_def)
    moreover have "prev_of (xs @ [u]) = Some cur" by (simp add: prev_of_def cur(2) [symmetric])
    moreover have "ptr_opt (free_next_ptr h cur) = nxt (h_mem h) u"
      by (simp add: free_next_ptr_def nxt_def cur(2) [symmetric])
    ultimately have "\<exists>r. overflow_search h nb (Some cur) (free_next_ptr h cur) ?best = Some r \<and> found_ok h ns fl nb r"
      using Cons.IH [of "xs @ [u]" "free_next_ptr h cur" ?best] Cons.prems(1) ch by simp
    then show ?thesis using cur(1) False by (subst overflow_search.simps) (simp add: Let_def)
  qed
qed

lemma overflow_unlink_ok:
  assumes ok: "heap_ok h ns fl" and f: "fl 64 = xs @ unat b # us"
  shows "heap_ok (overflow_unlink b (prev_of xs) h) ns (fl(64 := xs @ us))"
    and "unat b \<notin> free_set (fl(64 := xs @ us))"
    and "kept {} h ns fl (overflow_unlink b (prev_of xs) h) ns (fl(64 := xs @ us))"
proof -
  let ?h = "overflow_unlink b (prev_of xs) h" and ?fl = "fl(64 := xs @ us)"
  have fs: "free_set ?fl \<subseteq> free_set fl" using free_set_take [OF order_refl, of fl, OF f] by blast
  have st: "g_heap_alloc_start ?h = g_heap_alloc_start h" "g_heap_current ?h = g_heap_current h" "g_heap_end ?h = g_heap_end h"
    by (simp_all add: overflow_unlink_def set_next_ptr_def split: option.splits)
  have v: "ptr_opt (free_next_ptr h b) = nxt (h_mem h) (unat b)" by (simp add: free_next_ptr_def nxt_def)
  have "heap_ok ?h ns ?fl \<and> unat b \<notin> free_set ?fl \<and> kept {} h ns fl ?h ns ?fl"
  proof (cases "xs = []")
    case True
    have m: "h_mem ?h = h_mem h" by (simp add: overflow_unlink_def prev_of_def True)
    have "heads ?h = (heads h)(64 := nxt (h_mem h) (unat b))"
      by (auto simp: fun_eq_iff heads_def overflow_unlink_def prev_of_def True v [symmetric])
    moreover have "fl 64 = unat b # us" using f True by simp
    ultimately have "heap_ok ?h ns ?fl" "unat b \<notin> free_set ?fl"
      using heap_ok_pop [OF ok order_refl _ st m] True by simp_all
    moreover have "kept {} h ns fl ?h ns ?fl" using fs by (auto simp: kept_def inuse_def st m same_user_def)
    ultimately show ?thesis by simp
  next
    case False
    let ?l = "last xs"
    have "?l \<in> set (fl 64)" using f False by simp
    then obtain n where n: "(?l - 16, n) \<in> set (heap_tiles h ns)" "16 \<le> ?l" by (rule free_tile [OF ok order_refl])
    note tb = tile_bounds(2,5,6) [OF ok n(1)]
    have lu: "unat (of_nat ?l :: u64) = ?l" using tb(2) n(2) by simp
    have m: "h_mem ?h = write_u64 (of_nat ?l) (free_next_ptr h b) (h_mem h)"
      by (simp add: overflow_unlink_def prev_of_def False set_next_ptr_def)
    have hd: "heads ?h = heads h" by (simp add: overflow_unlink_def prev_of_def False set_next_ptr_def)
    note un = heap_ok_unlink [OF ok order_refl f False lu v st m hd]
    have "agree ?l (?l + 8) (h_mem h) (h_mem ?h)"
      using agree_write(2) [of "of_nat ?l" "h_mem h"] tb n(2) lu by (simp add: m)
    then have "agree (?l - 16) (?l - 16 + 16 * (n + 1)) (h_mem h) (h_mem ?h)"
      by (rule agree_mono) (use tb n(2) in simp_all)
    moreover have "?l \<in> free_set fl" using \<open>?l \<in> set (fl 64)\<close> by (auto simp: free_set_def)
    ultimately have "kept {} h ns fl ?h ns ?fl"
      by (intro keptI [OF ok n(1)]) (use n(2) fs in \<open>auto simp: inuse_def st\<close>)
    with un show ?thesis by simp
  qed
  then show "heap_ok ?h ns ?fl" "unat b \<notin> free_set ?fl" "kept {} h ns fl ?h ns ?fl" by simp_all
qed

lemma init_header_ok:
  assumes "unat a + 16 \<le> 2 ^ 64"
  shows "agree (unat a) (unat a + 16) (h_mem h) (h_mem (init_header a sz h))"
    and "read_u32 (h_mem (init_header a sz h)) a = sz"
    and "init_header a sz h = h\<lparr>h_mem := h_mem (init_header a sz h)\<rparr>"
proof -
  let ?m1 = "write_u32 a sz (h_mem h)" and ?m = "h_mem (init_header a sz h)"
  have u: "unat (a + 4) = unat a + 4" "unat (a + 8) = unat a + 8" "unat (a + 12) = unat a + 12"
    using assms unat_add_u64 [of a 4] unat_add_u64 [of a 8] unat_add_u64 [of a 12] by simp_all
  have w: "agree lo (unat a + 16) m (write_u32 b v m)"
    if "lo \<le> unat b" "unat b + 4 \<le> unat a + 16" for lo m b v
    by (rule agree_mono [OF agree_write(1)]) (use that assms in simp_all)
  have mm: "?m = write_u32 (a + 12) 0 (write_u32 (a + 8) 0 (write_u32 (a + 4) 0 ?m1))" by (simp add: init_header_def)
  have rest: "agree (unat a + 4) (unat a + 16) ?m1 ?m" unfolding mm
    by (rule agree_trans [OF agree_trans [OF w w] w]) (simp_all add: u)
  have "read_u32 ?m a = read_u32 ?m1 a" by (rule read_agree(1) [OF rest]) (use assms in simp_all)
  then show "read_u32 ?m a = sz" by simp
  have "agree (unat a) (unat a + 16) (h_mem h) ?m1" by (rule w) simp_all
  then show "agree (unat a) (unat a + 16) (h_mem h) ?m" by (rule agree_trans) (rule agree_mono [OF rest], simp_all)
qed (simp add: init_header_def)

lemma unat_times_16: "16 * (unat (x :: u32) + 1) < 2 ^ 32 \<Longrightarrow> unat (16 + x * 16) = 16 * (unat x + 1)"
  by (simp add: unat_word_ariths)

lemma split_block_ok:
  assumes ok: "heap_ok h ns fl" and a: "(a, nb) \<in> inuse h ns fl" and p: "unat best = a + 16"
    and nb: "unat bb = nb" "unat n_blocks = n" "1 \<le> n" "n + 2 \<le> nb"
  obtains ns' fl' where "heap_ok (split_block best bb n_blocks h) ns' fl'"
    and "kept {a} h ns fl (split_block best bb n_blocks h) ns' fl'"
    and "(a, n) \<in> inuse (split_block best bb n_blocks h) ns' fl'"
proof -
  define k where "k = nb - n - 1"
  have t: "(a, nb) \<in> set (heap_tiles h ns)" and u: "a + 16 \<notin> free_set fl" using a by (auto simp: inuse_def)
  note tb = tile_bounds(2,4,8) [OF ok t]
  have k: "nb = n + 1 + k" "1 \<le> k" using nb(4) by (auto simp: k_def)
  define tb' where "tb' = bb - n_blocks - 1"
  have "n_blocks \<le> bb" "1 \<le> bb - n_blocks" using nb by (auto simp: word_le_nat_alt unat_sub)
  then have tb'u: "unat tb' = k" using nb by (simp add: tb'_def unat_sub k_def)
  define hdr where "hdr = best + ucast n_blocks * 16"
  have "hdr = best + of_nat (16 * n)" using nb(2) by (simp add: hdr_def mult.commute flip: nb(2))
  then have hu: "unat hdr = a + 16 * (n + 1)" using unat_add_u64 [of best "16 * n"] p tb(1) k by simp
  have tu: "unat (hdr + 16) = a + 16 * (n + 1) + 16" using unat_add_u64 [of hdr 16] hu tb(1) k by simp
  have sz: "unat (16 + tb' * 16) = 16 * (k + 1)" "unat (16 + n_blocks * 16) = 16 * (n + 1)"
    using unat_times_16 [of tb'] unat_times_16 [of n_blocks] tb'u nb(2) tb(3) k by simp_all
  define h1 where "h1 = init_header hdr (16 + tb' * 16) h"
  define m' where "m' = write_u32 (best - 16) (16 + n_blocks * 16) (h_mem h1)"
  have h16: "unat hdr + 16 \<le> 2 ^ 64" using hu tb(1) k by simp
  note ih = init_header_ok [OF h16, where h = h and sz = "16 + tb' * 16", folded h1_def]
  have ba: "best - 16 = of_nat a" using block_units(3) [OF ok t p] .
  have w: "agree a (a + 4) (h_mem h1) m'" using agree_write(1) [of "best - 16"] tb by (simp add: m'_def ba)
  have "agree a (a + 16 * (nb + 1)) (h_mem h) (h_mem h1)" by (rule agree_mono [OF ih(1)]) (use hu k in simp_all)
  moreover have "agree a (a + 16 * (nb + 1)) (h_mem h1) m'" by (rule agree_mono [OF w]) simp_all
  ultimately have m: "agree a (a + 16 * (nb + 1)) (h_mem h) m'" by (rule agree_trans)
  have r1: "unat (read_u32 m' (of_nat a)) = 16 * (n + 1)" by (simp add: m'_def ba sz)
  have hn: "(of_nat (a + 16 * (n + 1)) :: u64) = hdr" by (simp only: hu [symmetric] of_nat_unat) simp
  have "read_u32 m' hdr = read_u32 (h_mem h1) hdr" using hu h16 by (intro read_agree(1) [OF w]) auto
  then have r2: "unat (read_u32 m' (of_nat (a + 16 * (n + 1)))) = 16 * (k + 1)"
    unfolding hn using ih(2) sz(1) by simp
  let ?h2 = "h\<lparr>h_mem := m'\<rparr>"
  obtain ns' where ns': "heap_ok ?h2 ns' fl"
      "set (heap_tiles h ns') = set (heap_tiles h ns) - {(a, nb)} \<union> {(a, n), (a + 16 * (n + 1), k)}"
      "a + 16 * (n + 1) + 16 \<notin> free_set fl"
    by (rule heap_ok_split [OF ok t u nb(3) k m r1 r2])
  have "h1\<lparr>h_mem := m'\<rparr> = ?h2" by (subst ih(3)) simp
  then have sp: "split_block best bb n_blocks h = bucket_push (hdr + 16) tb' ?h2"
    by (simp add: split_block_def Let_def hdr_def [symmetric] tb'_def [symmetric] h1_def [symmetric] m'_def [symmetric])
  have "(a + 16 * (n + 1), k) \<in> inuse ?h2 ns' fl" using ns'(2,3) by (simp add: inuse_def)
  then obtain fl' where fl': "heap_ok (split_block best bb n_blocks h) ns' fl'"
      "kept {a + 16 * (n + 1)} ?h2 ns' fl (split_block best bb n_blocks h) ns' fl'"
    unfolding sp by (rule bucket_push_ok [OF ns'(1) _ tu tb'u])
  have "kept {a} h ns fl ?h2 ns' fl" by (rule keptI [OF ok t]) (use m ns'(2) in \<open>auto simp: inuse_def\<close>)
  moreover have "(a, n) \<in> inuse ?h2 ns' fl" using ns'(2) u by (simp add: inuse_def)
  moreover have "(c, j) \<in> inuse h ns fl \<Longrightarrow> c \<noteq> a + 16 * (n + 1)" for c j
    using tiles_apart [OF ok t, of c j] k by (auto simp: inuse_def)
  ultimately have "kept {a} h ns fl (split_block best bb n_blocks h) ns' fl'"
    "(a, n) \<in> inuse (split_block best bb n_blocks h) ns' fl'"
    using fl'(2) unfolding kept_def same_user_def by (metis singletonD, auto)
  with fl'(1) show thesis by (rule that)
qed

lemma heap_ok_free_bytes [simp]: "heap_ok (h\<lparr>g_free_bytes := x\<rparr>) ns fl = heap_ok h ns fl"
  and inuse_free_bytes [simp]: "inuse (h\<lparr>g_free_bytes := x\<rparr>) ns fl = inuse h ns fl"
  and kept_free_bytes [simp]: "kept X h0 ns0 fl0 (h\<lparr>g_free_bytes := x\<rparr>) ns fl = kept X h0 ns0 fl0 h ns fl"
proof -
  have "heads (h\<lparr>g_free_bytes := x\<rparr>) = heads h" by (simp add: heads_def fun_eq_iff)
  then show "heap_ok (h\<lparr>g_free_bytes := x\<rparr>) ns fl = heap_ok h ns fl" by (simp add: heap_ok_def)
qed (simp_all add: inuse_def kept_def)

text \<open>
  An allocation that succeeds: the block is in use now, it was not before, and all others are
  kept.
\<close>

definition gives :: "nat \<Rightarrow> u64 \<Rightarrow> kheap \<Rightarrow> nat list \<Rightarrow> (nat \<Rightarrow> nat list) \<Rightarrow> kheap \<Rightarrow> bool" where
  "gives n p h ns fl h' \<longleftrightarrow>
     (\<exists>ns' fl' k. p \<noteq> 0 \<and> heap_ok h' ns' fl' \<and> kept {} h ns fl h' ns' fl' \<and> 16 \<le> unat p \<and> n \<le> k
        \<and> (unat p - 16, k) \<in> inuse h' ns' fl' \<and> (\<forall>j. (unat p - 16, j) \<notin> inuse h ns fl))"

lemma givesI:
  "heap_ok h' ns' fl' \<Longrightarrow> kept {} h ns fl h' ns' fl' \<Longrightarrow> 16 \<le> unat p \<Longrightarrow> n \<le> k
     \<Longrightarrow> (unat p - 16, k) \<in> inuse h' ns' fl' \<Longrightarrow> (\<And>j. (unat p - 16, j) \<notin> inuse h ns fl) \<Longrightarrow> gives n p h ns fl h'"
  unfolding gives_def by (intro exI conjI) auto

lemma not_inuse_free: "u \<in> free_set fl \<Longrightarrow> 16 \<le> u \<Longrightarrow> (u - 16, j) \<notin> inuse h ns fl"
  by (simp add: inuse_def)

lemma bucket_pop_overflow_ok:
  assumes ok: "heap_ok h ns fl" and nb: "1 \<le> unat nb"
  shows "\<exists>p h'. bucket_pop_overflow nb h = Some (p, h') \<and> (p = 0 \<and> h' = h \<or> gives (unat nb) p h ns fl h')"
proof -
  have "lchain (nxt (h_mem h)) (heads h 64) (fl 64)" using ok by (simp add: heap_ok_def Let_def lists_ok_def)
  then have "lchain (nxt (h_mem h)) (ptr_opt (g_overflow_list h)) (fl 64)" by (simp add: heads_def)
  then obtain r where r: "overflow_search h nb None (g_overflow_list h) None = Some r" "found_ok h ns fl nb r"
    using overflow_search_returns [OF ok, of "[]" "fl 64" "g_overflow_list h" nb None]
    by (auto simp: prev_of_def found_ok_def)
  show ?thesis
  proof (cases r)
    case None
    then show ?thesis using r(1) by (simp add: bucket_pop_overflow_def)
  next
    case (Some c)
    obtain b bp bb where c: "c = (b, bp, bb)" by (cases c)
    with r(2) Some obtain xs us where f: "fl 64 = xs @ unat b # us" "bp = prev_of xs" and le: "nb \<le> bb"
      and t: "16 \<le> unat b" "(unat b - 16, unat bb) \<in> set (heap_tiles h ns)" by (auto simp: found_ok_def)
    let ?a = "unat b - 16" and ?h1 = "overflow_unlink b bp h" and ?fl = "fl(64 := xs @ us)"
    let ?h2 = "?h1\<lparr>g_free_bytes := g_free_bytes ?h1 - ucast (bb * 16)\<rparr>"
    note un = overflow_unlink_ok [OF ok f(1), folded f(2)]
    have "g_heap_alloc_start ?h1 = g_heap_alloc_start h"
      by (simp add: overflow_unlink_def set_next_ptr_def split: option.splits)
    with un(2) t have use: "(?a, unat bb) \<in> inuse ?h2 ns ?fl" by (simp add: inuse_def)
    have ok2: "heap_ok ?h2 ns ?fl" and k2: "kept {} h ns fl ?h2 ns ?fl" using un(1,3) by simp_all
    have free: "unat b \<in> free_set fl" using free_set_take [OF order_refl, of fl, OF f(1)] by blast
    note new = not_inuse_free [OF free t(1)]
    let ?h3 = "if bb \<ge> nb + 2 then split_block b bb nb ?h2 else ?h2"
    have run: "bucket_pop_overflow nb h = Some (b, ?h3)"
      using r(1) Some c by (simp add: bucket_pop_overflow_def Let_def)
    have "gives (unat nb) b h ns fl ?h3"
    proof (cases "bb \<ge> nb + 2")
      case True
      have "unat (nb + 2) = unat nb + 2"
        using le tile_bounds(8) [OF ok t(2)] by (simp add: unat_word_ariths word_le_nat_alt)
      with True have "unat nb + 2 \<le> unat bb" by (simp add: word_le_nat_alt)
      moreover have "unat b = ?a + 16" using t(1) by simp
      ultimately obtain ns' fl' where s: "heap_ok (split_block b bb nb ?h2) ns' fl'"
          "kept {?a} ?h2 ns ?fl (split_block b bb nb ?h2) ns' fl'" "(?a, unat nb) \<in> inuse (split_block b bb nb ?h2) ns' fl'"
        using split_block_ok [OF ok2 use _ refl refl nb] by metis
      have "kept {?a} h ns fl (split_block b bb nb ?h2) ns' fl'"
        by (rule kept_trans [OF kept_mono [OF k2] s(2)]) simp
      then have "kept {} h ns fl (split_block b bb nb ?h2) ns' fl'" by (rule kept_drop) (use free t(1) in simp)
      with True s(1,3) t(1) new show ?thesis by (auto intro!: givesI)
    next
      case False
      have "gives (unat nb) b h ns fl ?h2"
        by (rule givesI [OF ok2 k2 t(1) _ use new]) (use le in \<open>simp add: word_le_nat_alt\<close>)
      then show ?thesis using False by simp
    qed
    with run show ?thesis by blast
  qed
qed

subsection \<open>Clearing a block and carving a new one\<close>

lemma zero_fold_agree:
  "unat p + 8 * k \<le> 2 ^ 64
     \<Longrightarrow> agree (unat p) (unat p + 8 * k) m (fold (\<lambda>i m. write_u64 (p + of_nat i * 8) 0 m) [0..<k] m)"
proof (induction k)
  case (Suc k)
  let ?m = "fold (\<lambda>i m. write_u64 (p + of_nat i * 8) 0 m) [0..<k] m"
  have u: "unat (p + of_nat k * 8) = unat p + 8 * k"
    using unat_add_u64 [of p "8 * k"] Suc.prems by (simp add: mult.commute)
  have "agree (unat p) (unat p + 8 * Suc k) m ?m" by (rule agree_mono [OF Suc.IH]) (use Suc.prems in simp_all)
  moreover have "agree (unat p) (unat p + 8 * Suc k) ?m (write_u64 (p + of_nat k * 8) 0 ?m)"
    by (rule agree_mono [OF agree_write(2)]) (use u Suc.prems in simp_all)
  ultimately show ?case by (simp add: agree_def)
qed simp

lemma block_zero_user_ok:
  assumes "gives (unat nb) p h ns fl h1" and nb: "16 * unat nb < 2 ^ 32"
  shows "gives (unat nb) p h ns fl (block_zero_user p nb h1)"
proof -
  obtain ns' fl' k where g: "p \<noteq> 0" "heap_ok h1 ns' fl'" "kept {} h ns fl h1 ns' fl'" "16 \<le> unat p" "unat nb \<le> k"
      "(unat p - 16, k) \<in> inuse h1 ns' fl'" "\<And>j. (unat p - 16, j) \<notin> inuse h ns fl"
    using assms(1) by (auto simp: gives_def)
  let ?a = "unat p - 16"
  define m' where "m' = h_mem (block_zero_user p nb h1)"
  have t: "(?a, k) \<in> set (heap_tiles h1 ns')" "?a + 16 \<notin> free_set fl'" using g(6) by (auto simp: inuse_def)
  have z: "block_zero_user p nb h1 = h1\<lparr>h_mem := m'\<rparr>" by (simp add: m'_def block_zero_user_def Let_def)
  have "unat ((nb * 16) div 8) = 2 * unat nb" using nb by (simp add: unat_div unat_word_ariths)
  then have "agree (unat p) (unat p + 8 * (2 * unat nb)) (h_mem h1) m'"
    using zero_fold_agree [of p "2 * unat nb" "h_mem h1"] tile_bounds(2) [OF g(2) t(1)] g(4,5)
    by (simp add: m'_def block_zero_user_def Let_def)
  then have m: "agree (?a + 16) (?a + 16 + 16 * k) (h_mem h1) m'" by (rule agree_mono) (use g(4,5) in simp_all)
  have ok': "heap_ok (block_zero_user p nb h1) ns' fl'"
    unfolding z by (rule heap_ok_user_write [OF g(2) t m])
  have "kept {?a} h1 ns' fl' (block_zero_user p nb h1) ns' fl'"
    by (rule keptI [OF g(2) t(1)]) (use m in \<open>auto simp: inuse_def z intro: agree_mono\<close>)
  then have "kept {} h ns fl (block_zero_user p nb h1) ns' fl'"
    using g(3,7) unfolding kept_def same_user_def by (metis empty_iff singletonD)
  with ok' g show ?thesis by (intro givesI) (auto simp: inuse_def z)
qed

lemma unat_heap_align_up:
  "unat v + 15 < 2 ^ 64 \<Longrightarrow> unat (heap_align_up v 16) = (unat v + 15) div 16 * 16"
  using unat_align_up [of v 4 16] by (simp add: heap_align_up_def)

lemma dvd16_align: "16 dvd unat (c :: u64) \<Longrightarrow> heap_align_up c 16 = c"
proof -
  assume d: "16 dvd unat c"
  then obtain k where k: "unat c = 16 * k" ..
  then have "k < 2 ^ 60" using unat_u64_lt [of c] by simp
  then have "unat c + 15 < 2 ^ 64" by (simp add: k)
  from unat_heap_align_up [OF this] k have "unat (heap_align_up c 16) = unat c" by simp
  then show ?thesis using word_unat_eq_iff by blast
qed

lemma span_dvd: "16 dvd span ns"
  by (induction ns) (simp_all add: dvd_add)

lemma bump_alloc_ok:
  assumes ok: "heap_ok h ns fl" and n: "unat nb = n" "1 \<le> n" "16 * (n + 1) < 2 ^ 32"
    and b: "bump_alloc (16 + nb * 16) h = (p, h')"
  shows "p = 0 \<and> h' = h \<or> gives n p h ns fl h'"
proof -
  let ?c = "g_heap_current h"
  define t :: u32 where "t = 16 + nb * 16"
  have t: "unat t = 16 * (n + 1)" using unat_times_16 [of nb] n by (simp add: t_def)
  have cs: "unat ?c = unat (g_heap_alloc_start h) + span ns" "16 dvd unat ?c" "unat ?c \<noteq> 0"
    using ok span_dvd by (simp_all add: heap_ok_def Let_def dvd_add)
  have al: "heap_align_up ?c 16 = ?c" using dvd16_align [OF cs(2)] .
  show ?thesis
  proof (cases "?c + ucast t > g_heap_end h \<or> ?c + ucast t < ?c")
    case True
    then show ?thesis using b by (auto simp: bump_alloc_def Let_def t_def [symmetric] al)
  next
    case False
    then have p: "p = ?c + 16" and h': "h' = (init_header ?c t h)\<lparr>g_heap_current := ?c + ucast t\<rparr>"
      using b by (auto simp: bump_alloc_def Let_def t_def [symmetric] al)
    have nw: "unat ?c + 16 * (n + 1) < 2 ^ 64"
    proof (rule ccontr)
      assume nn: "\<not> ?thesis"
      then have "unat (?c + ucast t) = unat ?c + 16 * (n + 1) - 2 ^ 64"
        using unat_u64_lt [of ?c] t n(3) by (simp add: unat_word_ariths unat_ucast_u64 mod_if)
      then have "unat (?c + ucast t) < unat ?c" using n(3) unat_u64_lt [of ?c] nn by simp
      with False show False by (simp add: word_less_nat_alt)
    qed
    then have e: "unat (?c + ucast t) = unat ?c + 16 * (n + 1)"
      using t by (simp add: unat_word_ariths unat_ucast_u64)
    have pu: "unat p = unat ?c + 16" using unat_add_u64 [of ?c 16] nw by (simp add: p)
    have c16: "unat ?c + 16 \<le> 2 ^ 64" using nw by simp
    note ih = init_header_ok [OF c16, where h = h and sz = t]
    have hs: "g_heap_alloc_start h' = g_heap_alloc_start h" "unat (g_heap_current h') = unat ?c + 16 * (n + 1)"
      "g_heap_current h' \<le> g_heap_end h'" "h_mem h' = h_mem (init_header ?c t h)" "heads h' = heads h"
      using e False by (simp_all add: h' init_header_def heads_def fun_eq_iff not_less)
    have "unat (read_u32 (h_mem (init_header ?c t h)) ?c) = 16 * (n + 1)" using ih(2) t by simp
    note bo = heap_ok_bump [OF ok n(2) ih(1) this hs]
    have tb: "a + 16 * (k + 1) \<le> unat ?c" if "(a, k) \<in> inuse h ns fl" for a k
      using that tile_bounds(1) [OF ok] by (auto simp: inuse_def)
    have "kept {} h ns fl h' (ns @ [n]) fl"
      unfolding kept_def same_user_def
    proof (intro allI impI conjI)
      fix a k and x :: u64
      assume a: "(a, k) \<in> inuse h ns fl"
      then show "(a, k) \<in> inuse h' (ns @ [n]) fl" by (simp add: inuse_def hs(1) tiles_append)
      assume "a + 16 \<le> unat x \<and> unat x < a + 16 + 16 * k"
      then show "h_mem h' x = h_mem h x" using tb [OF a] ih(1) by (auto simp: agree_def hs(4))
    qed
    moreover have "(unat p - 16, j) \<notin> inuse h ns fl" for j
      using tb [of "unat p - 16" j] by (auto simp: pu)
    moreover have "(unat p - 16, n) \<in> inuse h' (ns @ [n]) fl" using bo by (simp add: inuse_def pu hs(1))
    ultimately have "gives n p h ns fl h'" using bo(1) pu by (intro givesI) auto
    then show ?thesis ..
  qed
qed

text \<open>The requests for which the 32-bit block size does not wrap.\<close>

abbreviation (input) fits :: "u64 \<Rightarrow> bool" where "fits sz \<equiv> unat sz \<le> 2 ^ 32 - 32"

lemma unat_blocks_for_size:
  assumes "sz \<noteq> 0" and "fits sz"
  shows "unat (blocks_for_size sz) = (unat sz + 15) div 16"
proof -
  have al: "unat (heap_align_up sz 16) = (unat sz + 15) div 16 * 16"
    using assms(2) by (intro unat_heap_align_up) simp
  have "unat sz \<noteq> 0" using assms(1) by (simp add: unat_gt_0)
  then have "1 \<le> (unat sz + 15) div 16" by presburger
  with al have "16 \<le> unat (heap_align_up sz 16)" by simp
  then have "\<not> heap_align_up sz 16 < 16" by (simp add: word_less_nat_alt)
  then have "blocks_for_size sz = ucast (heap_align_up sz 16 div 16)" by (simp add: blocks_for_size_def Let_def)
  moreover have "unat (heap_align_up sz 16 div 16) = (unat sz + 15) div 16" by (simp add: unat_div al)
  moreover have "(unat sz + 15) div 16 < 2 ^ 32" using assms(2) by (simp add: less_mult_imp_div_less)
  ultimately show ?thesis by (simp add: unsigned_ucast_eq take_bit_eq_mod)
qed

lemma size_blocks:
  fixes s :: nat
  assumes "s \<noteq> 0" and "s \<le> 2 ^ 32 - 32"
  shows "1 \<le> (s + 15) div 16" and "s \<le> 16 * ((s + 15) div 16)" and "16 * ((s + 15) div 16 + 1) < 2 ^ 32"
proof -
  show "1 \<le> (s + 15) div 16" and "s \<le> 16 * ((s + 15) div 16)"
    using assms(1) div_mult_mod_eq [of "s + 15" 16] mod_less_divisor [of 16 "s + 15"] by linarith+
  have "(s + 15) div 16 \<le> (2 ^ 32 - 32 + 15) div 16" using assms(2) by (intro div_le_mono) linarith
  then show "16 * ((s + 15) div 16 + 1) < 2 ^ 32" by simp
qed

lemma pin_start_id [simp]: "g_heap_alloc_start h \<noteq> 0 \<Longrightarrow> pin_start h = h"
  by (simp add: pin_start_def)

lemma kheap_alloc_ok:
  assumes ok: "heap_ok (pin_start h) ns fl" and c: "g_heap_current h \<noteq> 0" and sz: "sz \<noteq> 0" "fits sz"
  shows "\<exists>p h'. kheap_alloc sz h = Some (p, h')
    \<and> (p = 0 \<and> h' = pin_start h \<or> (\<exists>n. unat sz \<le> 16 * n \<and> gives n p (pin_start h) ns fl h'))"
proof -
  let ?nb = "blocks_for_size sz" and ?h = "pin_start h"
  define n where "n = (unat sz + 15) div 16"
  have nb: "unat ?nb = n" using unat_blocks_for_size [OF sz] by (simp add: n_def)
  have "unat sz \<noteq> 0" using sz(1) by (simp add: unat_gt_0)
  note n = size_blocks [OF this sz(2), folded n_def]
  have z: "\<exists>h'. Some (p, block_zero_user p ?nb h1) = Some (p, h') \<and> gives n p ?h ns fl h'" if "gives n p ?h ns fl h1" for p h1
    using block_zero_user_ok [of ?nb p ?h ns fl h1] that n(3) nb by simp
  obtain p1 h1 where p1: "bucket_pop_fast ?nb ?h = (p1, h1)" by fastforce
  obtain p3 h3 where p3: "bump_alloc (16 + ?nb * 16) ?h = (p3, h3)" by fastforce
  note b = bump_alloc_ok [OF ok nb n(1,3) p3]
  show ?thesis
  proof (cases "p1 = 0")
    case False
    with bucket_pop_fast_ok [OF ok p1] nb have "gives n p1 ?h ns fl h1"
      by (auto intro!: givesI dest: not_inuse_free)
    with z [OF this] False p1 c sz(1) n(2) show ?thesis by (auto simp: kheap_alloc_def Let_def)
  next
    case True
    then have h1: "h1 = ?h" using bucket_pop_fast_ok [OF ok p1] by auto
    show ?thesis
    proof (cases "?nb > 64")
      case False
      then show ?thesis using True p1 h1 p3 b c sz(1) n(2) by (auto simp: kheap_alloc_def Let_def)
    next
      case nb64: True
      obtain p2 h2 where p2: "bucket_pop_overflow ?nb ?h = Some (p2, h2)" "p2 = 0 \<and> h2 = ?h \<or> gives n p2 ?h ns fl h2"
        using bucket_pop_overflow_ok [OF ok, of ?nb] nb n(1) by auto
      have al: "kheap_alloc sz h = (if p2 \<noteq> 0 then Some (p2, block_zero_user p2 ?nb h2) else Some (bump_alloc (16 + ?nb * 16) h2))"
        using True p1 h1 p2(1) c sz(1) nb64 by (simp add: kheap_alloc_def Let_def)
      show ?thesis
      proof (cases "p2 = 0")
        case True
        then have "h2 = ?h" using p2(2) by (auto simp: gives_def)
        then show ?thesis using True al b p3 n(2) by auto
      next
        case False
        then have "gives n p2 ?h ns fl h2" using p2(2) by simp
        from z [OF this] al False n(2) show ?thesis by auto
      qed
    qed
  qed
qed

subsection \<open>Releasing a block\<close>

lemma span_0: "span ns = 0 \<longleftrightarrow> ns = []"
  by (cases ns) simp_all

lemma kheap_free_ok:
  assumes ok: "heap_ok h ns fl" and a: "(a, n) \<in> inuse h ns fl" and p: "unat p = a + 16"
  obtains ns' fl' where "heap_ok (kheap_free p h) ns' fl'" and "kept {a} h ns fl (kheap_free p h) ns' fl'"
proof -
  let ?c = "g_heap_current h" and ?S = "unat (g_heap_alloc_start h)"
  have t: "(a, n) \<in> set (heap_tiles h ns)" and u: "a + 16 \<notin> free_set fl" using a by (auto simp: inuse_def)
  note tb = tile_bounds(1,2,4,9) [OF ok t] and bu = block_units [OF ok t p]
  have hu: "unat (p - 16) = a" using bu(3) tb(3) by simp
  have "g_heap_alloc_start h \<noteq> 0" using ok by (auto simp: heap_ok_def Let_def)
  moreover have "p \<noteq> 0" using p by auto
  moreover have "\<not> p - 16 < g_heap_alloc_start h" "\<not> ?c \<le> p - 16"
    using tb hu by (simp_all add: word_less_nat_alt word_le_nat_alt)
  moreover have e: "unat (p - 16 + ucast (block_size h (p - 16))) = a + 16 * (n + 1)"
    using tb(2) hu bu(1) by (simp add: unat_word_ariths unat_ucast_u64)
  ultimately have f: "kheap_free p h = (if unat ?c \<le> a + 16 * (n + 1) then h\<lparr>g_heap_current := p - 16\<rparr>
      else bucket_push p ((block_size h (p - 16) - 16) div 16) h)"
    by (simp add: kheap_free_def Let_def word_le_nat_alt)
  show thesis
  proof (cases "unat ?c \<le> a + 16 * (n + 1)")
    case False
    then show thesis using bucket_push_ok [OF ok a p bu(2)] that f by metis
  next
    case True
    obtain xs ys where x: "ns = xs @ n # ys" "a = ?S + span xs" using tiles_split [OF t] by blast
    have "unat ?c = ?S + span ns" using ok by (simp add: heap_ok_def Let_def)
    with True tb(1) x have "ys = []" by (simp add: span_0)
    with x have ns: "ns = xs @ [n]" by simp
    let ?h = "h\<lparr>g_heap_current := p - 16\<rparr>"
    have "heads ?h = heads h" by (simp add: heads_def fun_eq_iff)
    then have "heap_ok ?h xs fl" by (intro heap_ok_rewind [OF ok [unfolded ns]]) (use u x(2) hu in simp_all)
    moreover have "kept {a} h ns fl ?h xs fl"
      by (auto simp: kept_def inuse_def same_user_def ns tiles_append x(2))
    ultimately show thesis using that [of xs fl] f True by simp
  qed
qed

subsection \<open>Runs\<close>

text \<open>The state before the first call, and one in which no block was ever carved.\<close>

definition heap_static :: "mem \<Rightarrow> kheap" where
  "heap_static m = \<lparr>h_mem = m, g_heap_alloc_start = 0, g_heap_current = 0, g_heap_end = 0, g_heap_min_start = 0,
     g_heap_size = 0x800000, g_free_bytes = 0, g_free_buckets = \<lambda>_. 0, g_overflow_list = 0\<rparr>"

definition fresh :: "kheap \<Rightarrow> bool" where
  "fresh h \<longleftrightarrow> g_heap_alloc_start h = 0 \<and> heads h = (\<lambda>_. None)
     \<and> unat (g_heap_current h) + 15 < 2 ^ 64 \<and> unat (g_heap_end h) + 15 < 2 ^ 64"

text \<open>
  A run of the heap with its users: \<open>held\<close> are the pointers returned and not yet released, with
  the sizes asked for. A user writes only into a block it holds.
\<close>

inductive heap_run :: "kheap \<Rightarrow> (u64 \<times> nat) list \<Rightarrow> bool" where
  boot: "unat kernel_end + 4096 \<le> 2 ^ 64 \<Longrightarrow> unat min_start + 4096 \<le> 2 ^ 64
    \<Longrightarrow> h = kheap_init kernel_end (kheap_reserve_until min_start (kheap_set_size sz (heap_static m)))
    \<Longrightarrow> unat (g_heap_end h) + 15 < 2 ^ 64 \<Longrightarrow> heap_run h []"
| reserve: "heap_run h held \<Longrightarrow> unat min_start + 4096 \<le> 2 ^ 64 \<Longrightarrow> heap_run (kheap_reserve_until min_start h) held"
| alloc: "heap_run h held \<Longrightarrow> fits sz \<Longrightarrow> kheap_alloc sz h = Some (p, h') \<Longrightarrow> p \<noteq> 0
    \<Longrightarrow> heap_run h' ((p, unat sz) # held)"
| full: "heap_run h held \<Longrightarrow> fits sz \<Longrightarrow> kheap_alloc sz h = Some (0, h') \<Longrightarrow> heap_run h' held"
| free: "heap_run h held \<Longrightarrow> (p, s) \<in> set held \<Longrightarrow> heap_run (kheap_free p h) (filter (\<lambda>(q, _). q \<noteq> p) held)"
| store: "heap_run h held \<Longrightarrow> (p, s) \<in> set held \<Longrightarrow> agree (unat p) (unat p + s) (h_mem h) m'
    \<Longrightarrow> heap_run (h\<lparr>h_mem := m'\<rparr>) held"

definition holds :: "kheap \<Rightarrow> nat list \<Rightarrow> (nat \<Rightarrow> nat list) \<Rightarrow> (u64 \<times> nat) list \<Rightarrow> bool" where
  "holds h ns fl held \<longleftrightarrow> distinct (map fst held)
     \<and> (\<forall>p s. (p, s) \<in> set held \<longrightarrow> 16 \<le> unat p \<and> (\<exists>n. (unat p - 16, n) \<in> inuse h ns fl \<and> s \<le> 16 * n))"

definition heap_inv :: "kheap \<Rightarrow> (u64 \<times> nat) list \<Rightarrow> bool" where
  "heap_inv h held \<longleftrightarrow> fresh h \<and> held = [] \<or> (\<exists>ns fl. heap_ok h ns fl \<and> holds h ns fl held)"

lemma holds_kept: "holds h ns fl held \<Longrightarrow> kept {} h ns fl h' ns' fl' \<Longrightarrow> holds h' ns' fl' held"
  unfolding holds_def kept_def by (metis empty_iff)

lemma fresh_boot:
  assumes "unat kernel_end + 4096 \<le> 2 ^ 64" "unat min_start + 4096 \<le> 2 ^ 64"
    and h: "h = kheap_init kernel_end (kheap_reserve_until min_start (kheap_set_size sz (heap_static m)))"
    and "unat (g_heap_end h) + 15 < 2 ^ 64"
  shows "fresh h"
proof -
  have al: "unat (heap_align_up v 4096) + 15 < 2 ^ 64" if "unat v + 4096 \<le> 2 ^ 64" for v
  proof -
    have "unat (heap_align_up v 4096) = (unat v + 4095) div 4096 * 4096"
      using unat_align_up [of v 12 4096] that by (simp add: heap_align_up_def)
    also have "... \<le> 2 ^ 64 - 4096"
    proof -
      have "(unat v + 4095) div 4096 \<le> (2 ^ 64 - 1) div 4096" using that by (intro div_le_mono) simp
      then show ?thesis by simp
    qed
    finally show ?thesis by simp
  qed
  have "heads h = (\<lambda>_. None)"
    by (simp add: h heads_def fun_eq_iff kheap_init_def Let_def kheap_reserve_until_def kheap_set_size_def heap_static_def ptr_opt_def)
  moreover have "unat (g_heap_current h) + 15 < 2 ^ 64"
    using al [OF assms(1)] al [OF assms(2)] al [of 0]
    by (simp add: h kheap_init_def Let_def kheap_reserve_until_def kheap_set_size_def heap_static_def)
  ultimately show ?thesis
    using assms(4) by (simp add: fresh_def) (simp add: h kheap_init_def Let_def)
qed

lemma fresh_pin:
  assumes "fresh h" and "g_heap_current h \<noteq> 0"
  shows "heap_ok (pin_start h) [] (\<lambda>_. [])"
proof -
  let ?a = "heap_align_up (g_heap_current h) 16"
  have u: "unat ?a = (unat (g_heap_current h) + 15) div 16 * 16"
    using assms(1) by (intro unat_heap_align_up) (simp add: fresh_def)
  moreover have "unat (g_heap_current h) \<noteq> 0" using assms(2) by (simp add: unat_gt_0)
  ultimately have "unat ?a \<noteq> 0" by presburger
  moreover have "16 dvd unat ?a" by (simp add: u)
  moreover have "heads (pin_start h) = heads h" by (simp add: pin_start_def Let_def heads_def fun_eq_iff)
  ultimately show ?thesis
    using assms(1) by (simp add: heap_ok_def Let_def pin_start_def fresh_def headers_ok_def lists_ok_def)
qed

lemma heap_ok_current: "heap_ok h ns fl \<Longrightarrow> g_heap_alloc_start h \<noteq> 0 \<and> g_heap_current h \<noteq> 0"
  by (auto simp: heap_ok_def Let_def)

lemma inv_pin:
  assumes "heap_inv h held" and "g_heap_current h \<noteq> 0"
  obtains ns fl where "heap_ok (pin_start h) ns fl" and "holds (pin_start h) ns fl held" and "h_mem (pin_start h) = h_mem h"
proof (cases "fresh h \<and> held = []")
  case True
  then have "holds (pin_start h) [] (\<lambda>_. []) held" by (simp add: holds_def)
  moreover have "h_mem (pin_start h) = h_mem h" by (simp add: pin_start_def Let_def)
  ultimately show thesis using that fresh_pin True assms(2) by blast
next
  case False
  then obtain ns fl where o: "heap_ok h ns fl" "holds h ns fl held" using assms(1) by (auto simp: heap_inv_def)
  then have "pin_start h = h" using heap_ok_current by (simp add: pin_start_def)
  with o show thesis by (intro that) simp_all
qed

lemma inv_alloc:
  assumes inv: "heap_inv h held" and sz: "fits sz"
  obtains p h' where "kheap_alloc sz h = Some (p, h')"
    and "if p = 0 then heap_inv h' held else heap_inv h' ((p, unat sz) # held)"
    and "\<And>q t x. (q, t) \<in> set held \<Longrightarrow> unat q \<le> unat x \<Longrightarrow> unat x < unat q + t \<Longrightarrow> h_mem h' x = h_mem h x"
proof (cases "sz = 0 \<or> g_heap_current h = 0")
  case True
  then show thesis using inv by (intro that [of 0 h]) (simp_all add: kheap_alloc_def)
next
  case False
  let ?h = "pin_start h"
  obtain ns fl where o: "heap_ok ?h ns fl" "holds ?h ns fl held" "h_mem ?h = h_mem h"
    using inv_pin [OF inv] False by auto
  from False have c: "g_heap_current h \<noteq> 0" "sz \<noteq> 0" by simp_all
  then obtain p h' where a: "kheap_alloc sz h = Some (p, h')"
      "p = 0 \<and> h' = ?h \<or> (\<exists>n. unat sz \<le> 16 * n \<and> gives n p ?h ns fl h')"
    using kheap_alloc_ok [OF o(1) _ _ sz] by blast
  show thesis
  proof (cases "p = 0")
    case True
    then have h': "h' = ?h" using a(2) by (auto simp: gives_def)
    then have "heap_inv h' held" using o by (auto simp: heap_inv_def)
    then show thesis using that [OF a(1)] True h' o(3) by simp
  next
    case False
    then obtain n ns' fl' k where g: "unat sz \<le> 16 * n" "heap_ok h' ns' fl'" "kept {} ?h ns fl h' ns' fl'"
        "16 \<le> unat p" "n \<le> k" "(unat p - 16, k) \<in> inuse h' ns' fl'" "\<And>j. (unat p - 16, j) \<notin> inuse ?h ns fl"
      using a(2) by (auto simp: gives_def)
    have "p \<notin> fst ` set held" using o(2) g(7) unfolding holds_def by fastforce
    moreover have "unat sz \<le> 16 * k" using g(1,5) by simp
    ultimately have "holds h' ns' fl' ((p, unat sz) # held)"
      using holds_kept [OF o(2) g(3)] g(4,6) unfolding holds_def by auto
    then have inv': "heap_inv h' ((p, unat sz) # held)" using g(2) by (auto simp: heap_inv_def)
    have keep: "h_mem h' x = h_mem h x" if q: "(q, t) \<in> set held" "unat q \<le> unat x" "unat x < unat q + t" for q t x
    proof -
      obtain j where "16 \<le> unat q" "(unat q - 16, j) \<in> inuse ?h ns fl" "t \<le> 16 * j"
        using o(2) q(1) by (auto simp: holds_def)
      then show ?thesis using g(3) q(2,3) o(3) by (auto simp: kept_def same_user_def)
    qed
    show thesis by (rule that [OF a(1)]) (use False inv' keep in simp_all)
  qed
qed

lemma inv_free:
  assumes inv: "heap_inv h held" and p: "(p, s) \<in> set held"
  shows "heap_inv (kheap_free p h) (filter (\<lambda>(q, _). q \<noteq> p) held)"
    and "\<And>q t x. (q, t) \<in> set held \<Longrightarrow> q \<noteq> p \<Longrightarrow> unat q \<le> unat x \<Longrightarrow> unat x < unat q + t
      \<Longrightarrow> h_mem (kheap_free p h) x = h_mem h x"
proof -
  obtain ns fl where o: "heap_ok h ns fl" "holds h ns fl held" using inv p by (auto simp: heap_inv_def)
  then obtain n where n: "16 \<le> unat p" "(unat p - 16, n) \<in> inuse h ns fl" using p by (auto simp: holds_def)
  then have pa: "unat p = unat p - 16 + 16" by simp
  obtain ns' fl' where f: "heap_ok (kheap_free p h) ns' fl'" "kept {unat p - 16} h ns fl (kheap_free p h) ns' fl'"
    by (rule kheap_free_ok [OF o(1) n(2) pa])
  have each: "16 \<le> unat q \<and> (\<exists>k. (unat q - 16, k) \<in> inuse (kheap_free p h) ns' fl' \<and> t \<le> 16 * k
      \<and> same_user (unat q - 16) k (h_mem h) (h_mem (kheap_free p h)))" if q: "(q, t) \<in> set held" "q \<noteq> p" for q t
  proof -
    obtain k where k: "16 \<le> unat q" "(unat q - 16, k) \<in> inuse h ns fl" "t \<le> 16 * k" using o(2) q(1) by (auto simp: holds_def)
    have "unat q \<noteq> unat p" using q(2) word_unat_eq_iff by blast
    then have "unat q - 16 \<noteq> unat p - 16" using k(1) n(1) by linarith
    then show ?thesis using f(2) k by (auto simp: kept_def)
  qed
  then have "holds (kheap_free p h) ns' fl' (filter (\<lambda>(q, _). q \<noteq> p) held)"
    unfolding holds_def
  proof (intro conjI allI impI)
    show "distinct (map fst (filter (\<lambda>(q, _). q \<noteq> p) held))" using o(2) by (simp add: holds_def distinct_map_filter)
  qed (use each in auto)
  then show "heap_inv (kheap_free p h) (filter (\<lambda>(q, _). q \<noteq> p) held)" using f(1) by (auto simp: heap_inv_def)
  fix q t and x :: u64
  assume q: "(q, t) \<in> set held" "q \<noteq> p" and x: "unat q \<le> unat x" "unat x < unat q + t"
  show "h_mem (kheap_free p h) x = h_mem h x" using each [OF q] x by (auto simp: same_user_def)
qed

lemma heap_run_inv: "heap_run h held \<Longrightarrow> heap_inv h held"
proof (induction rule: heap_run.induct)
  case (boot kernel_end min_start h sz m)
  then show ?case using fresh_boot by (auto simp: heap_inv_def)
next
  case (reserve h held min_start)
  have "fresh (kheap_reserve_until min_start h)" if f: "fresh h"
  proof -
    have "unat (heap_align_up min_start 16) = (unat min_start + 15) div 16 * 16"
      using reserve(2) by (intro unat_heap_align_up) simp
    then have "unat (heap_align_up min_start 16) + 15 < 2 ^ 64"
      using reserve(2) times_div_less_eq_dividend [of 16 "unat min_start + 15"] by (simp add: mult.commute)
    moreover have "heads (kheap_reserve_until min_start h) = heads h"
      by (simp add: heads_def fun_eq_iff kheap_reserve_until_def Let_def)
    ultimately show ?thesis using f by (simp add: fresh_def kheap_reserve_until_def Let_def)
  qed
  moreover have "kheap_reserve_until min_start h = h" if "heap_ok h ns fl" for ns fl
    using heap_ok_current [OF that] by (simp add: kheap_reserve_until_def)
  ultimately show ?case using reserve(3) by (auto simp: heap_inv_def)
next
  case (alloc h held sz p h')
  from alloc(2,3,4,5) show ?case by (auto elim: inv_alloc [of h held sz])
next
  case (full h held sz h')
  from full(2,3,4) show ?case by (auto elim: inv_alloc [of h held sz])
next
  case (free h held p s)
  then show ?case by (rule_tac inv_free(1))
next
  case (store h held p s m')
  then obtain ns fl where o: "heap_ok h ns fl" "holds h ns fl held" by (auto simp: heap_inv_def)
  then obtain n where n: "16 \<le> unat p" "(unat p - 16, n) \<in> inuse h ns fl" "s \<le> 16 * n"
    using store(2) by (auto simp: holds_def)
  have "agree (unat p - 16 + 16) (unat p - 16 + 16 + 16 * n) (h_mem h) m'"
    by (rule agree_mono [OF store(3)]) (use n in simp_all)
  then have "heap_ok (h\<lparr>h_mem := m'\<rparr>) ns fl" using heap_ok_user_write [OF o(1)] n(2) by (auto simp: inuse_def)
  moreover have "inuse (h\<lparr>h_mem := m'\<rparr>) ns fl = inuse h ns fl" by (simp add: inuse_def)
  moreover from this have "holds (h\<lparr>h_mem := m'\<rparr>) ns fl held" using o(2) by (simp add: holds_def)
  ultimately show ?case by (auto simp: heap_inv_def)
qed

subsection \<open>Properties\<close>

text \<open>A run with two blocks.\<close>

definition demo_heap :: kheap where
  "demo_heap = kheap_init 0x200000 (kheap_reserve_until 0 (kheap_set_size 0 (heap_static (\<lambda>_. 0))))"

lemmas demo_simps = demo_heap_def kheap_init_def kheap_reserve_until_def kheap_set_size_def heap_static_def
  heap_align_up_def kheap_alloc_def blocks_for_size_def pin_start_def bucket_pop_fast_def bump_alloc_def init_header_def Let_def

lemma demo_heap_run: "heap_run demo_heap []"
proof (rule heap_run.boot)
  show "demo_heap = kheap_init 0x200000 (kheap_reserve_until 0 (kheap_set_size 0 (heap_static (\<lambda>_. 0))))"
    by (fact demo_heap_def)
qed (simp_all add: demo_simps)

lemma demo_alloc1:
  "\<exists>h1. kheap_alloc 24 demo_heap = Some (0x200010, h1) \<and> g_heap_current h1 = 0x200030
     \<and> g_heap_alloc_start h1 = 0x200000 \<and> g_heap_end h1 = 0xA00000 \<and> g_free_buckets h1 = (\<lambda>_. 0)"
  by (simp add: demo_simps)

lemma demo_run2: "\<exists>h. heap_run h [(0x200040, 100), (0x200010, 24)]"
proof -
  obtain h1 where h1: "kheap_alloc 24 demo_heap = Some (0x200010, h1)" "g_heap_current h1 = 0x200030"
      "g_heap_alloc_start h1 = 0x200000" "g_heap_end h1 = 0xA00000" "g_free_buckets h1 = (\<lambda>_. 0)"
    using demo_alloc1 by blast
  then have r1: "heap_run h1 [(0x200010, 24)]" using heap_run.alloc [OF demo_heap_run, of 24] by simp
  have "\<exists>h2. kheap_alloc 100 h1 = Some (0x200040, h2)" using h1(2-) by (simp add: demo_simps)
  then show ?thesis using heap_run.alloc [OF r1, of 100] by auto
qed

text \<open>
  The size of a block is kept in 32 bits: a request for \<open>2\<^sup>3\<^sup>2\<close> bytes wraps around to a block
  without any user bytes, which the heap hands out (the pointer returned is already the bump
  pointer).
\<close>

lemma kheap_alloc_wraps:
  "\<exists>h'. kheap_alloc 0x100000000 demo_heap = Some (0x200010, h') \<and> g_heap_current h' = 0x200010"
proof -
  have "overflow_search h n None 0 None = Some None" for h n by (subst overflow_search.simps) simp
  then show ?thesis by (simp add: demo_simps bucket_pop_overflow_def)
qed

text \<open>
  C1. In every state that allocations of at most \<open>2 ^ 32 - 32\<close> bytes (larger sizes wrap in the
  header), releases and writes of the users into their own blocks can reach, the blocks held are 16-byte aligned, lie between the first header and the end of the
  heap, are pairwise different, and any two of them are at least a header apart.
\<close>

theorem kheap_blocks_exclusive:
  assumes run: "heap_run h held" and p: "(p, s) \<in> set held"
  shows "16 dvd unat p \<and> unat (g_heap_alloc_start h) + 16 \<le> unat p \<and> unat p + s \<le> unat (g_heap_end h)
    \<and> (\<forall>(q, t) \<in> set held. (q, t) \<noteq> (p, s) \<longrightarrow> unat p + s + 16 \<le> unat q \<or> unat q + t + 16 \<le> unat p)"
proof -
  obtain ns fl where o: "heap_ok h ns fl" "holds h ns fl held"
    using heap_run_inv [OF run] p by (auto simp: heap_inv_def)
  have tile: "16 \<le> unat q \<and> (\<exists>k. (unat q - 16, k) \<in> set (heap_tiles h ns) \<and> t \<le> 16 * k)" if "(q, t) \<in> set held" for q t
    using that o(2) by (auto simp: holds_def inuse_def)
  obtain n where n: "16 \<le> unat p" "(unat p - 16, n) \<in> set (heap_tiles h ns)" "s \<le> 16 * n" using tile [OF p] by auto
  have "16 dvd unat p" using tile_bounds(7) [OF o(1) n(2)] n(1) by (simp add: dvd_minus_self)
  moreover have "unat (g_heap_current h) \<le> unat (g_heap_end h)"
    using o(1) n(2) by (auto simp: heap_ok_def Let_def word_le_nat_alt)
  moreover have "unat p + s + 16 \<le> unat q \<or> unat q + t + 16 \<le> unat p"
    if q: "(q, t) \<in> set held" "(q, t) \<noteq> (p, s)" for q t
  proof -
    obtain k where k: "16 \<le> unat q" "(unat q - 16, k) \<in> set (heap_tiles h ns)" "t \<le> 16 * k" using tile [OF q(1)] by auto
    have "q \<noteq> p" using o(2) p q by (auto simp: holds_def eq_key_imp_eq_value)
    then have "unat q \<noteq> unat p" using word_unat_eq_iff by blast
    then have "unat p - 16 \<noteq> unat q - 16" using n(1) k(1) by linarith
    from tiles_apart [OF o(1) n(2) k(2) this] n k show ?thesis by auto
  qed
  ultimately show ?thesis using n tile_bounds(1,9) [OF o(1) n(2)] by auto
qed

theorem kheap_blocks_exclusive_witness:
  "\<exists>h. heap_run h [(0x200040, 100), (0x200010, 24)] \<and> unat (0x200040 :: u64) + 100 \<le> unat (g_heap_end h)"
proof -
  obtain h where "heap_run h [(0x200040, 100), (0x200010, 24)]" using demo_run2 by blast
  from this kheap_blocks_exclusive [OF this, of "0x200040" 100] show ?thesis by (intro exI [of _ h]) simp
qed

text \<open>
  C8. In every such state an allocation of a size the block header can hold returns, with a
  block or with \<open>NULL\<close>, and neither it nor the release of a block changes a byte of a block that
  somebody else holds.
\<close>

theorem kheap_contents_kept:
  assumes run: "heap_run h held" and sz: "unat sz \<le> 2 ^ 32 - 32"
    and q: "(q, t) \<in> set held" "unat q \<le> unat x" "unat x < unat q + t"
  shows "(\<exists>p h'. kheap_alloc sz h = Some (p, h') \<and> h_mem h' x = h_mem h x)
    \<and> (\<forall>(p, s) \<in> set held. p \<noteq> q \<longrightarrow> h_mem (kheap_free p h) x = h_mem h x)"
proof -
  note inv = heap_run_inv [OF run]
  obtain p h' where "kheap_alloc sz h = Some (p, h')" "h_mem h' x = h_mem h x"
    by (rule inv_alloc [OF inv sz]) (use q in blast)
  moreover have "h_mem (kheap_free p h) x = h_mem h x" if "(p, s) \<in> set held" "p \<noteq> q" for p s
    using inv_free(2) [OF inv that(1) q(1) _ q(2,3)] that(2) by blast
  ultimately show ?thesis by blast
qed

theorem kheap_contents_kept_witness:
  "\<exists>h. heap_run h [(0x200040, 100), (0x200010, 24)]
     \<and> (\<exists>p h'. kheap_alloc 48 h = Some (p, h') \<and> h_mem h' 0x200018 = h_mem h 0x200018)
     \<and> h_mem (kheap_free 0x200040 h) 0x200018 = h_mem h 0x200018"
proof -
  obtain h where r: "heap_run h [(0x200040, 100), (0x200010, 24)]" using demo_run2 by blast
  from r kheap_contents_kept [OF r, of 48 "0x200010" 24 "0x200018"] show ?thesis by (intro exI [of _ h]) simp
qed

end
