(* ===== verification/Initramfs.thy ===== *)
theory Initramfs
  imports Ramdisk Tinflate_Correct Kheap_Safety
begin

text \<open>
  The start of the initial file system, \<^verbatim>\<open>src/kernel/initramfs/bootstrap.c\<close> and
  \<^verbatim>\<open>loader.c\<close>: the boot module is an archive, used in place, or a compressed one, which is
  unpacked into a heap block; the ramdisk indexes it, and the loader counts the assemblies. This
  is where the decompressor, the heap, the archive reader and the ramdisk meet. Messages on the
  console are not modelled.
\<close>

subsection \<open>State\<close>

record boot_state =
  b_heap :: kheap
  b_ramdisk :: ramdisk

abbreviation b_mem :: "boot_state \<Rightarrow> mem" where "b_mem st \<equiv> h_mem (b_heap st)"

subsection \<open>Sizes\<close>

definition initramfs_is_cpio_newc :: "cstr \<Rightarrow> u32 \<Rightarrow> bool" where
  "initramfs_is_cpio_newc d n \<longleftrightarrow>
     n \<ge> 6 \<and> d 0 = of_char (CHR ''0'') \<and> d 1 = of_char (CHR ''7'') \<and> d 2 = of_char (CHR ''0'')
     \<and> d 3 = of_char (CHR ''7'') \<and> d 4 = of_char (CHR ''0'') \<and> d 5 = of_char (CHR ''1'')"

definition initramfs_expected_size :: "cstr \<Rightarrow> u32 \<Rightarrow> u32" where
  "initramfs_expected_size d module_size =
     (if module_size < 18 then 0
      else
        (let n = unat module_size;
             isize = ((ucast (d (n - 4)) OR push_bit 8 (ucast (d (n - 3)))) OR push_bit 16 (ucast (d (n - 2))))
                     OR push_bit 24 (ucast (d (n - 1)))
         in if d 0 = 0x1f \<and> d 1 = 0x8b \<and> isize \<noteq> 0 then isize
            else
              (let isize = module_size * 2048;
                   isize = (if isize < 64 * 1024 then 64 * 1024 else isize)
               in if isize > 4 * 1024 * 1024 then 4 * 1024 * 1024 else isize)))"

definition initramfs_required_heap_bytes :: "mem \<Rightarrow> u64 \<Rightarrow> u32 \<Rightarrow> u32" where
  "initramfs_required_heap_bytes m module_start module_size =
     (let d = str_at m module_start
      in if module_start = 0 \<or> module_size = 0 then 0
         else if initramfs_is_cpio_newc d module_size then 0
         else
           (let expected_size = initramfs_expected_size d module_size
            in if expected_size = 0 then 0
               else
                 (let required_size = expected_size + 2 * 1024 * 1024
                  in if required_size < expected_size then expected_size else required_size)))"

subsection \<open>Bootstrap\<close>

text \<open>The bytes the decompressor wrote, stored in the output buffer.\<close>

definition store_bytes :: "u64 \<Rightarrow> u8 list \<Rightarrow> mem \<Rightarrow> mem" where
  "store_bytes p xs m = (\<lambda>a. if unat (a - p) < length xs then xs ! unat (a - p) else m a)"

definition boot_names :: "string list" where
  "boot_names = [''System.Private.CoreLib.dll'', ''System.dll'', ''System.Runtime.dll'', ''Zapada.Boot.dll'',
     ''Zapada.Drivers.dll'', ''Zapada.Drivers.VirtioBlock.dll'', ''Zapada.Fs.Gpt.dll'', ''Zapada.Storage.dll'',
     ''Zapada.Fs.Fat32.dll'', ''Zapada.Fs.Vfs.dll'', ''Zapada.Conformance.dll'', ''Zapada.Test.Hello.dll'']"

text \<open>\<open>initramfs_log_lookup\<close> only prints what it finds.\<close>

definition initramfs_log_lookup :: "mem \<Rightarrow> ramdisk \<Rightarrow> string \<Rightarrow> unit option" where
  "initramfs_log_lookup m rd name = do { _ \<leftarrow> ramdisk_lookup m rd (Some (lit name)) True; Some () }"

fun log_lookups :: "mem \<Rightarrow> ramdisk \<Rightarrow> string list \<Rightarrow> unit option" where
  "log_lookups m rd [] = Some ()"
| "log_lookups m rd (n # ns) = do { _ \<leftarrow> initramfs_log_lookup m rd n; log_lookups m rd ns }"

text \<open>The common end of both branches: index the archive and look the assemblies up.\<close>

definition boot_ramdisk :: "u64 \<Rightarrow> u32 \<Rightarrow> boot_state \<Rightarrow> boot_state option" where
  "boot_ramdisk arc asize st =
     do {
       (ramdisk_status, rd) \<leftarrow> ramdisk_init_from_archive (b_mem st) arc asize (b_ramdisk st);
       if ramdisk_status \<noteq> RAMDISK_OK then Some (st\<lparr>b_ramdisk := rd\<rparr>)
       else do {
         _ \<leftarrow> log_lookups (b_mem st) rd boot_names;
         Some (st\<lparr>b_ramdisk := rd\<rparr>)
       }
     }"

definition initramfs_bootstrap :: "uninit \<Rightarrow> u64 \<Rightarrow> u32 \<Rightarrow> boot_state \<Rightarrow> boot_state option" where
  "initramfs_bootstrap u module_start module_size st =
     (let d = str_at (b_mem st) module_start
      in if module_start = 0 \<or> module_size = 0 then Some st
         else if initramfs_is_cpio_newc d module_size then boot_ramdisk module_start module_size st
         else
           (let expected_size = initramfs_expected_size d module_size
            in if expected_size = 0 then Some st
               else do {
                 (arc, h) \<leftarrow> kernel_alloc (ucast expected_size) (b_heap st);
                 if arc = 0 then Some (st\<lparr>b_heap := h\<rparr>)
                 else
                   (let (tinflate_status, archive_size, out) =
                          tinflate_decompress u (Some (str_at (h_mem h) module_start)) module_size True expected_size True;
                        st1 = st\<lparr>b_heap := h\<lparr>h_mem := store_bytes arc out (h_mem h)\<rparr>\<rparr>
                    in if tinflate_status \<noteq> TINFLATE_OK then Some st1
                       else boot_ramdisk arc archive_size st1)
               }))"

subsection \<open>Loading assemblies\<close>

partial_function (option) name_length :: "cstr \<Rightarrow> u32 \<Rightarrow> u32 option" where
  "name_length p len = (if p (unat len) \<noteq> 0 then name_length p (len + 1) else Some len)"

definition filename_ends_with_dll :: "cstr \<Rightarrow> bool option" where
  "filename_ends_with_dll name =
     do {
       len \<leftarrow> name_length name 0;
       if len < 4 then Some False
       else
         (let p = (\<lambda>i. name (unat len - 4 + i))
          in Some (p 0 = of_char (CHR ''.'')
               \<and> (p 1 = of_char (CHR ''D'') \<or> p 1 = of_char (CHR ''d''))
               \<and> (p 2 = of_char (CHR ''L'') \<or> p 2 = of_char (CHR ''l''))
               \<and> (p 3 = of_char (CHR ''L'') \<or> p 3 = of_char (CHR ''l''))))
     }"

definition has_mz_header :: "mem \<Rightarrow> u64 \<Rightarrow> u32 \<Rightarrow> bool" where
  "has_mz_header m d n \<longleftrightarrow> d \<noteq> 0 \<and> n \<ge> 2 \<and> m d = 0x4D \<and> m (d + 1) = 0x5A"

text \<open>The build with the managed runtime in the kernel counts every assembly it keeps.\<close>

fun load_loop :: "mem \<Rightarrow> ramdisk \<Rightarrow> nat list \<Rightarrow> u32 \<Rightarrow> u32 option" where
  "load_loop m rd [] loaded = Some loaded"
| "load_loop m rd (i # is) loaded =
     (case ramdisk_get_file (of_nat i) True rd of
        Inl _ \<Rightarrow> load_loop m rd is loaded
      | Inr file \<Rightarrow>
          do {
            dll \<leftarrow> filename_ends_with_dll (str_at m (e_filename file));
            if \<not> dll then load_loop m rd is loaded
            else if \<not> has_mz_header m (e_data file) (e_size file) then load_loop m rd is loaded
            else load_loop m rd is (loaded + 1)
          })"

definition initramfs_load_drivers :: "mem \<Rightarrow> ramdisk \<Rightarrow> u32 option" where
  "initramfs_load_drivers m rd =
     (let n = ramdisk_file_count rd
      in if n = 0 then Some 0 else load_loop m rd [0..<unat n] 0)"

subsection \<open>What the loader counts\<close>

definition dll_name :: "u8 list \<Rightarrow> bool" where
  "dll_name xs \<longleftrightarrow> (\<exists>ys d l1 l2. xs = ys @ [of_char (CHR ''.''), d, l1, l2]
     \<and> d \<in> {of_char (CHR ''D''), of_char (CHR ''d'')}
     \<and> l1 \<in> {of_char (CHR ''L''), of_char (CHR ''l'')} \<and> l2 \<in> {of_char (CHR ''L''), of_char (CHR ''l'')})"

lemma name_length_from:
  assumes "spells p xs" and "length xs < 2 ^ 32" and "unat len \<le> length xs"
  shows "name_length p len = Some (of_nat (length xs))"
  using assms(3)
proof (induction "length xs - unat len" arbitrary: len)
  case 0
  then have e: "unat len = length xs" by simp
  then have "len = of_nat (length xs)" by (metis of_nat_unat ucast_id)
  then show ?case using assms(1) e by (subst name_length.simps) (simp add: spells_def)
next
  case (Suc n)
  then have l: "unat len < length xs" by simp
  then have "unat (len + 1) = unat len + 1" using assms(2) by (simp add: unat_word_ariths)
  then have "name_length p (len + 1) = Some (of_nat (length xs))" using Suc l by (intro Suc.hyps(1)) auto
  moreover have "p (unat len) \<noteq> 0" using spells_nth [OF assms(1) l] by blast
  ultimately show ?case by (subst name_length.simps) simp
qed

lemma last_four: "4 \<le> length xs \<Longrightarrow> \<exists>ys a b c d. xs = ys @ [a, b, c, d]"
proof -
  assume "4 \<le> length xs"
  then have "length (drop (length xs - 4) xs) = Suc (Suc (Suc (Suc 0)))" by simp
  then obtain a b c d where "drop (length xs - 4) xs = [a, b, c, d]"
    by (auto simp only: length_Suc_conv length_0_conv)
  then show ?thesis by (metis append_take_drop_id)
qed

lemma ends_with_dll_spells:
  assumes "spells p xs" and "length xs < 2 ^ 32"
  shows "filename_ends_with_dll p = Some (dll_name xs)"
proof -
  have n: "name_length p 0 = Some (of_nat (length xs))" by (rule name_length_from [OF assms]) simp
  have u: "unat (of_nat (length xs) :: u32) = length xs" using assms(2) by (simp add: unat_of_nat_u32)
  show ?thesis
  proof (cases "length xs < 4")
    case True
    then show ?thesis using u by (auto simp: filename_ends_with_dll_def n word_less_nat_alt dll_name_def)
  next
    case False
    then obtain ys a b c d where xs: "xs = ys @ [a, b, c, d]" using last_four [of xs] by auto
    have "p (length ys + i) = [a, b, c, d] ! i" if "i < 4" for i
      using spells_nth [OF assms(1), of "length ys + i"] that by (simp add: xs nth_append)
    from this [of 0] this [of 1] this [of 2] this [of 3]
    have p: "p (length ys) = a" "p (Suc (length ys)) = b" "p (Suc (Suc (length ys))) = c" "p (length ys + 3) = d"
      by (simp_all add: numeral_2_eq_2 numeral_3_eq_3)
    have "\<not> (of_nat (length xs) :: u32) < 4" using False u by (simp add: word_less_nat_alt)
    moreover have "unat (of_nat (length xs) :: u32) - 4 = length ys" unfolding u by (simp add: xs)
    ultimately show ?thesis
      by (auto simp: filename_ends_with_dll_def n Let_def p dll_name_def xs)
  qed
qed

text \<open>An assembly: named as a DLL and beginning with the letters of a PE file.\<close>

definition is_assembly :: "mem \<Rightarrow> u8 list \<Rightarrow> ramdisk_entry_t \<Rightarrow> bool" where
  "is_assembly m nm e \<longleftrightarrow> dll_name nm \<and> has_mz_header m (e_data e) (e_size e)"

lemma load_loop_counts:
  assumes "initialized rd" and "list_all2 (\<lambda>i nm. i < unat (file_count rd) \<and> length nm < 2 ^ 32
      \<and> spells (str_at m (e_filename (files rd i))) nm) is nms"
  shows "load_loop m rd is loaded
    = Some (loaded + of_nat (length (filter (\<lambda>(i, nm). is_assembly m nm (files rd i)) (zip is nms))))"
  using assms(2)
proof (induction arbitrary: loaded rule: list_all2_induct)
  case (Cons i "is" nm nms)
  have "i < 2 ^ 32" using Cons.hyps(1) unat_u32_lt [of "file_count rd"] by simp
  then have u: "unat (of_nat i :: u32) = i" by (simp add: unat_of_nat_u32)
  then have "\<not> file_count rd \<le> of_nat i" using Cons.hyps(1) by (simp add: word_le_nat_alt)
  then have g: "ramdisk_get_file (of_nat i) True rd = Inr (files rd i)" using assms(1) u by (simp add: ramdisk_get_file_def)
  have "filename_ends_with_dll (str_at m (e_filename (files rd i))) = Some (dll_name nm)"
    by (rule ends_with_dll_spells) (use Cons.hyps(1) in simp_all)
  then show ?case using Cons.IH g by (simp add: is_assembly_def add.assoc)
qed simp

subsection \<open>An allocation while nothing was ever freed\<close>

lemma ptr_opt_None: "ptr_opt p = None \<longleftrightarrow> p = 0"
  by (simp add: ptr_opt_def)

lemma kheap_alloc_bump:
  assumes "heads h = (\<lambda>_. None)" and "sz \<noteq> 0" and "g_heap_current h \<noteq> 0"
  shows "kheap_alloc sz h = Some (bump_alloc (16 + blocks_for_size sz * 16) (pin_start h))"
proof -
  let ?h = "pin_start h" and ?n = "blocks_for_size sz"
  have "heads ?h = heads h" by (simp add: pin_start_def Let_def heads_def fun_eq_iff)
  then have "heads ?h = (\<lambda>_. None)" using assms(1) by simp
  then have n: "heads ?h i = None" for i by simp
  have z: "g_free_buckets ?h i = 0" "g_overflow_list ?h = 0" if "i < 64" for i
    using n [of i] n [of 64] that by (simp_all add: heads_def ptr_opt_None)
  have "bucket_pop_fast ?n ?h = (0, ?h)"
  proof (cases "?n = 0 \<or> ?n > 64")
    case False
    then have "unat (?n - 1) < 64" by (auto simp: unat_minus_one word_less_nat_alt word_le_nat_alt not_less)
    then show ?thesis using z(1) by (simp add: bucket_pop_fast_def Let_def)
  qed (auto simp: bucket_pop_fast_def)
  moreover have "bucket_pop_overflow ?n ?h = Some (0, ?h)"
    using z(2) [of 0] by (simp add: bucket_pop_overflow_def overflow_search.simps [of _ _ _ 0])
  ultimately show ?thesis using assms(2,3) by (simp add: kheap_alloc_def Let_def)
qed

lemma align_ge: "unat v + 15 < 2 ^ 64 \<Longrightarrow> unat v \<le> unat (heap_align_up v 16) \<and> unat (heap_align_up v 16) \<le> unat v + 15"
  using unat_heap_align_up [of v] div_mult_mod_eq [of "unat v + 15" 16] mod_less_divisor [of 16 "unat v + 15"] by linarith

lemma bump_alloc_mem:
  assumes "bump_alloc t h = (p, h')" and "p \<noteq> 0" and "16 \<le> unat t" and "unat (g_heap_current h) + 15 < 2 ^ 64"
  shows "agree (unat (g_heap_current h)) (2 ^ 64) (h_mem h) (h_mem h')"
proof -
  let ?a = "heap_align_up (g_heap_current h) 16"
  have nw: "\<not> ?a + ucast t < ?a" and h': "h_mem h' = h_mem (init_header ?a t h)"
    using assms(1,2) by (auto simp: bump_alloc_def Let_def split: if_splits)
  have "unat ?a + unat t < 2 ^ 64"
  proof (rule ccontr)
    assume big: "\<not> ?thesis"
    moreover have "unat ?a + unat t - 2 ^ 64 < 2 ^ 64" using unat_u64_lt [of ?a] unat_u32_lt [of t] by simp
    ultimately have "(unat ?a + unat t) mod 2 ^ 64 = unat ?a + unat t - 2 ^ 64" by (simp add: le_mod_geq not_less)
    then have "unat (?a + ucast t) + 2 ^ 64 = unat ?a + unat t" using big by (simp add: unat_word_ariths unat_ucast_u64)
    then have "unat (?a + ucast t) < unat ?a" using unat_u32_lt [of t] by simp
    with nw show False by (simp add: word_less_nat_alt)
  qed
  then have a16: "unat ?a + 16 \<le> 2 ^ 64" using assms(3) by linarith
  show ?thesis unfolding h'
    by (rule agree_mono [OF init_header_ok(1) [OF a16]]) (use align_ge [OF assms(4)] a16 in simp_all)
qed

text \<open>A first allocation writes nothing below the heap.\<close>

lemma kheap_alloc_below:
  assumes "heads h = (\<lambda>_. None)" and "kheap_alloc sz h = Some (p, h')" and "p \<noteq> 0" and "fits sz"
    and c: "unat (g_heap_current h) + 31 < 2 ^ 64"
  shows "agree (unat (g_heap_current h)) (2 ^ 64) (h_mem h) (h_mem h')"
proof -
  have nz: "sz \<noteq> 0" "g_heap_current h \<noteq> 0" using assms(2,3) by (auto simp: kheap_alloc_def)
  let ?h = "pin_start h" and ?t = "16 + blocks_for_size sz * 16"
  have b: "bump_alloc ?t ?h = (p, h')" using kheap_alloc_bump [OF assms(1) nz] assms(2) by simp
  have "unat sz \<noteq> 0" using nz(1) by (simp add: unat_gt_0)
  from size_blocks [OF this assms(4)] have "unat ?t = 16 * (unat (blocks_for_size sz) + 1)"
    using unat_blocks_for_size [OF nz(1) assms(4)] by (intro unat_times_16) simp
  then have t16: "16 \<le> unat ?t" by simp
  have pin: "unat (g_heap_current h) \<le> unat (g_heap_current ?h)" "unat (g_heap_current ?h) + 15 < 2 ^ 64" "h_mem ?h = h_mem h"
    using align_ge [of "g_heap_current h"] c by (auto simp: pin_start_def Let_def)
  from bump_alloc_mem [OF b assms(3) t16 pin(2)] show ?thesis
    unfolding pin(3) by (rule agree_mono) (use pin in simp_all)
qed

subsection \<open>Bootstrap from a compressed archive\<close>

lemma stored_at_agree:
  assumes "stored_at m p xs" and "agree lo hi m m'" and "unat p + length xs \<le> lo" and "lo < 2 ^ 64"
  shows "stored_at m' p xs"
  unfolding stored_at_def
proof (intro allI impI)
  fix i
  assume i: "i < length xs"
  then have "unat (p + of_nat i) = unat p + i" using assms(3,4) by (intro unat_add_u64) linarith
  then have "m' (p + of_nat i) = m (p + of_nat i)" using assms(2,3) i by (auto simp: agree_def)
  then show "m' (p + of_nat i) = xs ! i" using assms(1) i by (simp add: stored_at_def)
qed

lemma store_bytes_stored: "length xs < 2 ^ 64 \<Longrightarrow> stored_at (store_bytes p xs m) p xs"
  by (simp add: stored_at_def store_bytes_def unat_of_nat_u64)

lemma of_char_0: "(of_char c :: u8) = 0 \<longleftrightarrow> of_char c = (0 :: nat)"
proof -
  have "unat (of_nat (of_char c) :: u8) = of_char c"
    using nat_of_char_less_256 [of c] by (simp add: unsigned_of_nat take_bit_eq_mod)
  then have "unat (of_char c :: u8) = of_char c" unfolding of_nat_of_char .
  then show ?thesis using unat_eq_zero [of "of_char c :: u8"] by simp
qed

lemma lit_spells: "list_all (\<lambda>c. of_char c \<noteq> (0 :: nat)) s \<Longrightarrow> spells (lit s) (map of_char s)"
  by (auto simp: spells_def lit_def list_all_iff of_char_0)

lemma boot_names_spell: "n \<in> set boot_names \<Longrightarrow> spells (lit n) (map of_char n)"
  by (rule lit_spells) (auto simp: boot_names_def)

lemma boot_ramdisk_archive:
  assumes "stored_at (b_mem st) arc (newc_archive fs)" and "arc \<noteq> 0" and "length (newc_archive fs) < 2 ^ 32"
    and "list_all (\<lambda>f. good_name (a_name f)) fs" and "length (filter has_data fs) \<le> 128" and "\<not> initialized (b_ramdisk st)"
  obtains rd where "boot_ramdisk arc (of_nat (length (newc_archive fs))) st = Some (st\<lparr>b_ramdisk := rd\<rparr>)"
    and "\<And>g nm. spells g nm \<Longrightarrow> lookup_spec (b_mem st) nm (filter has_data fs) (ramdisk_lookup (b_mem st) rd (Some g) True)"
proof (rule ramdisk_archive [OF assms])
  fix rd
  assume r: "ramdisk_init_from_archive (b_mem st) arc (of_nat (length (newc_archive fs))) (b_ramdisk st) = Some (RAMDISK_OK, rd)"
    and l: "\<And>g nm. spells g nm \<Longrightarrow> lookup_spec (b_mem st) nm (filter has_data fs) (ramdisk_lookup (b_mem st) rd (Some g) True)"
  have ret: "\<exists>x. ramdisk_lookup (b_mem st) rd (Some g) True = Some x" if "spells g nm" for g nm
    using l [OF that] by (auto simp: lookup_spec_def split: option.splits)
  have "log_lookups (b_mem st) rd ns = Some ()" if "set ns \<subseteq> set boot_names" for ns
    using that
  proof (induction ns)
    case (Cons n ns)
    then obtain x where "ramdisk_lookup (b_mem st) rd (Some (lit n)) True = Some x" using ret [OF boot_names_spell] by force
    then show ?case using Cons by (simp add: initramfs_log_lookup_def)
  qed simp
  then have "boot_ramdisk arc (of_nat (length (newc_archive fs))) st = Some (st\<lparr>b_ramdisk := rd\<rparr>)"
    using r by (simp add: boot_ramdisk_def)
  then show thesis using l by (rule that)
qed

lemma expected_size_le32: "initramfs_expected_size d n =
  (if n < 18 then 0 else if d 0 = 0x1f \<and> d 1 = 0x8b \<and> read_le32 d (unat n - 4) \<noteq> 0 then read_le32 d (unat n - 4)
   else initramfs_expected_size (d(0 := 0)) n)"
proof (cases "n < 18")
  case False
  then have "18 \<le> unat n" by (simp add: word_less_nat_alt)
  then have "unat n - 4 + 1 = unat n - 3" "unat n - 4 + 2 = unat n - 2" "unat n - 4 + 3 = unat n - 1" by simp_all
  then show ?thesis using False by (simp add: initramfs_expected_size_def read_le32_def Let_def)
qed (simp add: initramfs_expected_size_def)

text \<open>
  C3. Booting from a compressed module works end to end: when the module is a gzip file of stored
  blocks whose contents are an archive in the \<open>newc\<close> format, it lies below the heap, and the heap
  has room for the unpacked archive, which has at most 128 files that are not empty, the bootstrap
  returns and a lookup in the ramdisk finds exactly the first file of that name that has data,
  with its size, mode, time and bytes, or reports that there is none. Empty files and directories
  are not kept, so a lookup of their names reports that there is no such file.
\<close>

theorem initramfs_boot_roundtrip:
  assumes gz: "stored_at (b_mem st) ms (gzip_stored chunks)" "ms \<noteq> 0" "length (gzip_stored chunks) < 2 ^ 32"
    and chunks: "concat chunks = newc_archive fs" "list_all (\<lambda>c. length c \<le> 65535) chunks" "length (newc_archive fs) \<le> 2 ^ 32 - 32"
    and fs: "list_all (\<lambda>f. good_name (a_name f)) fs" "length (filter has_data fs) \<le> 128" "\<not> initialized (b_ramdisk st)"
    and heap: "heads (b_heap st) = (\<lambda>_. None)" "unat ms + length (gzip_stored chunks) \<le> unat (g_heap_current (b_heap st))"
      "unat (g_heap_current (b_heap st)) + 31 < 2 ^ 64"
      "kheap_alloc (of_nat (length (newc_archive fs))) (b_heap st) = Some (p, h)" "p \<noteq> 0"
    and name: "spells g nm"
  shows "\<exists>st'. initramfs_bootstrap u ms (of_nat (length (gzip_stored chunks))) st = Some st'
    \<and> lookup_spec (b_mem st') nm (filter has_data fs) (ramdisk_lookup (b_mem st') (b_ramdisk st') (Some g) True)"
proof -
  let ?g = "gzip_stored chunks" and ?a = "newc_archive fs" and ?d = "str_at (b_mem st) ms"
  let ?n = "of_nat (length ?g) :: u32" and ?e = "of_nat (length ?a) :: u32"
  note a110 = newc_archive_length [of fs]
  have "concat chunks \<noteq> []" unfolding chunks(1) using a110 by (metis list.size(3) not_numeral_le_zero)
  then have ne: "chunks \<noteq> []" by (metis concat.simps(1))
  have un: "unat ?n = length ?g" "unat ?e = length ?a" using gz(3) chunks(3) by (simp_all add: unat_of_nat_u32)
  have glen: "18 \<le> length ?g" using deflate_stored_length [OF ne] by (simp add: gzip_stored_def le32_def)
  have dg: "?d i = ?g ! i" if "i < length ?g" for i using str_at_nth [OF gz(1) that] .
  have d01: "?d 0 = 0x1f" "?d 1 = 0x8b" using dg glen by (simp_all add: gzip_stored_def)
  have "read_le32 ?d (length ?g - 4) = ?e"
  proof -
    let ?pre = "[0x1F, 0x8B, 8, 0, 0, 0, 0, 0, 0, 3] @ deflate_stored chunks @ le32 (crc32_spec (concat chunks))"
    have g: "?g = ?pre @ le32 ?e @ []" unfolding gzip_stored_def chunks(1) by (simp only: append_assoc append_Nil2)
    have "length ?g - 4 = length ?pre" by (subst g) (simp add: le32_def)
    then have "read_le32 ((!) ?g) (length ?g - 4) = ?e" by (metis g read_le32_at)
    moreover have "read_le32 ?d (length ?g - 4) = read_le32 ((!) ?g) (length ?g - 4)" using dg glen by (simp add: read_le32_def)
    ultimately show ?thesis by simp
  qed
  moreover have e0: "?e \<noteq> 0" using un(2) a110 by auto
  ultimately have es: "initramfs_expected_size ?d ?n = ?e"
    using d01 glen un(1) by (subst expected_size_le32) (simp add: word_less_nat_alt)
  have n0: "?n \<noteq> 0" using un(1) glen by auto
  have nc: "\<not> initramfs_is_cpio_newc ?d ?n" using d01 by (simp add: initramfs_is_cpio_newc_def)
  have uc: "(ucast ?e :: u64) = of_nat (length ?a)" using un(2) by (metis of_nat_unat)
  have "unat (of_nat (length ?a) :: u64) = length ?a" using chunks(3) by (intro unat_of_nat_u64) simp
  then have "fits (of_nat (length ?a))" using chunks(3) by (simp only:)
  then have ag: "agree (unat (g_heap_current (b_heap st))) (2 ^ 64) (b_mem st) (h_mem h)"
    by (rule kheap_alloc_below [OF heap(1,4,5) _ heap(3)])
  have gz': "stored_at (h_mem h) ms ?g" using stored_at_agree [OF gz(1) ag heap(2)] heap(3) by simp
  have td: "tinflate_decompress u (Some (str_at (h_mem h) ms)) ?n True ?e True = (0, ?e, ?a)"
    using gzip_stored_decompress [of chunks "str_at (h_mem h) ms" ?e u] str_at_nth [OF gz'] ne chunks gz(3) un(2) by simp
  let ?st = "st\<lparr>b_heap := h\<lparr>h_mem := store_bytes p ?a (h_mem h)\<rparr>\<rparr>"
  have st: "stored_at (b_mem ?st) p ?a" "length ?a < 2 ^ 32" "\<not> initialized (b_ramdisk ?st)"
    using chunks(3) fs(3) by (simp_all add: store_bytes_stored)
  obtain rd where rd: "boot_ramdisk p ?e ?st = Some (?st\<lparr>b_ramdisk := rd\<rparr>)"
      "\<And>g nm. spells g nm \<Longrightarrow> lookup_spec (b_mem ?st) nm (filter has_data fs) (ramdisk_lookup (b_mem ?st) rd (Some g) True)"
    by (rule boot_ramdisk_archive [OF st(1) heap(5) st(2) fs(1,2) st(3)]) blast
  have "initramfs_bootstrap u ms ?n st = Some (?st\<lparr>b_ramdisk := rd\<rparr>)"
    using gz(2) n0 nc es e0 heap(4,5) td rd(1) uc by (simp add: initramfs_bootstrap_def Let_def kernel_alloc_def)
  then show ?thesis using rd(2) [OF name] by simp
qed

text \<open>A machine with the compressed archive at 1 MiB and the heap at 2 MiB.\<close>

definition sample_gzip :: "u8 list" where
  "sample_gzip = gzip_stored [newc_archive sample_files]"

definition sample_boot :: boot_state where
  "sample_boot = \<lparr>b_heap = kheap_init 0x200000 (heap_static (mem_with 0x100000 sample_gzip)), b_ramdisk = empty_ramdisk\<rparr>"

lemma sample_archive_length: "length (newc_archive sample_files) = 360"
  by (simp add: newc_archive_def newc_entry_length sample_files_def trailer_file_def CPIO_TRAILER_def pad4_def)

lemma sample_gzip_length: "length sample_gzip = 383"
  by (simp add: sample_gzip_def gzip_stored_def stored_block_def le16_def le32_def sample_archive_length)

theorem initramfs_boot_roundtrip_witness:
  "\<exists>st'. initramfs_bootstrap sample_uninit 0x100000 383 sample_boot = Some st'
     \<and> lookup_spec (b_mem st') (map of_char ''a.dll'') (filter has_data sample_files)
           (ramdisk_lookup (b_mem st') (b_ramdisk st') (Some (lit ''a.dll'')) True)"
proof -
  have mem: "b_mem sample_boot = mem_with 0x100000 sample_gzip" "b_ramdisk sample_boot = empty_ramdisk"
    by (simp_all add: sample_boot_def heap_static_def kheap_init_def Let_def)
  have cur: "g_heap_current (b_heap sample_boot) = 0x200000"
    by (simp add: sample_boot_def demo_simps)
  have heads0: "heads (b_heap sample_boot) = (\<lambda>_. None)"
    by (simp add: sample_boot_def heap_static_def kheap_init_def Let_def heads_def ptr_opt_def fun_eq_iff)
  have "\<exists>p h. kheap_alloc (of_nat 360) (b_heap sample_boot) = Some (p, h) \<and> p \<noteq> 0"
    by (simp add: kheap_alloc_bump [OF heads0] cur) (simp add: sample_boot_def demo_simps)
  then obtain p h where al: "kheap_alloc (of_nat (length (newc_archive sample_files))) (b_heap sample_boot) = Some (p, h)" "p \<noteq> 0"
    unfolding sample_archive_length by blast
  have st: "stored_at (b_mem sample_boot) 0x100000 (gzip_stored [newc_archive sample_files])"
    unfolding mem sample_gzip_def [symmetric] by (rule mem_with_stored) (simp add: sample_gzip_length)
  have gn: "list_all (\<lambda>f. good_name (a_name f)) sample_files" unfolding sample_files_def good_name_def CPIO_TRAILER_def by code_simp
  have fs: "length (filter has_data sample_files) \<le> 128" by (simp add: sample_files_def)
  have sp: "spells (lit ''a.dll'') (map of_char ''a.dll'')" by (rule lit_spells) simp
  have "\<exists>st'. initramfs_bootstrap sample_uninit 0x100000 (of_nat (length (gzip_stored [newc_archive sample_files]))) sample_boot = Some st'
     \<and> lookup_spec (b_mem st') (map of_char ''a.dll'') (filter has_data sample_files)
           (ramdisk_lookup (b_mem st') (b_ramdisk st') (Some (lit ''a.dll'')) True)"
    by (rule initramfs_boot_roundtrip [OF st _ _ _ _ _ gn fs _ heads0 _ _ al sp])
      (simp_all add: sample_gzip_length [unfolded sample_gzip_def] sample_archive_length mem cur empty_ramdisk_def)
  then show ?thesis by (simp add: sample_gzip_length [unfolded sample_gzip_def])
qed

end
