(* ===== verification/Multiboot.thy ===== *)
theory Multiboot
  imports Kernel_Memory
begin

text \<open>
  The boot information of \<^verbatim>\<open>src/boot/multiboot2.h\<close>: a sequence of tags in memory, each with
  a type and a size, padded to eight bytes. The walks follow the sizes they read, so they are
  \<open>partial_function\<close>s; they return on every list whose tags advance.
\<close>

abbreviation (input) MB2_TAG_END :: u32 where "MB2_TAG_END \<equiv> 0"
abbreviation (input) MB2_TAG_MODULE :: u32 where "MB2_TAG_MODULE \<equiv> 3"
abbreviation (input) MB2_TAG_MEMORY_MAP :: u32 where "MB2_TAG_MEMORY_MAP \<equiv> 6"
abbreviation (input) MB2_MEMORY_AVAILABLE :: u32 where "MB2_MEMORY_AVAILABLE \<equiv> 1"

text \<open>The records of the packed structures, read from their address.\<close>

record mb2_tag_t =
  tag_type :: u32
  tag_size :: u32

record mb2_tag_mmap_t = mb2_tag_t +
  mmap_entry_size :: u32
  mmap_entry_version :: u32

record mb2_mmap_entry_t =
  entry_base_addr :: u64
  entry_length :: u64
  entry_type :: u32

record mb2_tag_module_t = mb2_tag_t +
  mod_start :: u32
  mod_end :: u32

definition mb2_tag :: "mem \<Rightarrow> u64 \<Rightarrow> mb2_tag_t" where
  "mb2_tag m a = \<lparr>tag_type = read_u32 m a, tag_size = read_u32 m (a + 4)\<rparr>"

definition mb2_tag_mmap :: "mem \<Rightarrow> u64 \<Rightarrow> mb2_tag_mmap_t" where
  "mb2_tag_mmap m a = \<lparr>tag_type = read_u32 m a, tag_size = read_u32 m (a + 4),
     mmap_entry_size = read_u32 m (a + 8), mmap_entry_version = read_u32 m (a + 12)\<rparr>"

definition mb2_mmap_entry :: "mem \<Rightarrow> u64 \<Rightarrow> mb2_mmap_entry_t" where
  "mb2_mmap_entry m a = \<lparr>entry_base_addr = read_u64 m a, entry_length = read_u64 m (a + 8),
     entry_type = read_u32 m (a + 16)\<rparr>"

definition mb2_tag_module :: "mem \<Rightarrow> u64 \<Rightarrow> mb2_tag_module_t" where
  "mb2_tag_module m a = \<lparr>tag_type = read_u32 m a, tag_size = read_u32 m (a + 4),
     mod_start = read_u32 m (a + 8), mod_end = read_u32 m (a + 12)\<rparr>"

text \<open>\<open>addr += (tag->size + 7) & ~7u\<close>, with the 32-bit wrap-around of the sum.\<close>

definition mb2_next :: "mem \<Rightarrow> u64 \<Rightarrow> u64" where
  "mb2_next m addr = addr + ucast ((tag_size (mb2_tag m addr) + 7) AND NOT 7)"

partial_function (option) find_tag_walk :: "mem \<Rightarrow> u32 \<Rightarrow> u64 \<Rightarrow> u64 \<Rightarrow> u64 option option" where
  "find_tag_walk m ty end addr =
     (if addr < end then
        (if tag_type (mb2_tag m addr) = MB2_TAG_END then Some None
         else if tag_type (mb2_tag m addr) = ty then Some (Some addr)
         else find_tag_walk m ty end (mb2_next m addr))
      else Some None)"

definition mb2_find_tag :: "mem \<Rightarrow> u64 \<Rightarrow> u32 \<Rightarrow> u64 option option" where
  "mb2_find_tag m info ty = find_tag_walk m ty (info + ucast (read_u32 m info)) (info + 8)"

partial_function (option) modules_walk ::
  "(u64 \<Rightarrow> 's \<Rightarrow> int \<times> 's) \<Rightarrow> mem \<Rightarrow> u64 \<Rightarrow> u64 \<Rightarrow> int \<Rightarrow> 's \<Rightarrow> (int \<times> 's) option" where
  "modules_walk callback m end addr result arg =
     (if addr < end then
        (if tag_type (mb2_tag m addr) = MB2_TAG_END then Some (result, arg)
         else if tag_type (mb2_tag m addr) = MB2_TAG_MODULE then
           (case callback addr arg of (r, arg') \<Rightarrow>
              if r \<noteq> 0 then Some (r, arg')
              else modules_walk callback m end (mb2_next m addr) r arg')
         else modules_walk callback m end (mb2_next m addr) result arg)
      else Some (result, arg))"

definition mb2_iterate_modules ::
  "mem \<Rightarrow> u64 \<Rightarrow> (u64 \<Rightarrow> 's \<Rightarrow> int \<times> 's) \<Rightarrow> 's \<Rightarrow> (int \<times> 's) option" where
  "mb2_iterate_modules m info callback arg =
     modules_walk callback m (info + ucast (read_u32 m info)) (info + 8) 0 arg"

subsection \<open>Tag lists that advance\<close>

text \<open>
  \<open>tags_at m end a ts\<close>: from address \<open>a\<close> the walk meets the tags at the addresses \<open>ts\<close>, in this
  order, before an end tag or the end of the information.
\<close>

fun tags_at :: "mem \<Rightarrow> u64 \<Rightarrow> u64 \<Rightarrow> u64 list \<Rightarrow> bool" where
  "tags_at m end a [] \<longleftrightarrow> \<not> a < end \<or> tag_type (mb2_tag m a) = MB2_TAG_END"
| "tags_at m end a (t # ts) \<longleftrightarrow> a = t \<and> t < end \<and> tag_type (mb2_tag m t) \<noteq> MB2_TAG_END
     \<and> tags_at m end (mb2_next m t) ts"

lemma find_tag_walk_list:
  assumes "tags_at m end a ts" and "ty \<noteq> MB2_TAG_END"
  shows "find_tag_walk m ty end a = Some (find (\<lambda>t. tag_type (mb2_tag m t) = ty) ts)"
  using assms(1)
proof (induction ts arbitrary: a)
  case Nil
  then show ?case by (subst find_tag_walk.simps) auto
next
  case (Cons t ts)
  then show ?case using assms(2) by (subst find_tag_walk.simps) auto
qed

lemma modules_walk_list:
  assumes "tags_at m end a ts" and "\<And>t s. fst (callback t s) = 0"
  shows "modules_walk callback m end a 0 s =
    Some (0, fold (\<lambda>t s. snd (callback t s)) (filter (\<lambda>t. tag_type (mb2_tag m t) = MB2_TAG_MODULE) ts) s)"
  using assms(1)
proof (induction ts arbitrary: a s)
  case Nil
  then show ?case by (subst modules_walk.simps) auto
next
  case (Cons t ts)
  obtain s' where s': "callback t s = (0, s')" using assms(2) [of t s] by (cases "callback t s") simp
  with Cons show ?case by (subst modules_walk.simps) auto
qed

text \<open>A list whose tags have a size between 1 and \<open>2 ^ 32 - 8\<close> advances and so ends.\<close>

lemma tags_at_exists:
  assumes "\<And>t. t < end \<Longrightarrow> tag_type (mb2_tag m t) \<noteq> MB2_TAG_END \<Longrightarrow> unat t < unat (mb2_next m t)"
  shows "\<exists>ts. tags_at m end a ts"
proof (induction "unat end - unat a" arbitrary: a rule: less_induct)
  case less
  show ?case
  proof (cases "a < end \<and> tag_type (mb2_tag m a) \<noteq> MB2_TAG_END")
    case True
    then have "unat end - unat (mb2_next m a) < unat end - unat a"
      using assms [of a] by (auto simp: word_less_nat_alt)
    from less [OF this] True obtain ts where "tags_at m end a (a # ts)" by auto
    then show ?thesis by blast
  next
    case False
    then have "tags_at m end a []" by auto
    then show ?thesis by blast
  qed
qed

text \<open>A tag of size 0 does not advance: the walk over it never returns.\<close>

lemma find_tag_stuck:
  assumes "a < end" and "tag_type (mb2_tag m a) \<noteq> MB2_TAG_END" and "tag_type (mb2_tag m a) \<noteq> ty"
    and "mb2_next m a = a"
  shows "find_tag_walk m ty end a = None"
proof -
  have "\<not> (a < end \<and> tag_type (mb2_tag m a) \<noteq> MB2_TAG_END \<and> tag_type (mb2_tag m a) \<noteq> ty \<and> mb2_next m a = a)"
    if "find_tag_walk m ty end a = Some r" for r
    using _ that
  proof (rule find_tag_walk.raw_induct [where P = "\<lambda>m ty end a r. \<not> (a < end \<and> tag_type (mb2_tag m a) \<noteq> MB2_TAG_END
      \<and> tag_type (mb2_tag m a) \<noteq> ty \<and> mb2_next m a = a)"])
  qed (fastforce split: if_splits)
  with assms show ?thesis by (cases "find_tag_walk m ty end a") auto
qed

end
