(* ===== verification/Pmm.thy ===== *)
theory Pmm
  imports Multiboot Resource_Pool
begin

text \<open>
  The physical frame allocator, \<^verbatim>\<open>src/kernel/mm/pmm.c\<close>: a stack of free 4 KiB frames, filled
  from the boot loader's memory map or from one flat region. The address of the linker symbol
  \<open>kernel_end\<close> is a parameter. The first theorem is that the registered frames stay clear of
  the kernel and the heap and are aligned and distinct; the second that no frame is handed out
  twice.
\<close>

subsection \<open>State and helpers\<close>

record pmm =
  g_free_frames :: "nat \<Rightarrow> u64"
  g_free_frame_count :: u32
  g_reserved_until :: u64

abbreviation (input) PMM_FRAME_SIZE :: u64 where "PMM_FRAME_SIZE \<equiv> 4096"
abbreviation (input) PMM_MAX_FREE_FRAMES :: u32 where "PMM_MAX_FREE_FRAMES \<equiv> 32768"
abbreviation (input) PMM_MIN_USABLE_ADDR :: u64 where "PMM_MIN_USABLE_ADDR \<equiv> 0x00100000"
abbreviation (input) EARLY_HEAP_SIZE :: u64 where "EARLY_HEAP_SIZE \<equiv> 0x800000"

definition mm_align_up_u64 :: "u64 \<Rightarrow> u64 \<Rightarrow> u64" where
  "mm_align_up_u64 v alignment = (v + alignment - 1) AND NOT (alignment - 1)"

definition mm_max_u64 :: "u64 \<Rightarrow> u64 \<Rightarrow> u64" where
  "mm_max_u64 l r = (if l > r then l else r)"

definition pmm_reserve_until :: "u64 \<Rightarrow> pmm \<Rightarrow> pmm" where
  "pmm_reserve_until min_addr s =
     (if min_addr > g_reserved_until s then s\<lparr>g_reserved_until := min_addr\<rparr> else s)"

subsection \<open>Filling the stack\<close>

definition push_frame :: "u64 \<Rightarrow> pmm \<Rightarrow> pmm" where
  "push_frame frame s =
     s\<lparr>g_free_frames := (g_free_frames s)(unat (g_free_frame_count s) := frame),
       g_free_frame_count := g_free_frame_count s + 1\<rparr>"

text \<open>The loop over the frames of one region; it stops at the latest when the stack is full.\<close>

function add_frames :: "u64 \<Rightarrow> u64 \<Rightarrow> pmm \<Rightarrow> pmm" where
  "add_frames frame region_end s =
     (if frame + PMM_FRAME_SIZE \<le> region_end \<and> g_free_frame_count s < PMM_MAX_FREE_FRAMES
      then add_frames (frame + PMM_FRAME_SIZE) region_end (push_frame frame s)
      else s)"
  by auto

termination add_frames
proof (relation "measure (\<lambda>(f, e, s). 32768 - unat (g_free_frame_count s))")
  fix frame region_end and s :: pmm
  assume "frame + PMM_FRAME_SIZE \<le> region_end \<and> g_free_frame_count s < PMM_MAX_FREE_FRAMES"
  then have "unat (g_free_frame_count s) < 32768" by (simp add: word_less_nat_alt)
  then have "unat (g_free_frame_count s + 1) = unat (g_free_frame_count s) + 1"
    using unat_add_lem [of "g_free_frame_count s" 1] by simp
  with \<open>unat (g_free_frame_count s) < 32768\<close>
  show "((frame + PMM_FRAME_SIZE, region_end, push_frame frame s), frame, region_end, s)
      \<in> measure (\<lambda>(f, e, s). 32768 - unat (g_free_frame_count s))"
    by (simp add: push_frame_def)
qed simp

declare add_frames.simps [simp del]

definition reserved_end :: "u64 \<Rightarrow> pmm \<Rightarrow> u64" where
  "reserved_end kernel_end s =
     (let r = mm_align_up_u64 kernel_end PMM_FRAME_SIZE + EARLY_HEAP_SIZE
      in if g_reserved_until s > r then mm_align_up_u64 (g_reserved_until s) PMM_FRAME_SIZE else r)"

definition add_region :: "u64 \<Rightarrow> mb2_mmap_entry_t \<Rightarrow> pmm \<Rightarrow> pmm" where
  "add_region reserved e s =
     (if entry_type e = MB2_MEMORY_AVAILABLE then
        (let region_start = mm_align_up_u64 (entry_base_addr e) PMM_FRAME_SIZE;
             region_end = entry_base_addr e + entry_length e;
             region_start = mm_max_u64 region_start PMM_MIN_USABLE_ADDR;
             region_start = mm_max_u64 region_start reserved
         in add_frames region_start region_end s)
      else s)"

primrec add_regions :: "nat \<Rightarrow> mem \<Rightarrow> u64 \<Rightarrow> u64 \<Rightarrow> u64 \<Rightarrow> pmm \<Rightarrow> pmm" where
  "add_regions 0 m reserved entry entry_size s = s"
| "add_regions (Suc n) m reserved entry entry_size s =
     add_regions n m reserved (entry + entry_size) entry_size (add_region reserved (mb2_mmap_entry m entry) s)"

text \<open>
  \<open>None\<close> stands for not returning: the tag walk runs forever, or the entry size is 0 and the
  division traps.
\<close>

definition pmm_init :: "mem \<Rightarrow> u64 \<Rightarrow> u64 \<Rightarrow> pmm \<Rightarrow> pmm option" where
  "pmm_init m kernel_end mb_info s =
     do {
       let s = s\<lparr>g_free_frame_count := 0\<rparr>;
       found \<leftarrow> mb2_find_tag m mb_info MB2_TAG_MEMORY_MAP;
       case found of
         None \<Rightarrow> Some s
       | Some a \<Rightarrow>
           (let tag = mb2_tag_mmap m a;
                entry_size = (ucast (mmap_entry_size tag) :: u64);
                entry_count = (ucast ((ucast (tag_size tag) - 16 :: u64) div entry_size) :: u32)
            in if entry_size = 0 then None
               else Some (add_regions (unat entry_count) m (reserved_end kernel_end s) (a + 16) entry_size s))
     }"

definition pmm_init_range :: "u64 \<Rightarrow> u64 \<Rightarrow> u64 \<Rightarrow> pmm \<Rightarrow> pmm" where
  "pmm_init_range kernel_end mem_base mem_size s =
     (let s = s\<lparr>g_free_frame_count := 0\<rparr>
      in if mem_size = 0 then s
         else
           (let reserved = reserved_end kernel_end s;
                region_start = (if reserved > mem_base then reserved else mem_base);
                region_end = mem_base + mem_size
            in add_frames (mm_align_up_u64 region_start PMM_FRAME_SIZE) region_end s))"

subsection \<open>Allocating and releasing\<close>

definition pmm_alloc_frame :: "pmm \<Rightarrow> u64 option \<times> pmm" where
  "pmm_alloc_frame s =
     (if g_free_frame_count s = 0 then (None, s)
      else
        (let n = g_free_frame_count s - 1
         in (Some (g_free_frames s (unat n)), s\<lparr>g_free_frame_count := n\<rparr>)))"

text \<open>The inner loop: are the \<open>count\<close> entries from \<open>start\<close> consecutive frames?\<close>

definition contiguous_at :: "nat \<Rightarrow> nat \<Rightarrow> pmm \<Rightarrow> bool" where
  "contiguous_at start count s =
     (\<forall>i \<in> set [1..<count]. g_free_frames s (start + i) = g_free_frames s start + of_nat i * PMM_FRAME_SIZE)"

text \<open>Closing the gap that the entries leave.\<close>

definition close_gap :: "nat \<Rightarrow> nat \<Rightarrow> pmm \<Rightarrow> pmm" where
  "close_gap start count s =
     s\<lparr>g_free_frames := fold (\<lambda>t f. f(t - count := f t)) [start + count..<unat (g_free_frame_count s)] (g_free_frames s),
       g_free_frame_count := g_free_frame_count s - of_nat count\<rparr>"

fun contiguous_loop :: "nat list \<Rightarrow> nat \<Rightarrow> pmm \<Rightarrow> u64 option \<times> pmm" where
  "contiguous_loop [] count s = (None, s)"
| "contiguous_loop (start # starts) count s =
     (if contiguous_at start count s then (Some (g_free_frames s start), close_gap start count s)
      else contiguous_loop starts count s)"

definition pmm_alloc_contiguous :: "u32 \<Rightarrow> pmm \<Rightarrow> u64 option \<times> pmm" where
  "pmm_alloc_contiguous count s =
     (if count = 0 \<or> count > g_free_frame_count s then (None, s)
      else contiguous_loop [0..<unat (g_free_frame_count s) - unat count + 1] (unat count) s)"

definition pmm_free_frame :: "u64 \<Rightarrow> pmm \<Rightarrow> pmm" where
  "pmm_free_frame frame s =
     (if frame = 0 \<or> g_free_frame_count s \<ge> PMM_MAX_FREE_FRAMES then s else push_frame frame s)"

definition pmm_get_free_frame_count :: "pmm \<Rightarrow> u64" where
  "pmm_get_free_frame_count s = ucast (g_free_frame_count s)"

subsection \<open>The free frames as a list\<close>

definition frames :: "pmm \<Rightarrow> u64 list" where
  "frames s = map (g_free_frames s) [0..<unat (g_free_frame_count s)]"

lemma length_frames: "length (frames s) = unat (g_free_frame_count s)"
  by (simp add: frames_def)

lemma unat_inc_u32: "unat (x :: u32) < 32768 \<Longrightarrow> unat (x + 1) = unat x + 1"
  using unat_add_lem [of x 1] by simp

lemma frames_push:
  assumes "unat (g_free_frame_count s) < 32768"
  shows "frames (push_frame f s) = frames s @ [f]" and "unat (g_free_frame_count (push_frame f s)) = unat (g_free_frame_count s) + 1"
  using unat_inc_u32 [OF assms] by (simp_all add: frames_def push_frame_def)

lemma push_frame_reserved [simp]: "g_reserved_until (push_frame f s) = g_reserved_until s"
  by (simp add: push_frame_def)

text \<open>The addresses the loop over a region registers, as a function of the room left.\<close>

definition region_frames :: "u64 \<Rightarrow> u64 \<Rightarrow> nat \<Rightarrow> u64 list" where
  "region_frames f e room = map (\<lambda>i. f + of_nat i * PMM_FRAME_SIZE) [0..<min ((unat e - unat f) div 4096) room]"

lemma region_frames_Cons:
  assumes "unat f + 4096 \<le> unat e" and "unat e + 4096 < 2 ^ 64" and "room \<noteq> 0"
  shows "region_frames f e room = f # region_frames (f + 4096) e (room - 1)"
proof -
  have f: "unat (f + 4096) = unat f + 4096"
    using unat_add_u64 [of f 4096] assms by simp
  have k: "min ((unat e - unat f) div 4096) room = Suc (min ((unat e - unat (f + 4096)) div 4096) (room - 1))"
    using assms(1,3) unfolding f by (auto simp: min_def le_div_geq)
  show ?thesis
    unfolding region_frames_def k
    by (simp add: map_upt_Suc algebra_simps del: upt_Suc)
qed

lemma add_frames_spec:
  assumes "unat e + 4096 < 2 ^ 64" and "unat (g_free_frame_count s) \<le> 32768" and "unat f \<le> unat e"
  shows "frames (add_frames f e s) = frames s @ region_frames f e (32768 - unat (g_free_frame_count s))
    \<and> g_reserved_until (add_frames f e s) = g_reserved_until s
    \<and> unat (g_free_frame_count (add_frames f e s)) \<le> 32768"
  using assms
proof (induction f e s rule: add_frames.induct)
  case (1 f e s)
  have f: "unat (f + 4096) = unat f + 4096" using unat_add_u64 [of f 4096] 1(2,4) by simp
  show ?case
  proof (cases "f + 4096 \<le> e \<and> g_free_frame_count s < 32768")
    case True
    then have b: "unat f + 4096 \<le> unat e" "unat (g_free_frame_count s) < 32768"
      using f by (simp_all add: word_le_nat_alt word_less_nat_alt)
    note ih = 1(1) [OF True 1(2)]
    have "add_frames f e s = add_frames (f + 4096) e (push_frame f s)"
      using True by (subst add_frames.simps) simp
    then show ?thesis
      using ih b frames_push [OF b(2), of f] f region_frames_Cons [OF b(1) 1(2), of "32768 - unat (g_free_frame_count s)"]
      by (simp add: Suc_diff_Suc)
  next
    case False
    then have "min ((unat e - unat f) div 4096) (32768 - unat (g_free_frame_count s)) = 0"
      using f by (auto simp: word_le_nat_alt word_less_nat_alt min_def)
    moreover have "add_frames f e s = s" using False by (subst add_frames.simps) auto
    ultimately show ?thesis using 1(3) by (simp add: region_frames_def)
  qed
qed

lemma add_frames_none:
  assumes "unat e < unat f" and "unat f + 4096 < 2 ^ 64"
  shows "add_frames f e s = s"
proof -
  have "unat (f + 4096) = unat f + 4096" using unat_add_u64 [of f 4096] assms by simp
  with assms show ?thesis by (subst add_frames.simps) (simp add: word_le_nat_alt)
qed

lemma region_frames_at:
  fixes f e :: u64
  assumes "unat e < 2 ^ 64" and "i < (unat e - unat f) div 4096"
  shows "unat (f + of_nat i * 4096) = unat f + 4096 * i"
proof -
  have "4096 * i < unat e - unat f" using assms(2) by (simp add: less_eq_div_iff_mult_less_eq [symmetric] less_mult_imp_div_less)
  then have "unat f + 4096 * i < 2 ^ 64" using assms(1) by simp
  from unat_add_u64 [OF this] show ?thesis by (simp add: mult.commute)
qed

text \<open>The frames of a region that starts at an aligned address.\<close>

lemma region_frames_set:
  assumes "unat e + 4096 < 2 ^ 64" and "unat f \<le> unat e" and "4096 dvd unat f"
  shows "distinct (region_frames f e room)"
    and "x \<in> set (region_frames f e room) \<Longrightarrow> unat f \<le> unat x \<and> unat x + 4096 \<le> unat e \<and> 4096 dvd unat x"
    and "unat f \<le> unat x \<Longrightarrow> unat x + 4096 \<le> unat e \<Longrightarrow> 4096 dvd unat x \<Longrightarrow>
      x \<in> set (region_frames f e room) \<or> length (region_frames f e room) = room"
proof -
  let ?n = "(unat e - unat f) div 4096"
  have at: "unat (f + of_nat i * 4096) = unat f + 4096 * i" if "i < ?n" for i
    using region_frames_at [OF _ that] assms(1) by simp
  have "inj_on (\<lambda>i. f + of_nat i * 4096) {0..<min ?n room}"
    using at by (intro inj_onI) (simp add: word_unat_eq_iff)
  then show "distinct (region_frames f e room)"
    by (simp add: region_frames_def distinct_map)
  show "unat f \<le> unat x \<and> unat x + 4096 \<le> unat e \<and> 4096 dvd unat x" if "x \<in> set (region_frames f e room)"
  proof -
    obtain i where i: "i < ?n" "x = f + of_nat i * 4096" using \<open>x \<in> _\<close> by (auto simp: region_frames_def)
    have "4096 * Suc i \<le> 4096 * ?n" using i(1) by simp
    also have "\<dots> \<le> unat e - unat f" by (rule times_div_less_eq_dividend)
    finally show ?thesis using at [OF i(1)] i(2) assms(2,3) by simp
  qed
  show "x \<in> set (region_frames f e room) \<or> length (region_frames f e room) = room"
    if x: "unat f \<le> unat x" "unat x + 4096 \<le> unat e" "4096 dvd unat x"
  proof (cases "room \<le> ?n")
    case True
    then show ?thesis by (simp add: region_frames_def)
  next
    case False
    obtain i where i: "unat x = unat f + 4096 * i"
      using x(1,3) assms(3) by (metis dvd_diff_nat dvdE le_add_diff_inverse)
    then have "i < ?n" using x(2) by (simp add: Suc_le_eq [symmetric] less_eq_div_iff_mult_less_eq)
    moreover from this have "x = f + of_nat i * 4096" using at i by (simp add: word_unat_eq_iff)
    ultimately show ?thesis using False by (auto simp: region_frames_def)
  qed
qed

lemma unat_align_4096:
  "unat v + 4095 < 2 ^ 64 \<Longrightarrow> unat (mm_align_up_u64 v 4096) = (unat v + 4095) div 4096 * 4096"
  using unat_align_up [of v 12 4096] by (simp add: mm_align_up_u64_def)

lemma align_4096:
  assumes "unat v + 4095 < 2 ^ 64"
  shows "unat v \<le> unat (mm_align_up_u64 v 4096)" and "unat (mm_align_up_u64 v 4096) \<le> unat v + 4095"
    and "4096 dvd unat (mm_align_up_u64 v 4096)"
proof -
  let ?n = "(unat v + 4095) div 4096 * 4096"
  have "?n + (unat v + 4095) mod 4096 = unat v + 4095" by (rule div_mult_mod_eq)
  moreover have "(unat v + 4095) mod 4096 < 4096" by (rule mod_less_divisor) simp
  ultimately have "?n \<le> unat v + 4095" "unat v \<le> ?n" by linarith+
  moreover have "4096 dvd ?n" by (rule dvd_triv_right)
  ultimately show "unat v \<le> unat (mm_align_up_u64 v 4096)" and "unat (mm_align_up_u64 v 4096) \<le> unat v + 4095"
    and "4096 dvd unat (mm_align_up_u64 v 4096)" by (simp_all only: unat_align_4096 [OF assms])
qed

lemma align_4096_least:
  assumes "unat v + 4095 < 2 ^ 64" and "4096 dvd n" and "unat v \<le> n"
  shows "unat (mm_align_up_u64 v 4096) \<le> n"
proof -
  obtain q where q: "n = 4096 * q" using assms(2) by blast
  have "(unat v + 4095) div 4096 \<le> (4096 * q + 4095) div 4096" using assms(3) q by (intro div_le_mono) simp
  also have "\<dots> = q" by simp
  finally show ?thesis unfolding unat_align_4096 [OF assms(1)] q by (simp add: mult.commute)
qed

lemma reserved_end_bounds:
  assumes "unat kernel_end + 0x801000 < 2 ^ 64" and "unat (g_reserved_until s) + 4096 < 2 ^ 64"
  shows "unat kernel_end + 0x800000 \<le> unat (reserved_end kernel_end s)"
    and "unat (g_reserved_until s) \<le> unat (reserved_end kernel_end s)"
    and "4096 dvd unat (reserved_end kernel_end s)"
    and "unat (reserved_end kernel_end s) < max (unat kernel_end + 0x801000) (unat (g_reserved_until s) + 4096)"
proof -
  let ?k = "mm_align_up_u64 kernel_end 4096" and ?r = "mm_align_up_u64 (g_reserved_until s) 4096"
  have k: "unat kernel_end \<le> unat ?k" "unat ?k \<le> unat kernel_end + 4095" "4096 dvd unat ?k"
    using align_4096 [of kernel_end] assms(1) by simp_all
  have r: "unat (g_reserved_until s) \<le> unat ?r" "unat ?r \<le> unat (g_reserved_until s) + 4095" "4096 dvd unat ?r"
    using align_4096 [of "g_reserved_until s"] assms(2) by simp_all
  have u: "unat (?k + 0x800000) = unat ?k + 0x800000"
    using unat_add_u64 [of ?k "0x800000"] assms(1) k(2) by simp
  have d: "4096 dvd unat ?k + 0x800000" using k(3) by (simp add: dvd_add)
  show "unat kernel_end + 0x800000 \<le> unat (reserved_end kernel_end s)"
    and "unat (g_reserved_until s) \<le> unat (reserved_end kernel_end s)"
    and "4096 dvd unat (reserved_end kernel_end s)"
    and "unat (reserved_end kernel_end s) < max (unat kernel_end + 0x801000) (unat (g_reserved_until s) + 4096)"
    using k r d by (auto simp: reserved_end_def Let_def u word_less_nat_alt)
qed

subsection \<open>Frames are handed out once\<close>

datatype frame_req = One_frame | Contiguous u32

text \<open>The frames a request hands out.\<close>

definition pmm_take :: "frame_req \<Rightarrow> pmm \<Rightarrow> u64 list \<times> pmm" where
  "pmm_take q s =
     (case q of
        One_frame \<Rightarrow> single pmm_alloc_frame () s
      | Contiguous n \<Rightarrow>
          (case pmm_alloc_contiguous n s of
             (None, s') \<Rightarrow> ([], s')
           | (Some b, s') \<Rightarrow> (map (\<lambda>i. b + of_nat i * PMM_FRAME_SIZE) [0..<unat n], s')))"

definition pmm_inv :: "u64 set \<Rightarrow> pmm \<Rightarrow> bool" where
  "pmm_inv U s \<longleftrightarrow> finite U \<and> card U \<le> 32768 \<and> 0 \<notin> U \<and> distinct (frames s) \<and> set (frames s) \<subseteq> U"

definition pmm_live :: "u64 set \<Rightarrow> pmm \<Rightarrow> u64 set" where
  "pmm_live U s = U - set (frames s)"

lemma frames_pop:
  assumes "g_free_frame_count s \<noteq> 0"
  shows "frames s = frames (s\<lparr>g_free_frame_count := g_free_frame_count s - 1\<rparr>)
    @ [g_free_frames s (unat (g_free_frame_count s - 1))]"
proof -
  obtain n where n: "unat (g_free_frame_count s) = Suc n"
    using assms by (metis not0_implies_Suc unat_eq_zero)
  then have "unat (g_free_frame_count s - 1) = n"
    using assms by (simp add: unat_sub word_le_nat_alt)
  with n show ?thesis by (simp add: frames_def)
qed

lemma upt_split: "i \<le> j \<Longrightarrow> j \<le> k \<Longrightarrow> [i..<k] = [i..<j] @ [j..<k]"
  using upt_add_eq_append [of i j "k - j"] by simp

lemma shift_fold:
  assumes "a + c \<le> n"
  shows "fold (\<lambda>t f. f(t - c := f t)) [a + c..<n] f = (\<lambda>i. if a \<le> i \<and> i < n - c then f (i + c) else f i)"
  using assms
proof (induction n)
  case (Suc n)
  show ?case
  proof (cases "a + c = Suc n")
    case False
    then have "a + c \<le> n" using Suc.prems by simp
    with Suc.IH show ?thesis by (auto simp: fun_eq_iff)
  qed (auto simp: fun_eq_iff)
qed auto

lemma contiguous_loop_Some:
  assumes "contiguous_loop starts count s = (Some b, s')"
  obtains start where "start \<in> set starts" and "contiguous_at start count s" and "b = g_free_frames s start"
    and "s' = close_gap start count s"
  using assms by (induction starts) (auto split: if_splits)

lemma contiguous_loop_None: "contiguous_loop starts count s = (None, s') \<Longrightarrow> s' = s"
  by (induction starts) (auto split: if_splits)

lemma close_gap_frames:
  assumes "start + count \<le> unat (g_free_frame_count s)" and "contiguous_at start count s" and "count \<noteq> 0"
  obtains xs zs where "frames s = xs @ map (\<lambda>i. g_free_frames s start + of_nat i * 4096) [0..<count] @ zs"
    and "frames (close_gap start count s) = xs @ zs"
proof -
  let ?n = "unat (g_free_frame_count s)" and ?g = "g_free_frames s"
  have c: "count < 2 ^ 32" using assms(1) unat_u32_lt [of "g_free_frame_count s"] by simp
  have len: "unat (g_free_frame_count s - of_nat count) = ?n - count"
    using assms(1) c by (simp add: unat_sub word_le_nat_alt unat_of_nat_u32)
  have split: "[0..<?n] = [0..<start] @ [start..<start + count] @ [start + count..<?n]"
    using assms(1) upt_split [of 0 start ?n] upt_split [of start "start + count" ?n] by simp
  have mid: "map ?g [start..<start + count] = map (\<lambda>i. ?g start + of_nat i * 4096) [0..<count]"
  proof (rule nth_equalityI)
    fix i
    assume "i < length (map ?g [start..<start + count])"
    then have i: "i < count" by simp
    then show "map ?g [start..<start + count] ! i = map (\<lambda>i. ?g start + of_nat i * 4096) [0..<count] ! i"
      using assms(2) by (cases "i = 0") (simp_all add: contiguous_at_def Suc_le_eq)
  qed simp
  have low: "map (\<lambda>i. if start \<le> i \<and> i < ?n - count then ?g (i + count) else ?g i) [0..<start] = map ?g [0..<start]"
    by (rule map_cong) auto
  have high: "map (\<lambda>i. if start \<le> i \<and> i < ?n - count then ?g (i + count) else ?g i) [start..<?n - count]
      = map ?g [start + count..<?n]"
  proof (rule nth_equalityI)
    fix i
    assume "i < length (map (\<lambda>i. if start \<le> i \<and> i < ?n - count then ?g (i + count) else ?g i) [start..<?n - count])"
    then have i: "start + i < ?n - count" by simp
    then have "start + count + i < ?n" by simp
    with i show "map (\<lambda>i. if start \<le> i \<and> i < ?n - count then ?g (i + count) else ?g i) [start..<?n - count] ! i
        = map ?g [start + count..<?n] ! i"
      by (simp add: add.commute add.left_commute)
  qed (use assms(1) in simp)
  have "[0..<?n - count] = [0..<start] @ [start..<?n - count]"
    using assms(1) upt_split [of 0 start "?n - count"] by simp
  then have "frames (close_gap start count s) = map ?g [0..<start] @ map ?g [start + count..<?n]"
    using low high by (simp add: frames_def close_gap_def shift_fold [OF assms(1)] len)
  moreover have "frames s = map ?g [0..<start] @ map (\<lambda>i. ?g start + of_nat i * 4096) [0..<count] @ map ?g [start + count..<?n]"
    unfolding frames_def split using mid by simp
  ultimately show ?thesis by (rule that [rotated])
qed

lemma pmm_take_cases:
  assumes "pmm_take q s = (new, s')"
  obtains xs zs where "frames s = xs @ new @ zs" and "frames s' = xs @ zs"
proof (cases q)
  case One_frame
  show ?thesis
  proof (cases "g_free_frame_count s = 0")
    case True
    then have "new = []" "s' = s"
      using assms One_frame by (simp_all add: pmm_take_def single_def pmm_alloc_frame_def)
    then show ?thesis by (intro that [of "frames s" "[]"]) simp_all
  next
    case False
    then have "new = [g_free_frames s (unat (g_free_frame_count s - 1))]"
      "s' = s\<lparr>g_free_frame_count := g_free_frame_count s - 1\<rparr>"
      using assms One_frame by (simp_all add: pmm_take_def single_def pmm_alloc_frame_def Let_def)
    then show ?thesis using frames_pop [OF False] by (intro that [of "frames s'" "[]"]) simp_all
  qed
next
  case (Contiguous n)
  show ?thesis
  proof (cases "n = 0 \<or> n > g_free_frame_count s \<or> fst (pmm_alloc_contiguous n s) = None")
    case True
    then have "new = [] \<and> s' = s"
      using assms Contiguous contiguous_loop_None
      by (auto simp: pmm_take_def pmm_alloc_contiguous_def split: prod.splits option.splits if_splits)
    then show ?thesis by (intro that [of "frames s" "[]"]) simp_all
  next
    case False
    let ?st = "[0..<unat (g_free_frame_count s) - unat n + 1]"
    obtain b where b: "contiguous_loop ?st (unat n) s = (Some b, s')"
      "new = map (\<lambda>i. b + of_nat i * 4096) [0..<unat n]"
      using assms Contiguous False
      by (auto simp: pmm_take_def pmm_alloc_contiguous_def split: prod.splits option.splits if_splits)
    obtain start where st: "start \<in> set ?st" "contiguous_at start (unat n) s" "b = g_free_frames s start"
      "s' = close_gap start (unat n) s" using b(1) by (rule contiguous_loop_Some)
    have le: "start + unat n \<le> unat (g_free_frame_count s)"
      using st(1) False by (auto simp: not_less word_le_nat_alt)
    have "unat n \<noteq> 0" using False by (simp add: unat_eq_zero)
    then show ?thesis
      by (rule close_gap_frames [OF le st(2)]) (use st b(2) that in auto)
  qed
qed

lemma pmm_inv_bound: "pmm_inv U s \<Longrightarrow> unat (g_free_frame_count s) \<le> 32768"
  using card_mono [of U "set (frames s)"] by (auto simp: pmm_inv_def distinct_card length_frames)

interpretation pm: resource_pool "pmm_inv U" "pmm_live U" pmm_take pmm_free_frame for U
proof
  fix q s new s'
  assume inv: "pmm_inv U s" and "pmm_take q s = (new, s')"
  from this(2) obtain xs zs where "frames s = xs @ new @ zs" "frames s' = xs @ zs" by (rule pmm_take_cases)
  with inv show "distinct new \<and> set new \<inter> pmm_live U s = {} \<and> pmm_live U s' = pmm_live U s \<union> set new \<and> pmm_inv U s'"
    by (auto simp: pmm_inv_def pmm_live_def)
next
  fix s r
  assume inv: "pmm_inv U s" and r: "r \<in> pmm_live U s"
  then have "set (frames s) \<subset> U" by (auto simp: pmm_inv_def pmm_live_def)
  then have "card (set (frames s)) < card U" using inv by (intro psubset_card_mono) (auto simp: pmm_inv_def)
  then have lt: "unat (g_free_frame_count s) < 32768" using inv by (simp add: pmm_inv_def distinct_card length_frames)
  have "r \<noteq> 0" using inv r by (auto simp: pmm_inv_def pmm_live_def)
  with lt have "pmm_free_frame r s = push_frame r s" by (auto simp: pmm_free_frame_def word_le_nat_alt)
  then show "pmm_live U (pmm_free_frame r s) = pmm_live U s - {r} \<and> pmm_inv U (pmm_free_frame r s)"
    using inv r frames_push(1) [OF lt, of r] by (auto simp: pmm_inv_def pmm_live_def)
qed

subsection \<open>Properties\<close>

lemma init_range_frames:
  assumes k: "unat kernel_end + 0x803000 < 2 ^ 64" and r: "unat (g_reserved_until s) + 0x3000 < 2 ^ 64"
    and b: "unat mem_base + unat mem_size + 0x2000 < 2 ^ 64"
  obtains start where "frames (pmm_init_range kernel_end mem_base mem_size s) =
      (if unat start \<le> unat (mem_base + mem_size) then region_frames start (mem_base + mem_size) 32768 else [])"
    and "4096 dvd unat start" and "unat (reserved_end kernel_end s) \<le> unat start" and "unat mem_base \<le> unat start"
    and "\<forall>n. 4096 dvd n \<and> unat (reserved_end kernel_end s) \<le> n \<and> unat mem_base \<le> n \<longrightarrow> unat start \<le> n"
proof -
  let ?r = "reserved_end kernel_end s" and ?e = "mem_base + mem_size"
  let ?m = "if ?r > mem_base then ?r else mem_base"
  let ?st = "mm_align_up_u64 ?m 4096" and ?s = "s\<lparr>g_free_frame_count := 0\<rparr>"
  have re: "reserved_end kernel_end ?s = ?r" by (simp add: reserved_end_def Let_def)
  have rb: "unat ?r < max (unat kernel_end + 0x801000) (unat (g_reserved_until s) + 4096)"
    using reserved_end_bounds(4) [of kernel_end s] k r by simp
  have m: "unat ?m + 0x2000 < 2 ^ 64" using rb k r b by auto
  have e: "unat ?e = unat mem_base + unat mem_size"
    using unat_add_lem [of mem_base mem_size] b by simp
  have st: "unat ?m \<le> unat ?st" "unat ?st \<le> unat ?m + 4095" "4096 dvd unat ?st"
    using align_4096 [of ?m] m by simp_all
  have ge: "unat ?r \<le> unat ?st" "unat mem_base \<le> unat ?st"
    using st(1) by (auto simp: word_less_nat_alt split: if_splits)
  have "frames (pmm_init_range kernel_end mem_base mem_size s) =
      (if unat ?st \<le> unat ?e then region_frames ?st ?e 32768 else [])"
  proof (cases "mem_size = 0")
    case True
    then have "region_frames ?st ?e 32768 = []" using ge(2) by (simp add: region_frames_def)
    with True show ?thesis by (simp add: pmm_init_range_def frames_def)
  next
    case False
    then have eq: "pmm_init_range kernel_end mem_base mem_size s = add_frames ?st ?e ?s"
      by (simp add: pmm_init_range_def re Let_def)
    show ?thesis
    proof (cases "unat ?st \<le> unat ?e")
      case True
      then show ?thesis using add_frames_spec [of ?e ?s ?st] e b by (simp add: eq frames_def)
    next
      case False
      then have "add_frames ?st ?e ?s = ?s" using st(2) m by (intro add_frames_none) auto
      with False show ?thesis by (simp add: eq frames_def)
    qed
  qed
  moreover have "unat ?st \<le> n" if "4096 dvd n" "unat ?r \<le> n" "unat mem_base \<le> n" for n
    using that m by (intro align_4096_least) auto
  ultimately show ?thesis using st(3) ge by (intro that [of ?st]) blast+
qed

text \<open>What the frames of a machine look like to its users.\<close>

definition usable_frame :: "u64 \<Rightarrow> pmm \<Rightarrow> u64 \<Rightarrow> bool" where
  "usable_frame kernel_end s x \<longleftrightarrow> 4096 dvd unat x \<and> unat kernel_end + 0x800000 \<le> unat x
     \<and> unat (g_reserved_until s) \<le> unat x"

lemma usable_frame_reserved:
  assumes "unat kernel_end + 0x803000 < 2 ^ 64" and "unat (g_reserved_until s) + 0x3000 < 2 ^ 64"
  shows "usable_frame kernel_end s x \<longleftrightarrow> 4096 dvd unat x \<and> unat (reserved_end kernel_end s) \<le> unat x"
proof
  assume x: "usable_frame kernel_end s x"
  then have "4096 dvd unat x - 0x800000" by (simp add: usable_frame_def dvd_diff_nat)
  then have "unat (mm_align_up_u64 kernel_end 4096) \<le> unat x - 0x800000"
    using x assms by (intro align_4096_least) (auto simp: usable_frame_def)
  moreover have "unat (mm_align_up_u64 kernel_end 4096 + 0x800000) = unat (mm_align_up_u64 kernel_end 4096) + 0x800000"
    using unat_add_u64 [of "mm_align_up_u64 kernel_end 4096" "0x800000"] align_4096(2) [of kernel_end] assms(1) by simp
  moreover have "unat (mm_align_up_u64 (g_reserved_until s) 4096) \<le> unat x"
    using x assms by (intro align_4096_least) (auto simp: usable_frame_def)
  ultimately show "4096 dvd unat x \<and> unat (reserved_end kernel_end s) \<le> unat x"
    using x by (auto simp: reserved_end_def Let_def usable_frame_def)
next
  assume "4096 dvd unat x \<and> unat (reserved_end kernel_end s) \<le> unat x"
  then show "usable_frame kernel_end s x"
    using reserved_end_bounds(1,2) [of kernel_end s] assms by (simp add: usable_frame_def)
qed

text \<open>
  C11. Page frames are exclusive and lie where they may: after \<open>pmm_init_range\<close> the free frames are
  page-aligned, inside the given region and above the kernel, the heap and the reserved range,
  and there are at most 32768 of them, less only when every such frame is registered. From then
  on, whatever single and contiguous allocations are made and whatever held frames are returned,
  the frames held are pairwise different frames of that set.
\<close>

theorem pmm_frames_exclusive:
  assumes "unat kernel_end + 0x803000 < 2 ^ 64" and "unat (g_reserved_until s) + 0x3000 < 2 ^ 64"
    and "unat mem_base + unat mem_size + 0x2000 < 2 ^ 64"
    and "pool_run pmm_take pmm_free_frame reqs [] (pmm_init_range kernel_end mem_base mem_size s) = (held, s')"
  shows "distinct held
    \<and> (\<forall>x \<in> set held. usable_frame kernel_end s x \<and> unat mem_base \<le> unat x \<and> unat x + 4096 \<le> unat mem_base + unat mem_size)
    \<and> length (frames (pmm_init_range kernel_end mem_base mem_size s)) \<le> 32768
    \<and> (\<forall>x. usable_frame kernel_end s x \<and> unat mem_base \<le> unat x \<and> unat x + 4096 \<le> unat mem_base + unat mem_size
         \<longrightarrow> x \<in> set (frames (pmm_init_range kernel_end mem_base mem_size s))
           \<or> length (frames (pmm_init_range kernel_end mem_base mem_size s)) = 32768)"
proof -
  let ?s = "pmm_init_range kernel_end mem_base mem_size s" and ?e = "mem_base + mem_size"
  obtain start where fr: "frames ?s = (if unat start \<le> unat ?e then region_frames start ?e 32768 else [])"
    and st: "4096 dvd unat start" "unat (reserved_end kernel_end s) \<le> unat start" "unat mem_base \<le> unat start"
    and least: "\<forall>n. 4096 dvd n \<and> unat (reserved_end kernel_end s) \<le> n \<and> unat mem_base \<le> n \<longrightarrow> unat start \<le> n"
    by (rule init_range_frames [OF assms(1-3)])
  have e: "unat ?e = unat mem_base + unat mem_size" using unat_add_lem [of mem_base mem_size] assms(3) by simp
  note us = usable_frame_reserved [OF assms(1,2)]
  have e64: "unat ?e + 4096 < 2 ^ 64" using e assms(3) by simp
  have members: "usable_frame kernel_end s x \<and> unat mem_base \<le> unat x \<and> unat x + 4096 \<le> unat ?e"
    if "x \<in> set (frames ?s)" for x
    using that region_frames_set(2) [OF e64 _ st(1), of x 32768] fr st us by (auto split: if_splits)
  have dist: "distinct (frames ?s)" "length (frames ?s) \<le> 32768"
    using fr region_frames_set(1) [OF e64 _ st(1)] by (auto simp: region_frames_def)
  have "x \<noteq> 0" if "x \<in> set (frames ?s)" for x using members [OF that] by (auto simp: usable_frame_def)
  then have "pmm_inv (set (frames ?s)) ?s"
    using dist by (auto simp: pmm_inv_def distinct_card)
  then have run: "distinct held" "set held \<subseteq> pmm_live (set (frames ?s)) s'"
    using pm.run_exclusive [OF _ _ _ assms(4), of "set (frames ?s)"] by auto
  then have "set held \<subseteq> set (frames ?s)" by (auto simp: pmm_live_def)
  moreover have "x \<in> set (frames ?s) \<or> length (frames ?s) = 32768"
    if "usable_frame kernel_end s x" "unat mem_base \<le> unat x" "unat x + 4096 \<le> unat ?e" for x
  proof -
    have "unat start \<le> unat x" using least that us by blast
    then show ?thesis using region_frames_set(3) [OF e64 _ st(1), of x 32768] that fr by (auto simp: usable_frame_def)
  qed
  ultimately show ?thesis using run(1) dist(2) members e by (auto simp: subset_iff)
qed

definition example_pmm :: pmm where
  "example_pmm = \<lparr>g_free_frames = (\<lambda>_. 0), g_free_frame_count = 0, g_reserved_until = 0\<rparr>"

definition example_frames :: "u64 list \<times> pmm" where
  "example_frames = pool_run pmm_take pmm_free_frame [Acquire One_frame, Acquire (Contiguous 2)] []
     (pmm_init_range 0x200000 0xA00000 0x4000 example_pmm)"

lemma example_frames_held: "fst example_frames = [0xA00000, 0xA01000, 0xA03000]"
  by code_simp

theorem pmm_frames_exclusive_witness:
  "fst example_frames = [0xA00000, 0xA01000, 0xA03000] \<and> distinct (fst example_frames)
   \<and> list_all (usable_frame 0x200000 example_pmm) (fst example_frames)"
  using pmm_frames_exclusive [of "0x200000" example_pmm "0xA00000" "0x4000"
      "[Acquire One_frame, Acquire (Contiguous 2)]" "fst example_frames" "snd example_frames"]
    example_frames_held
  by (simp add: example_frames_def list_all_iff) (simp add: example_pmm_def)

text \<open>The entries of a memory map that say what memory may be used.\<close>

definition map_entry :: "mem \<Rightarrow> u64 \<Rightarrow> u64 \<Rightarrow> nat \<Rightarrow> mb2_mmap_entry_t" where
  "map_entry m a entry_size i = mb2_mmap_entry m (a + 16 + of_nat i * entry_size)"

definition available :: "mb2_mmap_entry_t \<Rightarrow> u64 \<Rightarrow> bool" where
  "available e x \<longleftrightarrow> entry_type e = MB2_MEMORY_AVAILABLE \<and> unat (entry_base_addr e) \<le> unat x
     \<and> unat x + 4096 \<le> unat (entry_base_addr e) + unat (entry_length e)"

definition entry_ok :: "mb2_mmap_entry_t \<Rightarrow> bool" where
  "entry_ok e \<longleftrightarrow> unat (entry_base_addr e) + unat (entry_length e) + 0x2000 < 2 ^ 64"

lemma add_region_frames:
  assumes "entry_ok e" and "4096 dvd unat reserved" and "unat reserved + 0x2000 < 2 ^ 64"
    and "unat (g_free_frame_count s) \<le> 32768"
  obtains new where "frames (add_region reserved e s) = frames s @ new"
    and "\<forall>x \<in> set new. available e x \<and> 4096 dvd unat x \<and> unat reserved \<le> unat x \<and> 0x100000 \<le> unat x"
    and "unat (g_free_frame_count (add_region reserved e s)) \<le> 32768"
proof (cases "entry_type e = MB2_MEMORY_AVAILABLE")
  case False
  then show ?thesis using assms(4) by (intro that [of "[]"]) (simp_all add: add_region_def)
next
  case True
  let ?b = "entry_base_addr e" and ?e = "entry_base_addr e + entry_length e"
  let ?a = "mm_align_up_u64 ?b 4096"
  let ?st = "mm_max_u64 (mm_max_u64 ?a 0x100000) reserved"
  have a: "unat ?b \<le> unat ?a" "unat ?a \<le> unat ?b + 4095" "4096 dvd unat ?a"
    using align_4096 [of ?b] assms(1) by (simp_all add: entry_ok_def)
  have e: "unat ?e = unat ?b + unat (entry_length e)"
    using unat_add_lem [of ?b "entry_length e"] assms(1) by (simp add: entry_ok_def)
  have st: "unat ?b \<le> unat ?st" "4096 dvd unat ?st" "unat reserved \<le> unat ?st" "0x100000 \<le> unat ?st"
    "unat ?st + 4096 < 2 ^ 64"
    using a assms(1-3) by (auto simp: mm_max_u64_def word_less_nat_alt entry_ok_def)
  have eq: "add_region reserved e s = add_frames ?st ?e s" using True by (simp add: add_region_def Let_def)
  show ?thesis
  proof (cases "unat ?st \<le> unat ?e")
    case False
    then show ?thesis using st(5) assms(4) by (intro that [of "[]"]) (simp_all add: eq add_frames_none)
  next
    case le: True
    have e64: "unat ?e + 4096 < 2 ^ 64" using e assms(1) by (simp add: entry_ok_def)
    note sp = add_frames_spec [OF e64 assms(4) le]
    show ?thesis
    proof (rule that)
      show "frames (add_region reserved e s) = frames s @ region_frames ?st ?e (32768 - unat (g_free_frame_count s))"
        and "unat (g_free_frame_count (add_region reserved e s)) \<le> 32768" using sp eq by simp_all
      show "\<forall>x \<in> set (region_frames ?st ?e (32768 - unat (g_free_frame_count s))).
          available e x \<and> 4096 dvd unat x \<and> unat reserved \<le> unat x \<and> 0x100000 \<le> unat x"
        using region_frames_set(2) [OF e64 le st(2)] st e True by (fastforce simp: available_def)
    qed
  qed
qed

lemma add_regions_frames:
  assumes "\<forall>i < n. entry_ok (mb2_mmap_entry m (a + of_nat i * sz))" and "4096 dvd unat reserved"
    and "unat reserved + 0x2000 < 2 ^ 64" and "unat (g_free_frame_count s) \<le> 32768"
  shows "\<exists>new. frames (add_regions n m reserved a sz s) = frames s @ new
    \<and> (\<forall>x \<in> set new. (\<exists>i < n. available (mb2_mmap_entry m (a + of_nat i * sz)) x)
         \<and> 4096 dvd unat x \<and> unat reserved \<le> unat x \<and> 0x100000 \<le> unat x)
    \<and> unat (g_free_frame_count (add_regions n m reserved a sz s)) \<le> 32768"
  using assms(1,4)
proof (induction n arbitrary: a s)
  case 0
  then show ?case by simp
next
  case (Suc n)
  let ?s = "add_region reserved (mb2_mmap_entry m a) s"
  have "entry_ok (mb2_mmap_entry m a)" using Suc.prems(1) by (metis add.right_neutral mult_zero_left of_nat_0 zero_less_Suc)
  then obtain new where new: "frames ?s = frames s @ new"
    "\<forall>x \<in> set new. available (mb2_mmap_entry m a) x \<and> 4096 dvd unat x \<and> unat reserved \<le> unat x \<and> 0x100000 \<le> unat x"
    "unat (g_free_frame_count ?s) \<le> 32768"
    using add_region_frames [OF _ assms(2,3) Suc.prems(2)] by metis
  have shift: "a + sz + of_nat i * sz = a + of_nat (Suc i) * sz" for i by (simp add: algebra_simps)
  have "\<forall>i < n. entry_ok (mb2_mmap_entry m (a + sz + of_nat i * sz))"
    using Suc.prems(1) by (simp add: shift del: of_nat_Suc)
  from Suc.IH [OF this new(3)] obtain new' where new':
    "frames (add_regions n m reserved (a + sz) sz ?s) = frames ?s @ new'"
    "\<forall>x \<in> set new'. (\<exists>i < n. available (mb2_mmap_entry m (a + of_nat (Suc i) * sz)) x)
         \<and> 4096 dvd unat x \<and> unat reserved \<le> unat x \<and> 0x100000 \<le> unat x"
    "unat (g_free_frame_count (add_regions n m reserved (a + sz) sz ?s)) \<le> 32768"
    unfolding shift by blast
  have "\<exists>i < Suc n. available (mb2_mmap_entry m (a + of_nat i * sz)) x" if "x \<in> set (new @ new')" for x
  proof (cases "x \<in> set new")
    case True
    then have "available (mb2_mmap_entry m (a + of_nat 0 * sz)) x" using new(2) by simp
    then show ?thesis by blast
  next
    case False
    then show ?thesis using new'(2) that by (metis Suc_less_eq Un_iff set_append)
  qed
  then show ?case using new new' by (intro exI [of _ "new @ new'"]) auto
qed

lemma pmm_init_frames:
  fixes m :: mem
  defines "tag \<equiv> mb2_tag_mmap m"
  assumes "mb2_find_tag m info MB2_TAG_MEMORY_MAP = Some (Some a)" and "mmap_entry_size (tag a) \<noteq> 0"
    and "n = unat (ucast ((ucast (tag_size (tag a)) - 16 :: u64) div ucast (mmap_entry_size (tag a))) :: u32)"
    and "\<forall>i < n. entry_ok (map_entry m a (ucast (mmap_entry_size (tag a))) i)"
    and "unat kernel_end + 0x803000 < 2 ^ 64" and "unat (g_reserved_until s) + 0x3000 < 2 ^ 64"
  shows "\<exists>s'. pmm_init m kernel_end info s = Some s' \<and> length (frames s') \<le> 32768
    \<and> (\<forall>x \<in> set (frames s'). usable_frame kernel_end s x \<and> 0x100000 \<le> unat x
         \<and> (\<exists>i < n. available (map_entry m a (ucast (mmap_entry_size (tag a))) i) x))"
proof -
  let ?s = "s\<lparr>g_free_frame_count := 0\<rparr>" and ?r = "reserved_end kernel_end s"
  let ?sz = "ucast (mmap_entry_size (mb2_tag_mmap m a)) :: u64"
  have re: "reserved_end kernel_end ?s = ?r" by (simp add: reserved_end_def Let_def)
  have r: "4096 dvd unat ?r" "unat ?r + 0x2000 < 2 ^ 64"
    using reserved_end_bounds(3,4) [of kernel_end s] assms(6,7) by simp_all
  have sz: "?sz \<noteq> 0" using assms(3) by (simp add: tag_def word_unat_eq_iff unat_ucast_u64)
  have "frames ?s = []" by (simp add: frames_def)
  then obtain new where new: "frames (add_regions n m ?r (a + 16) ?sz ?s) = new"
    "\<forall>x \<in> set new. (\<exists>i < n. available (map_entry m a ?sz i) x) \<and> 4096 dvd unat x \<and> unat ?r \<le> unat x \<and> 0x100000 \<le> unat x"
    "unat (g_free_frame_count (add_regions n m ?r (a + 16) ?sz ?s)) \<le> 32768"
    using add_regions_frames [OF _ r, of n m "a + 16" ?sz ?s] assms(5) by (auto simp: map_entry_def tag_def)
  have "pmm_init m kernel_end info s = Some (add_regions n m ?r (a + 16) ?sz ?s)"
    using assms(2,4) sz by (simp add: pmm_init_def re Let_def tag_def)
  then show ?thesis
    using new usable_frame_reserved [OF assms(6,7)] by (auto simp: length_frames tag_def)
qed

text \<open>
  C18. \<open>pmm_init\<close> registers only memory that the boot loader reports as available: given a memory
  map tag with a non-zero entry size whose entries do not wrap around the address space, it
  returns, and every free frame is page-aligned, lies inside an available entry, above 1 MiB and
  above the kernel image, the heap and the reserved range; the stack holds at most 32768 frames.
\<close>

theorem pmm_init_available:
  fixes m :: mem
  defines "tag \<equiv> mb2_tag_mmap m"
  assumes "mb2_find_tag m info MB2_TAG_MEMORY_MAP = Some (Some a)" and "mmap_entry_size (tag a) \<noteq> 0"
    and "n = unat (ucast ((ucast (tag_size (tag a)) - 16 :: u64) div ucast (mmap_entry_size (tag a))) :: u32)"
    and "\<forall>i < n. entry_ok (map_entry m a (ucast (mmap_entry_size (tag a))) i)"
    and "unat kernel_end + 0x803000 < 2 ^ 64" and "unat (g_reserved_until s) + 0x3000 < 2 ^ 64"
  shows "\<exists>s'. pmm_init m kernel_end info s = Some s' \<and> length (frames s') \<le> 32768
    \<and> (\<forall>x \<in> set (frames s'). usable_frame kernel_end s x \<and> 0x100000 \<le> unat x
         \<and> (\<exists>i < n. available (map_entry m a (ucast (mmap_entry_size (tag a))) i) x))"
  using assms(2-) unfolding tag_def by (rule pmm_init_frames)

definition example_map_bytes :: "u8 list" where
  "example_map_bytes = [48, 0, 0, 0, 0, 0, 0, 0,
     6, 0, 0, 0, 40, 0, 0, 0, 24, 0, 0, 0, 0, 0, 0, 0,
     0, 0, 0xA0, 0, 0, 0, 0, 0, 0, 0x40, 0, 0, 0, 0, 0, 0, 1, 0, 0, 0, 0, 0, 0, 0]"

definition example_map :: mem where
  "example_map a = (let i = unat (a - 0x1000) in if i < 48 then example_map_bytes ! i else 0)"

lemma example_map_fields:
  "read_u32 example_map 0x1000 = 48" "mb2_tag example_map 0x1008 = \<lparr>tag_type = 6, tag_size = 40\<rparr>"
  "mb2_tag_mmap example_map 0x1008 = \<lparr>tag_type = 6, tag_size = 40, mmap_entry_size = 24, mmap_entry_version = 0\<rparr>"
  "mb2_mmap_entry example_map 0x1018 = \<lparr>entry_base_addr = 0xA00000, entry_length = 0x4000, entry_type = 1\<rparr>"
  by (simp_all add: mb2_tag_def mb2_tag_mmap_def mb2_mmap_entry_def read_u32_def read_u64_def read_nat_4 read_nat_8
      example_map_def example_map_bytes_def)

theorem pmm_init_available_witness:
  "\<exists>s'. pmm_init example_map 0x200000 0x1000 example_pmm = Some s'
    \<and> (\<forall>x \<in> set (frames s'). usable_frame 0x200000 example_pmm x)"
proof -
  have f: "mb2_find_tag example_map 0x1000 6 = Some (Some 0x1008)"
    unfolding mb2_find_tag_def by (subst find_tag_walk.simps) (simp add: example_map_fields)
  have one: "entry_ok (map_entry example_map 0x1008 24 0)"
    by (simp add: map_entry_def example_map_fields entry_ok_def)
  show ?thesis
    using pmm_init_available [of example_map "0x1000" "0x1008" 1 "0x200000" example_pmm] f one
    by (auto simp: example_map_fields example_pmm_def)
qed

end
