(* ===== verification/Boot_Memory.thy ===== *)
theory Boot_Memory
  imports Initramfs Pmm
begin

text \<open>
  How the kernel divides physical memory at boot: the part of \<open>kernel_main\<close> (\<^verbatim>\<open>src/kernel/main.c\<close>) and of
  \<open>kernel_main_aarch64\<close> (\<^verbatim>\<open>src/kernel/main_aarch64.c\<close>) from the discovery of the boot module to the
  initialised heap and ramdisk. The state composes the frame allocator, the heap and the ramdisk; the
  machine's memory is that of the heap. \<open>kernel_end\<close> is the address of the linker symbol. Serial
  output, descriptor tables and the framebuffer are not modelled; on AArch64 the memory and the
  module that the device tree reports are arguments.
\<close>

record kernel_state =
  g_initramfs_start :: u32
  g_initramfs_size :: u32
  k_pmm :: pmm
  k_boot :: boot_state

abbreviation k_mem :: "kernel_state \<Rightarrow> mem" where "k_mem st \<equiv> b_mem (k_boot st)"
abbreviation k_heap :: "kernel_state \<Rightarrow> kheap" where "k_heap st \<equiv> b_heap (k_boot st)"
abbreviation (input) "ZACLR_ROOT_PROVIDER_HEAP_BYTES \<equiv> (32 * 1024 * 1024 :: u64)"

definition mm_align_up_uintptr :: "u64 \<Rightarrow> u64 \<Rightarrow> u64" where
  "mm_align_up_uintptr v alignment = (v + alignment - 1) AND NOT (alignment - 1)"

definition boot_get_heap_floor :: "u64 \<Rightarrow> kernel_state \<Rightarrow> u64" where
  "boot_get_heap_floor kernel_end st =
     (let heap_floor = mm_align_up_uintptr kernel_end 4096
      in if g_initramfs_size st \<noteq> 0 then
           (let module_end = mm_align_up_uintptr (ucast (g_initramfs_start st) + ucast (g_initramfs_size st)) 4096
            in if module_end > heap_floor then module_end else heap_floor)
         else heap_floor)"

definition boot_get_heap_reservation_bytes :: "kernel_state \<Rightarrow> u64" where
  "boot_get_heap_reservation_bytes st =
     (let initramfs_extra = initramfs_required_heap_bytes (k_mem st) (ucast (g_initramfs_start st)) (g_initramfs_size st);
          required = EARLY_HEAP_SIZE + ZACLR_ROOT_PROVIDER_HEAP_BYTES
      in if ucast initramfs_extra > required then ucast initramfs_extra else required)"

definition boot_discover_initramfs :: "u64 \<Rightarrow> kernel_state \<Rightarrow> kernel_state option" where
  "boot_discover_initramfs mb_info st =
     do {
       found \<leftarrow> mb2_find_tag (k_mem st) mb_info MB2_TAG_MODULE;
       case found of
         None \<Rightarrow> Some st
       | Some a \<Rightarrow>
           (let tag = mb2_tag_module (k_mem st) a
            in Some (st\<lparr>g_initramfs_start := mod_start tag, g_initramfs_size := mod_end tag - mod_start tag\<rparr>))
     }"

text \<open>From the discovered module to the initialised frame allocator and heap.\<close>

definition upd_heap :: "(kheap \<Rightarrow> kheap) \<Rightarrow> kernel_state \<Rightarrow> kernel_state" where
  "upd_heap f st = st\<lparr>k_boot := (k_boot st)\<lparr>b_heap := f (k_heap st)\<rparr>\<rparr>"

definition boot_memory :: "u64 \<Rightarrow> u64 \<Rightarrow> kernel_state \<Rightarrow> kernel_state option" where
  "boot_memory kernel_end mb_info st =
     do {
       st \<leftarrow> boot_discover_initramfs mb_info st;
       let st = st\<lparr>k_pmm := pmm_reserve_until (boot_get_heap_floor kernel_end st + boot_get_heap_reservation_bytes st) (k_pmm st)\<rparr>;
       p \<leftarrow> pmm_init (k_mem st) kernel_end mb_info (k_pmm st);
       let st = st\<lparr>k_pmm := p\<rparr>;
       let st = upd_heap (kheap_set_size (boot_get_heap_reservation_bytes st)) st;
       let st = upd_heap (kheap_reserve_until (boot_get_heap_floor kernel_end st)) st;
       Some (upd_heap (kheap_init kernel_end) st)
     }"

definition boot_start :: "uninit \<Rightarrow> u64 \<Rightarrow> u64 \<Rightarrow> kernel_state \<Rightarrow> kernel_state option" where
  "boot_start u kernel_end mb_info st =
     do {
       st \<leftarrow> boot_memory kernel_end mb_info st;
       (heap_probe, h) \<leftarrow> kheap_alloc 64 (k_heap st);
       let st = upd_heap (\<lambda>_. h) st;
       b \<leftarrow> initramfs_bootstrap u (ucast (g_initramfs_start st)) (g_initramfs_size st) (k_boot st);
       Some (st\<lparr>k_boot := b\<rparr>)
     }"

definition boot_memory_aarch64 :: "u64 \<Rightarrow> u64 \<Rightarrow> u64 \<Rightarrow> u64 \<Rightarrow> u64 \<Rightarrow> kernel_state \<Rightarrow> kernel_state" where
  "boot_memory_aarch64 kernel_end mem_base mem_size initrd_start initrd_end st =
     (let heap_reservation_bytes = ucast (initramfs_required_heap_bytes (k_mem st) initrd_start (ucast (initrd_end - initrd_start)));
          provider_heap_bytes = EARLY_HEAP_SIZE + ZACLR_ROOT_PROVIDER_HEAP_BYTES;
          heap_reservation_bytes = (if heap_reservation_bytes < provider_heap_bytes then provider_heap_bytes else heap_reservation_bytes);
          st = st\<lparr>k_pmm := pmm_init_range kernel_end mem_base mem_size
                  (pmm_reserve_until (kernel_end + heap_reservation_bytes) (k_pmm st))\<rparr>;
          st = upd_heap (kheap_set_size heap_reservation_bytes) st
      in upd_heap (kheap_init kernel_end) st)"

section \<open>The regions do not overlap\<close>

text \<open>The state before \<open>kernel_main\<close>: the static variables have their initial values.\<close>

definition boot_zero :: "mem \<Rightarrow> ramdisk \<Rightarrow> kernel_state" where
  "boot_zero m rd = \<lparr>g_initramfs_start = 0, g_initramfs_size = 0,
     k_pmm = \<lparr>g_free_frames = (\<lambda>_. 0), g_free_frame_count = 0, g_reserved_until = 0\<rparr>,
     k_boot = \<lparr>b_heap = heap_static m, b_ramdisk = rd\<rparr>\<rparr>"

lemma align_uintptr: "mm_align_up_uintptr v 4096 = mm_align_up_u64 v 4096" "heap_align_up v 4096 = mm_align_up_u64 v 4096"
  by (simp_all add: mm_align_up_uintptr_def mm_align_up_u64_def heap_align_up_def)

lemma align_u64_id: "4096 dvd unat v \<Longrightarrow> unat v + 4095 < 2 ^ 64 \<Longrightarrow> mm_align_up_u64 v 4096 = v"
  using align_4096(1) [of v] align_4096_least [of v "unat v"] by (simp add: word_unat_eq_iff)

lemma module_end_bounds:
  fixes a b :: u32
  defines "e \<equiv> ucast a + ucast b :: u64"
  shows "unat e = unat a + unat b" and "unat e + 8192 < 2 ^ 34"
proof -
  have "unat a < 2 ^ 32" "unat b < 2 ^ 32" using unsigned_less [of a, where ?'a = nat] unsigned_less [of b, where ?'a = nat] by simp_all
  moreover from this show "unat e = unat a + unat b"
    using unat_add_lem [of "ucast a :: u64" "ucast b"] by (simp add: e_def unat_ucast_u64)
  ultimately show "unat e + 8192 < 2 ^ 34" by simp
qed

lemma heap_floor_bounds:
  fixes st :: kernel_state
  assumes "unat ke + 2 ^ 35 < 2 ^ 64"
  defines "f \<equiv> boot_get_heap_floor ke st"
  shows "4096 dvd unat f" and "unat ke \<le> unat f" and "unat f \<le> unat ke + 2 ^ 34" and "mm_align_up_u64 ke 4096 \<le> f"
    and "g_initramfs_size st \<noteq> 0 \<Longrightarrow> unat (g_initramfs_start st) + unat (g_initramfs_size st) \<le> unat f"
proof -
  let ?e = "ucast (g_initramfs_start st) + ucast (g_initramfs_size st) :: u64"
  note e = module_end_bounds [of "g_initramfs_start st" "g_initramfs_size st"]
  have k: "unat ke \<le> unat (mm_align_up_u64 ke 4096)" "unat (mm_align_up_u64 ke 4096) \<le> unat ke + 4095"
    "4096 dvd unat (mm_align_up_u64 ke 4096)"
    using align_4096 [of ke] assms(1) by simp_all
  have m: "unat ?e \<le> unat (mm_align_up_u64 ?e 4096)" "unat (mm_align_up_u64 ?e 4096) \<le> unat ?e + 4095"
    "4096 dvd unat (mm_align_up_u64 ?e 4096)"
    using align_4096 [of ?e] e(2) by simp_all
  have f: "f = (if g_initramfs_size st \<noteq> 0 \<and> mm_align_up_u64 ?e 4096 > mm_align_up_u64 ke 4096 then mm_align_up_u64 ?e 4096
    else mm_align_up_u64 ke 4096)"
    by (simp add: f_def boot_get_heap_floor_def Let_def align_uintptr)
  show "4096 dvd unat f" "mm_align_up_u64 ke 4096 \<le> f" using k m by (auto simp: f)
  show "unat ke \<le> unat f" using k by (auto simp: f word_less_nat_alt)
  show "unat f \<le> unat ke + 2 ^ 34" using k m e(2) by (simp add: f)
  show "unat (g_initramfs_start st) + unat (g_initramfs_size st) \<le> unat f" if "g_initramfs_size st \<noteq> 0"
    using that m(1) e(1) by (auto simp: f word_less_nat_alt)
qed

lemma reservation_bounds:
  "0x2800000 \<le> unat (boot_get_heap_reservation_bytes st)" "unat (boot_get_heap_reservation_bytes st) < 2 ^ 32"
proof -
  let ?x = "initramfs_required_heap_bytes (k_mem st) (ucast (g_initramfs_start st)) (g_initramfs_size st)"
  have "unat ?x < 2 ^ 32" using unsigned_less [of ?x, where ?'a = nat] by simp
  then show "0x2800000 \<le> unat (boot_get_heap_reservation_bytes st)" "unat (boot_get_heap_reservation_bytes st) < 2 ^ 32"
    by (auto simp: boot_get_heap_reservation_bytes_def Let_def word_less_nat_alt unat_ucast_u64)
qed

lemma heap_boot_range:
  fixes st :: kernel_state and m :: mem
  assumes ke: "unat ke + 2 ^ 35 < 2 ^ 64"
  defines "f \<equiv> boot_get_heap_floor ke st" and "b \<equiv> boot_get_heap_reservation_bytes st"
  defines "h \<equiv> kheap_init ke (kheap_reserve_until f (kheap_set_size b (heap_static m)))"
  shows "g_heap_current h = f" and "unat (g_heap_end h) = unat f + unat b" and "heap_run h []"
proof -
  note f = heap_floor_bounds [OF ke, of st, folded f_def]
  note b = reservation_bounds [of st, folded b_def]
  have f64: "unat f + 2 ^ 33 < 2 ^ 64" using f(3) ke by simp
  have b0: "b \<noteq> 0" using b(1) by auto
  have al: "mm_align_up_u64 f 4096 = f" using align_u64_id [OF f(1)] f64 by simp
  have le: "\<not> f < mm_align_up_u64 ke 4096" using f(4) by simp
  have f0: "0 < f" if "f \<noteq> mm_align_up_u64 ke 4096" using that f(4) by (metis word_gt_0 word_le_0_iff)
  have h: "h = (if 0 < f then heap_static m \<lparr>g_heap_min_start := f\<rparr> else heap_static m)\<lparr>g_heap_size := b, g_heap_current := f, g_heap_end := f + b\<rparr>"
    using b0 al le f0
    by (auto simp: h_def kheap_init_def kheap_reserve_until_def kheap_set_size_def heap_static_def Let_def align_uintptr)
  show "g_heap_current h = f" by (simp add: h)
  show e: "unat (g_heap_end h) = unat f + unat b" using f64 b(2) unat_add_lem [of f b] by (simp add: h)
  show "heap_run h []"
  proof (rule heap_run.boot)
    show "h = kheap_init ke (kheap_reserve_until f (kheap_set_size b (heap_static m)))" by (simp only: h_def)
    show "unat ke + 4096 \<le> 2 ^ 64" "unat f + 4096 \<le> 2 ^ 64" "unat (g_heap_end h) + 15 < 2 ^ 64"
      using ke f64 e b(2) by simp_all
  qed
qed

text \<open>
  C5. The kernel divides memory without overlap: given a memory map without entries that wrap, the
  boot on x86-64 returns; the heap starts at or above the end of the kernel and of the boot module,
  and every frame of the frame allocator lies above the end of the heap, in memory the boot loader
  reports as available. The heap is in its initial state, so what holds for its blocks holds from here.
\<close>

theorem boot_regions_disjoint:
  assumes ke: "unat kernel_end + 2 ^ 35 < 2 ^ 64"
    and mods: "mb2_find_tag m info MB2_TAG_MODULE = Some md"
    and map: "mb2_find_tag m info MB2_TAG_MEMORY_MAP = Some (Some a)" "mmap_entry_size (mb2_tag_mmap m a) \<noteq> 0"
    and n: "n = unat (ucast ((ucast (tag_size (mb2_tag_mmap m a)) - 16 :: u64) div ucast (mmap_entry_size (mb2_tag_mmap m a))) :: u32)"
    and ok: "\<forall>i < n. entry_ok (map_entry m a (ucast (mmap_entry_size (mb2_tag_mmap m a))) i)"
  shows "\<exists>st. boot_memory kernel_end info (boot_zero m rd) = Some st \<and> heap_run (k_heap st) []
    \<and> unat kernel_end \<le> unat (g_heap_current (k_heap st))
    \<and> (g_initramfs_size st \<noteq> 0 \<longrightarrow>
         unat (g_initramfs_start st) + unat (g_initramfs_size st) \<le> unat (g_heap_current (k_heap st)))
    \<and> unat (g_heap_current (k_heap st)) + 0x2800000 \<le> unat (g_heap_end (k_heap st))
    \<and> (\<forall>x \<in> set (frames (k_pmm st)). 4096 dvd unat x \<and> unat (g_heap_end (k_heap st)) \<le> unat x
         \<and> (\<exists>i < n. available (map_entry m a (ucast (mmap_entry_size (mb2_tag_mmap m a))) i) x))"
proof -
  have mz: "k_mem (boot_zero m rd) = m" by (simp add: boot_zero_def heap_static_def)
  obtain st1 where st1: "boot_discover_initramfs info (boot_zero m rd) = Some st1" "k_boot st1 = k_boot (boot_zero m rd)"
    "k_pmm st1 = k_pmm (boot_zero m rd)"
    using mods by (cases md) (simp_all add: boot_discover_initramfs_def mz Let_def)
  let ?f = "boot_get_heap_floor kernel_end st1" and ?b = "boot_get_heap_reservation_bytes st1"
  let ?h = "kheap_init kernel_end (kheap_reserve_until ?f (kheap_set_size ?b (heap_static m)))"
  note f = heap_floor_bounds [OF ke, of st1] and b = reservation_bounds [of st1] and h = heap_boot_range [OF ke, of st1 m]
  have mem: "k_mem st1 = m" "k_heap st1 = heap_static m" using st1(2) by (simp_all add: boot_zero_def heap_static_def)
  have fb: "unat (?f + ?b) = unat ?f + unat ?b" using unat_add_lem [of ?f ?b] f(3) b(2) ke by simp
  let ?p = "pmm_reserve_until (?f + ?b) (k_pmm st1)"
  have "0 < ?f + ?b" using fb b(1) by (simp add: word_less_nat_alt)
  then have r: "g_reserved_until ?p = ?f + ?b" by (simp add: pmm_reserve_until_def st1(3) boot_zero_def)
  have "unat kernel_end + 0x803000 < 2 ^ 64" "unat (g_reserved_until ?p) + 0x3000 < 2 ^ 64"
    using ke f(3) b(2) fb r by simp_all
  from pmm_init_frames [OF map n ok this] obtain p where p: "pmm_init m kernel_end info ?p = Some p"
    "\<forall>x \<in> set (frames p). usable_frame kernel_end ?p x
      \<and> (\<exists>i < n. available (map_entry m a (ucast (mmap_entry_size (mb2_tag_mmap m a))) i) x)"
    by blast
  let ?st = "st1\<lparr>k_pmm := p, k_boot := (k_boot st1)\<lparr>b_heap := ?h\<rparr>\<rparr>"
  have floor: "boot_get_heap_floor kernel_end (upd_heap g (st1\<lparr>k_pmm := q\<rparr>)) = ?f"
    "boot_get_heap_reservation_bytes (st1\<lparr>k_pmm := q\<rparr>) = ?b" for g q
    by (simp_all add: boot_get_heap_floor_def boot_get_heap_reservation_bytes_def upd_heap_def Let_def)
  have "boot_memory kernel_end info (boot_zero m rd) = Some ?st"
    using st1(1) p(1) mem by (simp add: boot_memory_def Let_def floor) (simp add: upd_heap_def)
  moreover have "4096 dvd unat x \<and> unat (g_heap_end ?h) \<le> unat x" if "x \<in> set (frames p)" for x
    using p(2) that r fb h(2) by (auto simp: usable_frame_def)
  ultimately show ?thesis using p(2) h f(2,5) b(1) by (intro exI [of _ ?st]) auto
qed

definition boot_map_bytes :: "u8 list" where
  "boot_map_bytes = [48, 0, 0, 0, 0, 0, 0, 0,
     6, 0, 0, 0, 40, 0, 0, 0, 24, 0, 0, 0, 0, 0, 0, 0,
     0, 0, 0x10, 0, 0, 0, 0, 0, 0, 0, 0, 8, 0, 0, 0, 0, 1, 0, 0, 0, 0, 0, 0, 0]"

definition boot_map :: mem where
  "boot_map a = (let i = unat (a - 0x1000) in if i < 48 then boot_map_bytes ! i else 0)"

lemma boot_map_fields:
  "read_u32 boot_map 0x1000 = 48" "mb2_tag boot_map 0x1008 = \<lparr>tag_type = 6, tag_size = 40\<rparr>"
  "mb2_tag_mmap boot_map 0x1008 = \<lparr>tag_type = 6, tag_size = 40, mmap_entry_size = 24, mmap_entry_version = 0\<rparr>"
  "mb2_mmap_entry boot_map 0x1018 = \<lparr>entry_base_addr = 0x100000, entry_length = 0x8000000, entry_type = 1\<rparr>"
  by (simp_all add: mb2_tag_def mb2_tag_mmap_def mb2_mmap_entry_def read_u32_def read_u64_def read_nat_4 read_nat_8
      boot_map_def boot_map_bytes_def)

theorem boot_regions_disjoint_witness:
  "\<exists>st. boot_memory 0x200000 0x1000 (boot_zero boot_map empty_ramdisk) = Some st
    \<and> list_all (\<lambda>x. g_heap_end (k_heap st) \<le> x) (frames (k_pmm st))"
proof -
  have f: "mb2_find_tag boot_map 0x1000 6 = Some (Some 0x1008)"
    unfolding mb2_find_tag_def by (subst find_tag_walk.simps) (simp add: boot_map_fields)
  have "find_tag_walk boot_map 3 0x1030 0x1030 = Some None" by (subst find_tag_walk.simps) simp
  then have g: "mb2_find_tag boot_map 0x1000 3 = Some None"
    unfolding mb2_find_tag_def by (subst find_tag_walk.simps) (simp add: boot_map_fields mb2_next_def)
  have one: "entry_ok (map_entry boot_map 0x1008 24 0)"
    by (simp add: map_entry_def boot_map_fields entry_ok_def)
  have "\<forall>i < 1. entry_ok (map_entry boot_map 0x1008 (ucast (mmap_entry_size (mb2_tag_mmap boot_map 0x1008))) i)"
    using one by (simp add: boot_map_fields)
  from boot_regions_disjoint [OF _ g f _ _ this, of "0x200000" empty_ramdisk] show ?thesis
    by (auto simp: boot_map_fields list_all_iff word_le_nat_alt)
qed

text \<open>
  On AArch64 the frames are reserved from the unaligned end of the kernel while the heap starts at
  the next page. When the reservation is not a whole number of pages the heap can end inside
  a page that the frame allocator hands out: here the kernel ends at \<open>0x80008\<close> and the module is a
  gzip file that announces \<open>0x3000001\<close> bytes.
\<close>

definition odd_gzip :: mem where
  "odd_gzip = (\<lambda>_. 0)(0x2000000 := 0x1F, 0x2000001 := 0x8B, 0x200000E := 1, 0x2000011 := 3)"

lemma aarch64_heap_overlaps_frame:
  defines "st \<equiv> boot_memory_aarch64 0x80008 0 0x40000000 0x2000000 0x2000012 (boot_zero odd_gzip empty_ramdisk)"
  shows "g_heap_end (k_heap st) = 0x3281001" and "0x3281000 \<in> set (frames (k_pmm st))"
proof -
  let ?z = "boot_zero odd_gzip empty_ramdisk"
  have z: "k_mem ?z = odd_gzip" "k_heap ?z = heap_static odd_gzip" "h_mem (heap_static odd_gzip) = odd_gzip" "g_reserved_until (k_pmm ?z) = 0"
    by (simp_all add: boot_zero_def heap_static_def)
  have req: "initramfs_required_heap_bytes odd_gzip 0x2000000 18 = 0x3200001"
    by (simp add: initramfs_required_heap_bytes_def initramfs_is_cpio_newc_def initramfs_expected_size_def odd_gzip_def str_at_def Let_def)
  let ?p = "pmm_reserve_until 0x3280009 (k_pmm ?z)"
  have st: "st = upd_heap (kheap_init 0x80008) (upd_heap (kheap_set_size 0x3200001) (?z\<lparr>k_pmm := pmm_init_range 0x80008 0 0x40000000 ?p\<rparr>))"
    by (simp add: st_def boot_memory_aarch64_def z req Let_def)
  show "g_heap_end (k_heap st) = 0x3281001"
    by (simp add: st upd_heap_def z kheap_init_def kheap_set_size_def heap_static_def heap_align_up_def Let_def)
  have r: "reserved_end 0x80008 ?p = 0x3281000"
    by (simp add: reserved_end_def pmm_reserve_until_def z mm_align_up_u64_def Let_def)
  have rp: "g_reserved_until ?p = 0x3280009" by (simp add: pmm_reserve_until_def z)
  obtain start where fr: "frames (pmm_init_range 0x80008 0 0x40000000 ?p) =
      (if unat start \<le> unat (0 + 0x40000000 :: u64) then region_frames start (0 + 0x40000000) 32768 else [])"
    "unat (0x3281000 :: u64) \<le> unat start"
    "\<forall>n. 4096 dvd n \<and> unat (0x3281000 :: u64) \<le> n \<and> unat (0 :: u64) \<le> n \<longrightarrow> unat start \<le> n"
    by (rule init_range_frames [of "0x80008" ?p 0 "0x40000000", unfolded r]) (simp_all add: rp)
  have "unat start = 0x3281000" using fr(2) fr(3) [rule_format, of "0x3281000"] by simp
  then have "start = 0x3281000" by (simp add: word_unat_eq_iff)
  then have "0x3281000 \<in> set (frames (pmm_init_range 0x80008 0 0x40000000 ?p))"
    using fr(1) by (auto simp: region_frames_def intro: image_eqI [of _ _ 0])
  then show "0x3281000 \<in> set (frames (k_pmm st))" by (simp add: st upd_heap_def)
qed

end
