(* ===== verification/Zaclr_Base.thy ===== *)
theory Zaclr_Base
  imports Kernel_Memory
begin

text \<open>
  The types that the managed runtime (\<^verbatim>\<open>src/kernel/zaclr\<close>) shares between its parts: the result of
  an operation (\<^verbatim>\<open>include/zaclr_status.h\<close>), metadata tokens (\<^verbatim>\<open>metadata/zaclr_token.cpp\<close>) and the
  value cell of the evaluation stack (\<^verbatim>\<open>exec/zaclr_eval_stack.h\<close>). A pointer argument that the code
  compares with \<open>NULL\<close> and that is always the address of an object of the caller is passed by
  value; a \<open>NULL\<close> pointer that the code stores is the address 0.
\<close>

subsection \<open>Results\<close>

datatype zaclr_status =
  ZACLR_STATUS_OK | ZACLR_STATUS_NOT_IMPLEMENTED | ZACLR_STATUS_INVALID_ARGUMENT | ZACLR_STATUS_OUT_OF_MEMORY
| ZACLR_STATUS_NOT_FOUND | ZACLR_STATUS_ALREADY_EXISTS | ZACLR_STATUS_BUFFER_TOO_SMALL | ZACLR_STATUS_UNSUPPORTED
| ZACLR_STATUS_BAD_STATE | ZACLR_STATUS_BAD_IMAGE | ZACLR_STATUS_BAD_METADATA | ZACLR_STATUS_DISPATCH_ERROR
| ZACLR_STATUS_TRACE_DROPPED

datatype zaclr_status_category =
  ZACLR_STATUS_CATEGORY_GENERAL | ZACLR_STATUS_CATEGORY_HOST | ZACLR_STATUS_CATEGORY_RUNTIME
| ZACLR_STATUS_CATEGORY_PROCESS | ZACLR_STATUS_CATEGORY_LOADER | ZACLR_STATUS_CATEGORY_METADATA
| ZACLR_STATUS_CATEGORY_EXEC | ZACLR_STATUS_CATEGORY_HEAP | ZACLR_STATUS_CATEGORY_INTEROP
| ZACLR_STATUS_CATEGORY_DIAG

record zaclr_result =
  status :: zaclr_status
  category :: zaclr_status_category

definition zaclr_result_make :: "zaclr_status \<Rightarrow> zaclr_status_category \<Rightarrow> zaclr_result" where
  "zaclr_result_make s c = \<lparr>status = s, category = c\<rparr>"

definition zaclr_result_ok :: zaclr_result where
  "zaclr_result_ok = \<lparr>status = ZACLR_STATUS_OK, category = ZACLR_STATUS_CATEGORY_GENERAL\<rparr>"

abbreviation (input) is_ok :: "zaclr_result \<Rightarrow> bool" where
  "is_ok r \<equiv> status r = ZACLR_STATUS_OK"

lemma result_status [simp]:
  "status (zaclr_result_make s c) = s" "category (zaclr_result_make s c) = c" "status zaclr_result_ok = ZACLR_STATUS_OK"
  by (simp_all add: zaclr_result_make_def zaclr_result_ok_def)

subsection \<open>Tokens\<close>

abbreviation (input) "ZACLR_TOKEN_TABLE_MODULE \<equiv> (0x00 :: u32)"
abbreviation (input) "ZACLR_TOKEN_TABLE_TYPEREF \<equiv> (0x01 :: u32)"
abbreviation (input) "ZACLR_TOKEN_TABLE_TYPEDEF \<equiv> (0x02 :: u32)"
abbreviation (input) "ZACLR_TOKEN_TABLE_FIELD \<equiv> (0x04 :: u32)"
abbreviation (input) "ZACLR_TOKEN_TABLE_METHOD \<equiv> (0x06 :: u32)"
abbreviation (input) "ZACLR_TOKEN_TABLE_MEMBERREF \<equiv> (0x0A :: u32)"
abbreviation (input) "ZACLR_TOKEN_TABLE_TYPESPEC \<equiv> (0x1B :: u32)"
abbreviation (input) "ZACLR_TOKEN_TABLE_ASSEMBLYREF \<equiv> (0x23 :: u32)"
abbreviation (input) "ZACLR_TOKEN_TABLE_METHODSPEC \<equiv> (0x2B :: u32)"

record zaclr_token =
  raw :: u32

definition zaclr_token_make :: "u32 \<Rightarrow> zaclr_token" where
  "zaclr_token_make r = \<lparr>raw = r\<rparr>"

definition zaclr_token_table :: "zaclr_token \<Rightarrow> u32" where
  "zaclr_token_table t = drop_bit 24 (raw t) AND 0xFF"

definition zaclr_token_row :: "zaclr_token \<Rightarrow> u32" where
  "zaclr_token_row t = raw t AND 0x00FFFFFF"

definition zaclr_token_is_nil :: "zaclr_token \<Rightarrow> bool" where
  "zaclr_token_is_nil t \<longleftrightarrow> zaclr_token_row t = 0"

definition zaclr_token_matches_table :: "zaclr_token \<Rightarrow> u32 \<Rightarrow> bool" where
  "zaclr_token_matches_table t table \<longleftrightarrow> zaclr_token_table t = table \<and> \<not> zaclr_token_is_nil t"

subsection \<open>Stack values\<close>

text \<open>
  The union \<open>data\<close> of 16 bytes is kept as bytes; its members are read from them. \<open>stack_value_at\<close>
  is the value stored at an address: six 32-bit words and the union, 40 bytes.
\<close>

abbreviation (input) "ZACLR_STACK_VALUE_EMPTY \<equiv> (0 :: u32)"
abbreviation (input) "ZACLR_STACK_VALUE_I4 \<equiv> (1 :: u32)"
abbreviation (input) "ZACLR_STACK_VALUE_OBJECT_REFERENCE \<equiv> (2 :: u32)"
abbreviation (input) "ZACLR_STACK_VALUE_I8 \<equiv> (3 :: u32)"
abbreviation (input) "ZACLR_STACK_VALUE_VALUETYPE \<equiv> (7 :: u32)"
abbreviation (input) "ZACLR_STACK_VALUE_BYREF \<equiv> (8 :: u32)"
abbreviation (input) "ZACLR_STACK_VALUE_FLAG_NONE \<equiv> (0 :: u32)"
abbreviation (input) "ZACLR_STACK_VALUE_FLAG_OWNS_BUFFER \<equiv> (1 :: u32)"
abbreviation (input) "ZACLR_STACK_VALUE_INLINE_BUFFER_BYTES \<equiv> (16 :: u32)"

record zaclr_stack_value =
  sv_kind :: u32
  sv_reserved :: u32
  payload_size :: u32
  type_token_raw :: u32
  sv_flags :: u32
  extra :: u32
  sv_data :: mem

definition object_reference :: "zaclr_stack_value \<Rightarrow> u64" where
  "object_reference v = read_u64 (sv_data v) 0"

definition stack_value_at :: "mem \<Rightarrow> u64 \<Rightarrow> zaclr_stack_value" where
  "stack_value_at m a =
     \<lparr>sv_kind = read_u32 m a, sv_reserved = read_u32 m (a + 4), payload_size = read_u32 m (a + 8),
      type_token_raw = read_u32 m (a + 12), sv_flags = read_u32 m (a + 16), extra = read_u32 m (a + 20),
      sv_data = (\<lambda>i. if i < 16 then m (a + 24 + i) else 0)\<rparr>"

definition zaclr_stack_value_contains_references :: "zaclr_stack_value \<Rightarrow> bool" where
  "zaclr_stack_value_contains_references v \<longleftrightarrow>
     sv_kind v = ZACLR_STACK_VALUE_OBJECT_REFERENCE \<and> object_reference v \<noteq> 0"

end
