(* ===== verification/Zaclr_Object.thy ===== *)
theory Zaclr_Object
  imports Zaclr_Base
begin

text \<open>
  Managed objects (\<^verbatim>\<open>heap/zaclr_object.h\<close>, \<^verbatim>\<open>heap/zaclr_object.cpp\<close>, \<^verbatim>\<open>heap/zaclr_array.h\<close>) and the
  references the collector follows out of them. An object is its header, typed, and the bytes
  that follow the header (40 bytes): \<open>tail o 0\<close> is the first byte of the descriptor that extends
  the header. The offsets are those of the 64-bit targets:
  \<^item> \<open>zaclr_array_desc\<close>: \<open>length\<close> at 0, \<open>element_size\<close> at 4, \<open>element_type\<close> at 12, elements from 16;
  \<^item> \<open>zaclr_reference_object_desc\<close>: \<open>compatibility_field_capacity\<close> at 0, fields from 8;
  \<^item> \<open>zaclr_boxed_value_desc\<close>: \<open>type_token_raw\<close> at 0, \<open>value\<close> from 8;
  \<^item> \<open>zaclr_runtime_type_desc\<close>: fields from 24.

  A method table is a tree over its parents: a type is prepared after its base type.
\<close>

abbreviation (input) "ZACLR_OBJECT_FAMILY_UNKNOWN \<equiv> (0 :: u16)"
abbreviation (input) "ZACLR_OBJECT_FAMILY_INSTANCE \<equiv> (1 :: u16)"
abbreviation (input) "ZACLR_OBJECT_FAMILY_ARRAY \<equiv> (2 :: u16)"
abbreviation (input) "ZACLR_OBJECT_FAMILY_STRING \<equiv> (3 :: u16)"
abbreviation (input) "ZACLR_OBJECT_FAMILY_RUNTIME_TYPE \<equiv> (4 :: u16)"
abbreviation (input) "ZACLR_OBJECT_FLAG_BOXED_VALUE \<equiv> (2 :: u32)"
abbreviation (input) "ZACLR_OBJECT_FLAG_REFERENCE_TYPE \<equiv> (4 :: u32)"
abbreviation (input) "ZACLR_OBJECT_FLAG_CONTAINS_REFERENCES \<equiv> (8 :: u32)"
abbreviation (input) "ZACLR_OBJECT_GC_STATE_NONE \<equiv> (0 :: u8)"
abbreviation (input) "ZACLR_OBJECT_GC_STATE_PINNED \<equiv> (0x01 :: u8)"
abbreviation (input) "ZACLR_OBJECT_GC_STATE_FINALIZER_PENDING \<equiv> (0x02 :: u8)"
abbreviation (input) "ZACLR_OBJECT_GC_STATE_FINALIZER_QUEUED \<equiv> (0x04 :: u8)"
abbreviation (input) "ZACLR_OBJECT_GC_STATE_FINALIZER_COMPLETE \<equiv> (0x08 :: u8)"
abbreviation (input) "ZACLR_OBJECT_GC_STATE_FINALIZER_SUPPRESSED \<equiv> (0x10 :: u8)"
abbreviation (input) "SIZEOF_ZACLR_OBJECT_DESC \<equiv> (40 :: u64)"

record zaclr_field_layout =
  field_token_row :: u32
  byte_offset :: u32
  nested_type_token_raw :: u32
  fl_element_type :: u8
  is_reference :: u8
  is_static :: u8
  field_size :: u8

datatype zaclr_method_table = Zaclr_Method_Table
  (instance_fields: "zaclr_field_layout list option")
  (mt_parent: "zaclr_method_table option")
  (mt_type_flags: "u32 option")

record zaclr_object_desc =
  size_bytes :: u32
  family :: u16
  gc_mark :: u8
  gc_state :: u8
  sync_block_index :: u32
  obj_flags :: u32
  method_table :: "zaclr_method_table option"
  owning_assembly :: u64
  type_id :: u32
  tail :: mem

definition zaclr_object_contains_references :: "zaclr_object_desc \<Rightarrow> bool" where
  "zaclr_object_contains_references ob \<longleftrightarrow> obj_flags ob AND ZACLR_OBJECT_FLAG_CONTAINS_REFERENCES \<noteq> 0"

definition zaclr_object_is_marked :: "zaclr_object_desc \<Rightarrow> bool" where
  "zaclr_object_is_marked ob \<longleftrightarrow> gc_mark ob \<noteq> 0"

definition zaclr_object_set_marked :: "bool \<Rightarrow> zaclr_object_desc \<Rightarrow> zaclr_object_desc" where
  "zaclr_object_set_marked b ob = ob\<lparr>gc_mark := if b then 1 else 0\<rparr>"

subsection \<open>Fields\<close>

definition layout_of_row :: "u32 \<Rightarrow> zaclr_field_layout \<Rightarrow> bool" where
  "layout_of_row row l \<longleftrightarrow> is_static l = 0 \<and> field_token_row l = row"

text \<open>The walk of \<open>find_field_layout\<close> up the parents.\<close>

fun find_layout_in :: "u32 \<Rightarrow> zaclr_method_table \<Rightarrow> zaclr_field_layout option" where
  "find_layout_in row (Zaclr_Method_Table fls par tf) =
     (case (case fls of None \<Rightarrow> None | Some fs \<Rightarrow> find (layout_of_row row) fs) of
        Some l \<Rightarrow> Some l
      | None \<Rightarrow> (case par of None \<Rightarrow> None | Some p \<Rightarrow> find_layout_in row p))"

definition find_field_layout :: "zaclr_object_desc \<Rightarrow> zaclr_token \<Rightarrow> zaclr_field_layout option" where
  "find_field_layout ob token =
     (if \<not> zaclr_token_matches_table token ZACLR_TOKEN_TABLE_FIELD then None
      else case method_table ob of None \<Rightarrow> None | Some mt \<Rightarrow> find_layout_in (zaclr_token_row token) mt)"

text \<open>Field addresses are offsets into the bytes after the header.\<close>

definition instance_field_base :: "zaclr_object_desc \<Rightarrow> u64 option" where
  "instance_field_base ob =
     (if family ob = ZACLR_OBJECT_FAMILY_INSTANCE then Some 8
      else if family ob = ZACLR_OBJECT_FAMILY_STRING then Some 0
      else if family ob = ZACLR_OBJECT_FAMILY_RUNTIME_TYPE then Some 24
      else None)"

definition object_instance_field_address :: "zaclr_object_desc \<Rightarrow> zaclr_token \<Rightarrow> u64 option" where
  "object_instance_field_address ob token =
     (case (find_field_layout ob token, instance_field_base ob) of
        (Some l, Some base) \<Rightarrow> Some (base + ucast (byte_offset l))
      | _ \<Rightarrow> None)"

subsection \<open>The references out of an object\<close>

text \<open>
  Each of the collector's \<open>mark_..._children\<close> functions is a loop that marks one reference after
  another; the functions below list the references in that order. Marking changes only \<open>gc_mark\<close>, so
  the list can be read before the loop.
\<close>

definition array_children :: "zaclr_object_desc \<Rightarrow> u64 list" where
  "array_children ob =
     (if \<not> zaclr_object_contains_references ob then []
      else if read_u32 (tail ob) 4 \<noteq> 8 then []
      else map (\<lambda>i. read_u64 (tail ob) (16 + 8 * of_nat i)) [0 ..< unat (read_u32 (tail ob) 0)])"

definition field_reference :: "zaclr_object_desc \<Rightarrow> zaclr_field_layout \<Rightarrow> u64 list" where
  "field_reference ob l =
     (if is_static l \<noteq> 0 \<or> is_reference l = 0 then []
      else case object_instance_field_address ob (zaclr_token_make (push_bit 24 ZACLR_TOKEN_TABLE_FIELD OR field_token_row l)) of
             None \<Rightarrow> []
           | Some a \<Rightarrow> [read_u64 (tail ob) a])"

definition value_reference :: "zaclr_stack_value \<Rightarrow> u64 list" where
  "value_reference v = (if zaclr_stack_value_contains_references v then [object_reference v] else [])"

definition reference_object_children :: "zaclr_object_desc \<Rightarrow> u64 list" where
  "reference_object_children ob =
     (case (case method_table ob of None \<Rightarrow> None | Some mt \<Rightarrow> instance_fields mt) of
        Some fs \<Rightarrow> concat (map (field_reference ob) fs)
      | None \<Rightarrow> concat (map (\<lambda>i. value_reference (stack_value_at (tail ob) (8 + 40 * of_nat i)))
                  [0 ..< unat (read_u32 (tail ob) 0)]))"

definition boxed_value_children :: "zaclr_object_desc \<Rightarrow> u64 list" where
  "boxed_value_children ob = value_reference (stack_value_at (tail ob) 8)"

definition object_children :: "zaclr_object_desc \<Rightarrow> u64 list" where
  "object_children ob =
     (if family ob = ZACLR_OBJECT_FAMILY_ARRAY then array_children ob
      else if family ob = ZACLR_OBJECT_FAMILY_INSTANCE then
        (if obj_flags ob AND ZACLR_OBJECT_FLAG_BOXED_VALUE \<noteq> 0 then boxed_value_children ob
         else if obj_flags ob AND ZACLR_OBJECT_FLAG_REFERENCE_TYPE \<noteq> 0 then reference_object_children ob
         else [])
      else [])"

text \<open>The references do not depend on the fields the collector changes.\<close>

lemma field_address_gc [simp]:
  "object_instance_field_address (ob\<lparr>gc_mark := m\<rparr>) token = object_instance_field_address ob token"
  "object_instance_field_address (ob\<lparr>gc_state := s\<rparr>) token = object_instance_field_address ob token"
  by (simp_all add: object_instance_field_address_def find_field_layout_def instance_field_base_def)

lemma field_reference_gc [simp]:
  "field_reference (ob\<lparr>gc_mark := m\<rparr>) = field_reference ob" "field_reference (ob\<lparr>gc_state := s\<rparr>) = field_reference ob"
  by (auto simp: field_reference_def fun_eq_iff split: option.split)

lemma object_children_gc [simp]:
  "object_children (ob\<lparr>gc_mark := m\<rparr>) = object_children ob" "object_children (ob\<lparr>gc_state := s\<rparr>) = object_children ob"
  by (simp_all add: object_children_def array_children_def reference_object_children_def boxed_value_children_def
      zaclr_object_contains_references_def split: option.split)

end
