(* ===== verification/Zaclr_Handles.thy ===== *)
theory Zaclr_Handles
  imports Zaclr_Base Kheap_Safety
begin

text \<open>
  The handle table of the managed runtime (\<^verbatim>\<open>process/zaclr_handle_table.cpp\<close>): a growing array of
  entries that keeps object handles of a kind (strong, weak, weak tracking resurrection, pinned).
  The array lives in a block of the kernel heap; \<open>entries\<close> is its address, 0 for \<open>NULL\<close>, and
  \<open>entry\<close> its typed contents.
\<close>

abbreviation (input) "ZACLR_GC_HANDLE_KIND_STRONG \<equiv> (0 :: u32)"
abbreviation (input) "ZACLR_GC_HANDLE_KIND_WEAK \<equiv> (1 :: u32)"
abbreviation (input) "ZACLR_GC_HANDLE_KIND_WEAK_TRACK_RESURRECTION \<equiv> (2 :: u32)"
abbreviation (input) "ZACLR_GC_HANDLE_KIND_PINNED \<equiv> (3 :: u32)"
abbreviation (input) "ZACLR_GC_HANDLE_ENTRY_FLAG_ALLOCATED \<equiv> (0x01 :: u8)"
abbreviation (input) "SIZEOF_ZACLR_GC_HANDLE_ENTRY \<equiv> (16 :: u64)"

record zaclr_gc_handle_entry =
  he_handle :: u64
  he_kind :: u8
  he_flags :: u8
  he_reserved :: u16

record zaclr_handle_table =
  ht_id :: u32
  entries :: u64
  entry :: "nat \<Rightarrow> zaclr_gc_handle_entry"
  count :: u32
  capacity :: u32
  ht_flags :: u32

definition empty_entry :: zaclr_gc_handle_entry where
  "empty_entry = \<lparr>he_handle = 0, he_kind = 0, he_flags = 0, he_reserved = 0\<rparr>"

definition empty_table :: zaclr_handle_table where
  "empty_table = \<lparr>ht_id = 0, entries = 0, entry = \<lambda>_. empty_entry, count = 0, capacity = 0, ht_flags = 0\<rparr>"

definition used_entry :: "u64 \<Rightarrow> u32 \<Rightarrow> zaclr_gc_handle_entry" where
  "used_entry h k = \<lparr>he_handle = h, he_kind = ucast k, he_flags = ZACLR_GC_HANDLE_ENTRY_FLAG_ALLOCATED, he_reserved = 0\<rparr>"

definition allocated :: "zaclr_gc_handle_entry \<Rightarrow> bool" where
  "allocated e \<longleftrightarrow> he_flags e AND ZACLR_GC_HANDLE_ENTRY_FLAG_ALLOCATED \<noteq> 0"

text \<open>The operations return in the option monad because the kernel heap does.\<close>

definition zaclr_handle_table_grow ::
  "zaclr_handle_table \<Rightarrow> kheap \<Rightarrow> (zaclr_result \<times> zaclr_handle_table \<times> kheap) option" where
  "zaclr_handle_table_grow table kh =
     (let new_capacity = (if capacity table = 0 then 8 else capacity table * 2)
      in if new_capacity \<le> capacity table
         then Some (zaclr_result_make ZACLR_STATUS_BUFFER_TOO_SMALL ZACLR_STATUS_CATEGORY_PROCESS, table, kh)
         else
           do {
             (new_entries, kh) \<leftarrow> kernel_alloc (SIZEOF_ZACLR_GC_HANDLE_ENTRY * ucast new_capacity) kh;
             if new_entries = 0
             then Some (zaclr_result_make ZACLR_STATUS_OUT_OF_MEMORY ZACLR_STATUS_CATEGORY_PROCESS, table, kh)
             else
               (let fresh_entry = (\<lambda>_. empty_entry);
                    new_entry = (if entries table \<noteq> 0 \<and> count table \<noteq> 0
                      then (\<lambda>i. if i < unat (count table) then entry table i else fresh_entry i) else fresh_entry);
                    kh = (if entries table \<noteq> 0 then kernel_free (entries table) kh else kh)
                in Some (zaclr_result_ok,
                     table\<lparr>entries := new_entries, entry := new_entry, capacity := new_capacity\<rparr>, kh))
           })"

definition zaclr_handle_table_initialize ::
  "u32 \<Rightarrow> u32 \<Rightarrow> kheap \<Rightarrow> (zaclr_result \<times> zaclr_handle_table \<times> kheap) option" where
  "zaclr_handle_table_initialize i cap kh =
     (let table = empty_table\<lparr>ht_id := i, capacity := cap\<rparr>
      in if cap \<noteq> 0 then
           do {
             (p, kh) \<leftarrow> kernel_alloc (SIZEOF_ZACLR_GC_HANDLE_ENTRY * ucast cap) kh;
             if p = 0 then Some (zaclr_result_make ZACLR_STATUS_OUT_OF_MEMORY ZACLR_STATUS_CATEGORY_PROCESS, table, kh)
             else Some (zaclr_result_ok, table\<lparr>entries := p\<rparr>, kh)
           }
         else Some (zaclr_result_ok, table, kh))"

definition zaclr_handle_table_reset :: "zaclr_handle_table \<Rightarrow> kheap \<Rightarrow> zaclr_handle_table \<times> kheap" where
  "zaclr_handle_table_reset table kh =
     (empty_table, if entries table \<noteq> 0 then kernel_free (entries table) kh else kh)"

text \<open>
  The search loop of \<open>zaclr_handle_table_store_ex\<close> over \<open>n\<close> entries from \<open>index\<close> on: \<open>Inl\<close> is
  the early return with the entry that holds the handle, \<open>Inr\<close> the first free entry seen.
\<close>

primrec store_scan ::
  "nat \<Rightarrow> u32 \<Rightarrow> zaclr_handle_table \<Rightarrow> u64 \<Rightarrow> u32 \<Rightarrow> u32 \<Rightarrow> u32 + u32" where
  "store_scan 0 index table h k free_index = Inr free_index"
| "store_scan (Suc n) index table h k free_index =
     (let e = entry table (unat index)
      in if \<not> allocated e
         then store_scan n (index + 1) table h k (if free_index = 0xFFFFFFFF then index else free_index)
         else if h \<noteq> 0 \<and> he_handle e = h \<and> ucast (he_kind e) = k then Inl index
         else store_scan n (index + 1) table h k free_index)"

definition put_entry :: "u32 \<Rightarrow> zaclr_gc_handle_entry \<Rightarrow> zaclr_handle_table \<Rightarrow> zaclr_handle_table" where
  "put_entry i e table = table\<lparr>entry := (entry table)(unat i := e)\<rparr>"

definition zaclr_handle_table_store_ex ::
  "u64 \<Rightarrow> u32 \<Rightarrow> zaclr_handle_table \<Rightarrow> kheap \<Rightarrow> ((zaclr_result \<times> u32 option) \<times> zaclr_handle_table \<times> kheap) option" where
  "zaclr_handle_table_store_ex h k table kh =
     (case store_scan (unat (count table)) 0 table h k 0xFFFFFFFF of
        Inl index \<Rightarrow> Some ((zaclr_result_ok, Some index), table, kh)
      | Inr free_index \<Rightarrow>
          if free_index \<noteq> 0xFFFFFFFF
          then Some ((zaclr_result_ok, Some free_index), put_entry free_index (used_entry h k) table, kh)
          else
            do {
              (r, table, kh) \<leftarrow> (if entries table = 0 \<or> count table \<ge> capacity table
                 then zaclr_handle_table_grow table kh else Some (zaclr_result_ok, table, kh));
              if \<not> is_ok r then Some ((r, None), table, kh)
              else Some ((zaclr_result_ok, Some (count table)),
                     (put_entry (count table) (used_entry h k) table)\<lparr>count := count table + 1\<rparr>, kh)
            })"

definition zaclr_handle_table_store ::
  "u64 \<Rightarrow> zaclr_handle_table \<Rightarrow> kheap \<Rightarrow> ((zaclr_result \<times> u32 option) \<times> zaclr_handle_table \<times> kheap) option" where
  "zaclr_handle_table_store h table kh = zaclr_handle_table_store_ex h ZACLR_GC_HANDLE_KIND_STRONG table kh"

definition zaclr_handle_table_load_entry :: "zaclr_handle_table \<Rightarrow> u32 \<Rightarrow> zaclr_result \<times> zaclr_gc_handle_entry option" where
  "zaclr_handle_table_load_entry table index =
     (if index \<ge> count table then (zaclr_result_make ZACLR_STATUS_INVALID_ARGUMENT ZACLR_STATUS_CATEGORY_PROCESS, None)
      else if \<not> allocated (entry table (unat index))
      then (zaclr_result_make ZACLR_STATUS_NOT_FOUND ZACLR_STATUS_CATEGORY_PROCESS, None)
      else (zaclr_result_ok, Some (entry table (unat index))))"

definition zaclr_handle_table_load :: "zaclr_handle_table \<Rightarrow> u32 \<Rightarrow> zaclr_result \<times> u64 option" where
  "zaclr_handle_table_load table index =
     (if index \<ge> count table then (zaclr_result_make ZACLR_STATUS_INVALID_ARGUMENT ZACLR_STATUS_CATEGORY_PROCESS, None)
      else if \<not> allocated (entry table (unat index))
      then (zaclr_result_make ZACLR_STATUS_NOT_FOUND ZACLR_STATUS_CATEGORY_PROCESS, None)
      else (zaclr_result_ok, Some (he_handle (entry table (unat index)))))"

definition zaclr_handle_table_count :: "zaclr_handle_table \<Rightarrow> u32" where
  "zaclr_handle_table_count table = count table"

definition zaclr_handle_table_capacity :: "zaclr_handle_table \<Rightarrow> u32" where
  "zaclr_handle_table_capacity table = capacity table"

subsection \<open>Blocks of the kernel heap\<close>

text \<open>
  \<open>heap_has kh B\<close>: the kernel heap is in a state that its operations can reach and in which the
  blocks at the addresses \<open>B\<close> are held.
\<close>

definition heap_has :: "kheap \<Rightarrow> u64 set \<Rightarrow> bool" where
  "heap_has kh B \<longleftrightarrow> (\<exists>held. heap_run kh held \<and> fst ` set held = B)"

lemma heap_run_distinct: "heap_run h held \<Longrightarrow> distinct (map fst held) \<and> 0 \<notin> fst ` set held"
proof -
  assume "heap_run h held"
  from heap_run_inv [OF this] show ?thesis
    by (auto simp: heap_inv_def holds_def) (metis not_numeral_le_zero unat_0)
qed

lemma heap_has_nonzero: "heap_has kh B \<Longrightarrow> 0 \<notin> B"
  using heap_run_distinct by (auto simp: heap_has_def)

lemma heap_has_alloc:
  assumes "heap_has kh B" and "unat sz \<le> 2 ^ 32 - 32"
  obtains p kh' where "kernel_alloc sz kh = Some (p, kh')"
    and "p = 0 \<Longrightarrow> heap_has kh' B" and "p \<noteq> 0 \<Longrightarrow> p \<notin> B \<and> heap_has kh' (insert p B)"
proof -
  obtain held where r: "heap_run kh held" "fst ` set held = B" using assms(1) by (auto simp: heap_has_def)
  obtain p kh' where a: "kheap_alloc sz kh = Some (p, kh')"
    by (rule inv_alloc [OF heap_run_inv [OF r(1)] assms(2)])
  show thesis
  proof (rule that)
    show "kernel_alloc sz kh = Some (p, kh')" using a by (simp add: kernel_alloc_def)
    show "heap_has kh' B" if "p = 0"
      using heap_run.full [OF r(1) assms(2)] a r(2) that by (auto simp: heap_has_def)
    show "p \<notin> B \<and> heap_has kh' (insert p B)" if "p \<noteq> 0"
    proof -
      have n: "heap_run kh' ((p, unat sz) # held)" using heap_run.alloc [OF r(1) assms(2) a that] .
      then have "p \<notin> B" using heap_run_distinct [OF n] r(2) by auto
      moreover have "heap_has kh' (insert p B)" using n r(2) by (auto simp: heap_has_def intro!: exI [of _ "(p, unat sz) # held"])
      ultimately show ?thesis by blast
    qed
  qed
qed

lemma heap_has_free:
  assumes "heap_has kh B" and "p \<in> B"
  shows "heap_has (kernel_free p kh) (B - {p})"
proof -
  obtain held s where r: "heap_run kh held" "fst ` set held = B" "(p, s) \<in> set held"
    using assms by (auto simp: heap_has_def)
  have "fst ` set (filter (\<lambda>(q, _). q \<noteq> p) held) = B - {p}" using r(2) by force
  with heap_run.free [OF r(1,3)] show ?thesis unfolding heap_has_def kernel_free_def by blast
qed

subsection \<open>Storing and loading\<close>

text \<open>
  A table is well formed when its entries fit the array and an array of capacity 0 is the only
  one without a block.
\<close>

definition table_wf :: "zaclr_handle_table \<Rightarrow> bool" where
  "table_wf t \<longleftrightarrow> count t \<le> capacity t \<and> (entries t = 0 \<longrightarrow> capacity t = 0)"

abbreviation (input) "TABLE_LIMIT \<equiv> (2 ^ 26 :: nat)"

lemma store_scan_found:
  "store_scan n idx t h k f = Inl i \<Longrightarrow> unat idx + n < 2 ^ 32 \<Longrightarrow>
     unat idx \<le> unat i \<and> unat i < unat idx + n \<and> allocated (entry t (unat i)) \<and> he_handle (entry t (unat i)) = h
     \<and> ucast (he_kind (entry t (unat i))) = k"
proof (induction n arbitrary: idx f)
  case (Suc n)
  have u: "unat (idx + 1) = unat idx + 1" using Suc.prems(2) unat_add_lem [of idx 1] by simp
  show ?case
  proof (cases "allocated (entry t (unat idx)) \<and> h \<noteq> 0 \<and> he_handle (entry t (unat idx)) = h \<and> ucast (he_kind (entry t (unat idx))) = k")
    case True
    then show ?thesis using Suc.prems by (simp add: Let_def)
  next
    case False
    then obtain f' where "store_scan n (idx + 1) t h k f' = Inl i"
      using Suc.prems(1) by (auto simp: Let_def split: if_splits)
    from Suc.IH [OF this] Suc.prems(2) u show ?thesis by simp
  qed
qed simp

lemma store_scan_free:
  "store_scan n idx t h k f = Inr f' \<Longrightarrow> unat idx + n < 2 ^ 32 - 1 \<Longrightarrow>
     f' = f \<or> f = 0xFFFFFFFF \<and> unat f' < unat idx + n \<and> \<not> allocated (entry t (unat f'))"
proof (induction n arbitrary: idx f)
  case (Suc n)
  have u: "unat (idx + 1) = unat idx + 1" using Suc.prems(2) unat_add_lem [of idx 1] by simp
  have ne: "idx \<noteq> 0xFFFFFFFF" using Suc.prems(2) by auto
  obtain g where g: "store_scan n (idx + 1) t h k g = Inr f'"
    "g = f \<or> f = 0xFFFFFFFF \<and> g = idx \<and> \<not> allocated (entry t (unat idx))"
    using Suc.prems(1) by (auto simp: Let_def split: if_splits)
  from Suc.IH [OF g(1)] Suc.prems(2) u g(2) ne show ?case by auto
qed simp

lemma u32_double: "unat (c :: u32) < 2 ^ 31 \<Longrightarrow> unat (c * 2) = 2 * unat c"
  by (simp add: unat_word_ariths)

lemma grow_spec:
  assumes wf: "table_wf t" and B: "heap_has kh B" and e: "entries t \<noteq> 0 \<longrightarrow> entries t \<in> B"
    and lim: "unat (capacity t) < TABLE_LIMIT"
  obtains r t' kh' where "zaclr_handle_table_grow t kh = Some (r, t', kh')"
    and "heap_has kh' (B - {entries t} \<union> ({entries t'} - {0}))"
    and "\<not> is_ok r \<Longrightarrow> t' = t"
    and "is_ok r \<Longrightarrow> table_wf t' \<and> entries t' \<noteq> 0 \<and> entries t' \<notin> B \<and> count t' = count t
      \<and> unat (capacity t') = (if capacity t = 0 then 8 else 2 * unat (capacity t))
      \<and> (\<forall>i < unat (count t). entry t' i = entry t i)"
proof -
  let ?c = "if capacity t = 0 then 8 else capacity t * 2"
  have uc: "unat ?c = (if capacity t = 0 then 8 else 2 * unat (capacity t))"
    using lim u32_double [of "capacity t"] by simp
  have gt: "\<not> ?c \<le> capacity t" using uc by (auto simp: word_le_nat_alt unat_eq_zero)
  have sz: "unat (SIZEOF_ZACLR_GC_HANDLE_ENTRY * ucast ?c :: u64) = 16 * unat ?c"
    using uc lim by (simp add: unat_word_ariths unat_ucast_u64)
  have fit: "unat (SIZEOF_ZACLR_GC_HANDLE_ENTRY * ucast ?c :: u64) \<le> 2 ^ 32 - 32" using sz uc lim by simp
  have B0: "0 \<notin> B" using heap_has_nonzero [OF B] .
  have id0: "B - {entries t} \<union> ({entries t} - {0}) = B" using e B0 by auto
  obtain p kh1 where a: "kernel_alloc (SIZEOF_ZACLR_GC_HANDLE_ENTRY * ucast ?c) kh = Some (p, kh1)"
    "p = 0 \<Longrightarrow> heap_has kh1 B" "p \<noteq> 0 \<Longrightarrow> p \<notin> B \<and> heap_has kh1 (insert p B)"
    using heap_has_alloc [OF B fit] by blast
  show thesis
  proof (cases "p = 0")
    case True
    then show thesis
      using a gt id0 by (intro that [of "zaclr_result_make ZACLR_STATUS_OUT_OF_MEMORY ZACLR_STATUS_CATEGORY_PROCESS" t kh1])
        (simp_all add: zaclr_handle_table_grow_def Let_def)
  next
    case False
    let ?kh = "if entries t \<noteq> 0 then kernel_free (entries t) kh1 else kh1"
    let ?t = "t\<lparr>entries := p, entry := (if entries t \<noteq> 0 \<and> count t \<noteq> 0
      then (\<lambda>i. if i < unat (count t) then entry t i else empty_entry) else (\<lambda>_. empty_entry)), capacity := ?c\<rparr>"
    have "zaclr_handle_table_grow t kh = Some (zaclr_result_ok, ?t, ?kh)"
      using a(1) gt False by (simp add: zaclr_handle_table_grow_def Let_def)
    moreover have "heap_has ?kh (B - {entries t} \<union> ({entries ?t} - {0}))"
    proof (cases "entries t = 0")
      case True
      then show ?thesis using a(3) False B0 by simp
    next
      case e0: False
      have "heap_has (kernel_free (entries t) kh1) (insert p B - {entries t})"
        using heap_has_free a(3) False e e0 by blast
      moreover have "insert p B - {entries t} = B - {entries t} \<union> ({p} - {0})" using a(3) False e e0 by auto
      ultimately show ?thesis using e0 by simp
    qed
    moreover have "count t \<le> ?c" using wf gt by (auto simp: table_wf_def)
    moreover have "entry ?t i = entry t i" if "i < unat (count t)" for i
      using that wf by (auto simp: table_wf_def)
    ultimately show thesis
      using a(3) False uc by (intro that [of zaclr_result_ok ?t ?kh]) (auto simp: table_wf_def)
  qed
qed

lemma byte_kind: "(k :: u32) < 256 \<Longrightarrow> ucast (ucast k :: u8) = k"
  by (simp add: word_unat_eq_iff unsigned_ucast_eq take_bit_eq_mod word_less_nat_alt unat_mod)

lemma store_ex_spec:
  assumes wf: "table_wf t" and B: "heap_has kh B" and e: "entries t \<noteq> 0 \<longrightarrow> entries t \<in> B"
    and lim: "unat (count t) < TABLE_LIMIT"
  obtains r io t' kh' where "zaclr_handle_table_store_ex h k t kh = Some ((r, io), t', kh')"
    and "table_wf t'" and "heap_has kh' (B - {entries t} \<union> ({entries t'} - {0}))"
    and "entries t' = entries t \<or> entries t' \<notin> B"
    and "count t' = count t \<or> count t' = count t + 1"
    and "\<not> is_ok r \<Longrightarrow> t' = t"
    and "is_ok r \<Longrightarrow> \<exists>i. io = Some i \<and> i < count t' \<and> (count t' = count t \<or> i = count t) \<and> allocated (entry t' (unat i)) \<and> he_handle (entry t' (unat i)) = h
      \<and> (k < 256 \<longrightarrow> ucast (he_kind (entry t' (unat i))) = k)
      \<and> (\<forall>j < unat (count t). j \<noteq> unat i \<or> allocated (entry t j) \<longrightarrow> entry t' j = entry t j)"
proof -
  let ?n = "unat (count t)"
  have B0: "B - {entries t} \<union> ({entries t} - {0}) = B" using e heap_has_nonzero [OF B] by auto
  have used: "allocated (used_entry h k)" "he_handle (used_entry h k) = h"
    "k < 256 \<Longrightarrow> ucast (he_kind (used_entry h k)) = k"
    by (simp_all add: allocated_def used_entry_def byte_kind)
  consider (found) i where "store_scan ?n 0 t h k 0xFFFFFFFF = Inl i"
    | (free) i where "store_scan ?n 0 t h k 0xFFFFFFFF = Inr i" "i \<noteq> 0xFFFFFFFF"
    | (full) "store_scan ?n 0 t h k 0xFFFFFFFF = Inr 0xFFFFFFFF"
    by (cases "store_scan ?n 0 t h k 0xFFFFFFFF") auto
  then show thesis
  proof cases
    case found
    note f = store_scan_found [OF found]
    show thesis
      using f lim found wf B0 B
      by (intro that [of zaclr_result_ok "Some i" t kh])
        (auto simp: zaclr_handle_table_store_ex_def word_less_nat_alt)
  next
    case free
    then have f: "unat i < ?n" "\<not> allocated (entry t (unat i))" using store_scan_free [OF free(1)] lim by auto
    show thesis
      using f free wf B0 B used
      by (intro that [of zaclr_result_ok "Some i" "put_entry i (used_entry h k) t" kh])
        (auto simp: zaclr_handle_table_store_ex_def put_entry_def table_wf_def word_less_nat_alt)
  next
    case full
    have step: "zaclr_handle_table_store_ex h k t kh =
      do {
        (r, t, kh) \<leftarrow> (if entries t = 0 \<or> count t \<ge> capacity t then zaclr_handle_table_grow t kh else Some (zaclr_result_ok, t, kh));
        if \<not> is_ok r then Some ((r, None), t, kh)
        else Some ((zaclr_result_ok, Some (count t)), (put_entry (count t) (used_entry h k) t)\<lparr>count := count t + 1\<rparr>, kh)
      }"
      using full by (simp add: zaclr_handle_table_store_ex_def)
    have inc: "unat (count t + 1) = ?n + 1" using lim unat_add_lem [of "count t" 1] by simp
    show thesis
    proof (cases "entries t = 0 \<or> count t \<ge> capacity t")
      case True
      have lim': "unat (capacity t) < TABLE_LIMIT" using True wf lim by (auto simp: table_wf_def word_le_nat_alt)
      obtain r t1 kh1 where g: "zaclr_handle_table_grow t kh = Some (r, t1, kh1)"
        "heap_has kh1 (B - {entries t} \<union> ({entries t1} - {0}))" "\<not> is_ok r \<Longrightarrow> t1 = t"
        "is_ok r \<Longrightarrow> table_wf t1 \<and> entries t1 \<noteq> 0 \<and> entries t1 \<notin> B \<and> count t1 = count t
          \<and> unat (capacity t1) = (if capacity t = 0 then 8 else 2 * unat (capacity t))
          \<and> (\<forall>i < unat (count t). entry t1 i = entry t i)"
        using grow_spec [OF wf B e lim'] by metis
      show thesis
      proof (cases "is_ok r")
        case False
        then show thesis using g True step wf by (intro that [of r None t kh1]) simp_all
      next
        case ok: True
        let ?t = "(put_entry (count t) (used_entry h k) t1)\<lparr>count := count t + 1\<rparr>"
        have "capacity t \<noteq> 0 \<Longrightarrow> 0 < unat (capacity t)" by (simp add: unat_gt_0)
        then have "?n < unat (capacity t1)" using g(4) [OF ok] wf by (cases "capacity t = 0") (simp_all add: table_wf_def word_le_nat_alt)
        then have "count t + 1 \<le> capacity t1" using inc by (simp add: word_le_nat_alt)
        moreover have "zaclr_handle_table_store_ex h k t kh = Some ((zaclr_result_ok, Some (count t)), ?t, kh1)"
          using step True g(1) g(4) [OF ok] ok by simp
        ultimately show thesis
          using g(2) g(4) [OF ok] used inc
          by (intro that [of zaclr_result_ok "Some (count t)" ?t kh1])
            (auto simp: put_entry_def table_wf_def word_less_nat_alt)
      qed
    next
      case False
      let ?t = "(put_entry (count t) (used_entry h k) t)\<lparr>count := count t + 1\<rparr>"
      have "?n < unat (capacity t)" using False by (simp add: word_le_nat_alt)
      then have "count t + 1 \<le> capacity t" using inc by (simp add: word_le_nat_alt)
      then show thesis
        using False step B B0 used inc
        by (intro that [of zaclr_result_ok "Some (count t)" ?t kh])
          (auto simp: put_entry_def table_wf_def word_less_nat_alt)
    qed
  qed
qed

end
