(* ===== verification/Zaclr_Gc.thy ===== *)
theory Zaclr_Gc
  imports Zaclr_Object Zaclr_Handles
begin

text \<open>
  The managed heap and its collector (\<^verbatim>\<open>heap/zaclr_heap.cpp\<close>, \<^verbatim>\<open>heap/zaclr_gc.cpp\<close>,
  \<^verbatim>\<open>heap/zaclr_gc_roots.cpp\<close>). The runtime state holds the objects by address, typed, beside the
  kernel heap from which their blocks come; the kernel heap's own memory keeps only its headers
  here. The node table of the heap is an array in a block of the kernel heap, \<open>nodes\<close> is its address
  and \<open>node\<close> its contents. The frames of the running thread and the assemblies of the current domain
  are lists (the code follows \<open>parent\<close> and \<open>next\<close> pointers or counts to the end of an array); an array
  of stack values that is \<open>NULL\<close> is the empty list.

  Not modelled here: \<open>zaclr_gc_wait_for_pending_finalizers\<close>, which runs the finalizers in the
  interpreter, and trace output.
\<close>

abbreviation (input) "ZACLR_HEAP_FLAG_GC_ACTIVE \<equiv> (1 :: u32)"
abbreviation (input) "ZACLR_HEAP_DEFAULT_THRESHOLD_BYTES \<equiv> (64 * 1024 :: u32)"
abbreviation (input) "ZACLR_TYPE_RUNTIME_FLAG_HAS_FINALIZER \<equiv> (1 :: u32)"
abbreviation (input) "SIZEOF_ZACLR_HEAP_OBJECT_NODE \<equiv> (16 :: u64)"

record zaclr_heap_object_node =
  object :: u64
  allocation_size :: u32
  used :: u8

definition empty_node :: zaclr_heap_object_node where
  "empty_node = \<lparr>object = 0, allocation_size = 0, used = 0\<rparr>"

record zaclr_frame =
  arguments :: "zaclr_stack_value list"
  locals :: "zaclr_stack_value list"
  eval_values :: "zaclr_stack_value list"
  eval_depth :: u32

record zaclr_loaded_assembly =
  static_fields :: "zaclr_stack_value list"
  generic_static_fields :: "zaclr_stack_value list"
  runtime_type_cache :: "u64 list"
  exposed_assembly_handle :: u64

record zaclr_runtime =
  heap_runtime :: bool
  heap_flags :: u32
  nodes :: u64
  node :: "nat \<Rightarrow> zaclr_heap_object_node"
  node_count :: u32
  node_capacity :: u32
  live_object_count :: u32
  allocated_bytes :: u32
  collection_threshold_bytes :: u32
  collection_count :: u32
  finalizer_queue :: zaclr_handle_table
  handle_table :: zaclr_handle_table
  current_exception :: u64
  active_frame :: "zaclr_frame list"
  registry :: "zaclr_loaded_assembly list"
  objs :: "u64 \<Rightarrow> zaclr_object_desc"
  kh :: kheap

definition upd_obj :: "u64 \<Rightarrow> (zaclr_object_desc \<Rightarrow> zaclr_object_desc) \<Rightarrow> zaclr_runtime \<Rightarrow> zaclr_runtime" where
  "upd_obj a f rt = rt\<lparr>objs := (objs rt)(a := f (objs rt a))\<rparr>"

subsection \<open>Roots\<close>

definition visit_stack_values :: "zaclr_stack_value list \<Rightarrow> nat \<Rightarrow> u64 list" where
  "visit_stack_values vs n = concat (map value_reference (take n vs))"

definition enumerate_assembly_static_roots :: "zaclr_loaded_assembly \<Rightarrow> u64 list" where
  "enumerate_assembly_static_roots asm =
     visit_stack_values (static_fields asm) (length (static_fields asm))
     @ concat (map (\<lambda>v. visit_stack_values [v] 1) (generic_static_fields asm))
     @ filter (\<lambda>h. h \<noteq> 0) (runtime_type_cache asm)
     @ (if exposed_assembly_handle asm \<noteq> 0 then [exposed_assembly_handle asm] else [])"

definition strong_entry :: "zaclr_gc_handle_entry \<Rightarrow> bool" where
  "strong_entry e \<longleftrightarrow> he_handle e \<noteq> 0 \<and> ucast (he_kind e) \<noteq> ZACLR_GC_HANDLE_KIND_WEAK
     \<and> ucast (he_kind e) \<noteq> ZACLR_GC_HANDLE_KIND_WEAK_TRACK_RESURRECTION"

definition enumerate_handle_table_roots :: "zaclr_handle_table \<Rightarrow> u64 list" where
  "enumerate_handle_table_roots t =
     map he_handle (filter strong_entry (map (entry t) [0 ..< unat (count t)]))"

definition enumerate_frame_roots :: "zaclr_frame \<Rightarrow> u64 list" where
  "enumerate_frame_roots f =
     visit_stack_values (arguments f) (length (arguments f))
     @ visit_stack_values (locals f) (length (locals f))
     @ visit_stack_values (eval_values f) (unat (eval_depth f))"

definition enumerate_thread_roots :: "u64 \<Rightarrow> zaclr_frame list \<Rightarrow> u64 list" where
  "enumerate_thread_roots exc frames =
     (if exc \<noteq> 0 then [exc] else []) @ concat (map enumerate_frame_roots frames)"

definition enumerate_runtime_roots :: "zaclr_runtime \<Rightarrow> u64 list" where
  "enumerate_runtime_roots rt =
     enumerate_handle_table_roots (finalizer_queue rt)
     @ enumerate_handle_table_roots (handle_table rt)
     @ enumerate_thread_roots (current_exception rt) (active_frame rt)
     @ concat (map enumerate_assembly_static_roots (registry rt))"

subsection \<open>Marking\<close>

text \<open>
  \<open>mark_objects rs os\<close> runs \<open>zaclr_gc_mark_object_impl\<close> on the references \<open>rs\<close> one after another.
  The code is recursive without a bound on its depth; \<open>None\<close> would mean that it does not return.
\<close>

partial_function (option) mark_objects ::
  "u64 list \<Rightarrow> (u64 \<Rightarrow> zaclr_object_desc) \<Rightarrow> (u64 \<Rightarrow> zaclr_object_desc) option" where
  "mark_objects rs os =
     (case rs of
        [] \<Rightarrow> Some os
      | r # rest \<Rightarrow>
          do {
            os' \<leftarrow> (if r = 0 \<or> zaclr_object_is_marked (os r) then Some os
                   else mark_objects (object_children (os r)) (os(r := zaclr_object_set_marked True (os r))));
            mark_objects rest os'
          })"

definition zaclr_gc_mark_object :: "u64 \<Rightarrow> zaclr_runtime \<Rightarrow> zaclr_runtime option" where
  "zaclr_gc_mark_object a rt = do { os \<leftarrow> mark_objects [a] (objs rt); Some (rt\<lparr>objs := os\<rparr>) }"

definition node_live :: "zaclr_heap_object_node \<Rightarrow> bool" where
  "node_live nd \<longleftrightarrow> used nd \<noteq> 0 \<and> object nd \<noteq> 0"

definition zaclr_heap_clear_marks :: "zaclr_runtime \<Rightarrow> zaclr_runtime" where
  "zaclr_heap_clear_marks rt =
     fold (\<lambda>i rt. if node_live (node rt i) then upd_obj (object (node rt i)) (\<lambda>ob. ob\<lparr>gc_mark := 0\<rparr>) rt else rt)
       [0 ..< unat (node_count rt)] rt"

subsection \<open>Weak handles\<close>

text \<open>A handle is the address of its object, and \<open>zaclr_heap_get_object\<close> is \<open>NULL\<close> only for 0.\<close>

definition zaclr_heap_get_object :: "u64 \<Rightarrow> u64 option" where
  "zaclr_heap_get_object h = (if h = 0 then None else Some h)"

definition clear_short_weak_entry :: "(u64 \<Rightarrow> zaclr_object_desc) \<Rightarrow> zaclr_gc_handle_entry \<Rightarrow> zaclr_gc_handle_entry" where
  "clear_short_weak_entry os e =
     (if he_handle e = 0 then e
      else if ucast (he_kind e) \<noteq> ZACLR_GC_HANDLE_KIND_WEAK then e
      else case zaclr_heap_get_object (he_handle e) of
             None \<Rightarrow> e\<lparr>he_handle := 0\<rparr>
           | Some a \<Rightarrow> if \<not> zaclr_object_is_marked (os a) then e\<lparr>he_handle := 0\<rparr> else e)"

definition zaclr_gc_clear_short_weak_handles :: "zaclr_runtime \<Rightarrow> zaclr_runtime" where
  "zaclr_gc_clear_short_weak_handles rt =
     (let t = handle_table rt
      in if entries t = 0 then rt
         else rt\<lparr>handle_table := t\<lparr>entry :=
                (\<lambda>i. if i < unat (count t) then clear_short_weak_entry (objs rt) (entry t i) else entry t i)\<rparr>\<rparr>)"

definition clear_long_weak_entry :: "zaclr_gc_handle_entry \<Rightarrow> zaclr_gc_handle_entry" where
  "clear_long_weak_entry e =
     (if he_handle e = 0 \<or> ucast (he_kind e) \<noteq> ZACLR_GC_HANDLE_KIND_WEAK_TRACK_RESURRECTION then e
      else if zaclr_heap_get_object (he_handle e) = None then e\<lparr>he_handle := 0\<rparr> else e)"

definition zaclr_gc_clear_long_weak_handles :: "zaclr_runtime \<Rightarrow> zaclr_runtime" where
  "zaclr_gc_clear_long_weak_handles rt =
     (let t = handle_table rt
      in if entries t = 0 then rt
         else rt\<lparr>handle_table := t\<lparr>entry := (\<lambda>i. if i < unat (count t) then clear_long_weak_entry (entry t i) else entry t i)\<rparr>\<rparr>)"

subsection \<open>Finalization\<close>

definition finalizable :: "zaclr_object_desc \<Rightarrow> bool" where
  "finalizable ob \<longleftrightarrow> gc_state ob AND ZACLR_OBJECT_GC_STATE_FINALIZER_SUPPRESSED = 0
     \<and> gc_state ob AND ZACLR_OBJECT_GC_STATE_FINALIZER_PENDING \<noteq> 0
     \<and> gc_state ob AND ZACLR_OBJECT_GC_STATE_FINALIZER_QUEUED = 0"

text \<open>The loop over \<open>n\<close> nodes from \<open>i\<close> on.\<close>

primrec promote_loop :: "nat \<Rightarrow> nat \<Rightarrow> zaclr_runtime \<Rightarrow> (zaclr_result \<times> zaclr_runtime) option" where
  "promote_loop 0 i rt = Some (zaclr_result_ok, rt)"
| "promote_loop (Suc n) i rt =
     (let a = object (node rt i)
      in if \<not> node_live (node rt i) then promote_loop n (Suc i) rt
         else if zaclr_object_is_marked (objs rt a) \<or> \<not> finalizable (objs rt a) then promote_loop n (Suc i) rt
         else
           do {
             ((r, _), q, k) \<leftarrow> zaclr_handle_table_store_ex a ZACLR_GC_HANDLE_KIND_STRONG (finalizer_queue rt) (kh rt);
             let rt = rt\<lparr>finalizer_queue := q, kh := k\<rparr>;
             if \<not> is_ok r then Some (r, rt)
             else
               do {
                 rt \<leftarrow> zaclr_gc_mark_object a
                   (upd_obj a (\<lambda>ob. ob\<lparr>gc_state := gc_state ob OR ZACLR_OBJECT_GC_STATE_FINALIZER_QUEUED\<rparr>) rt);
                 promote_loop n (Suc i) rt
               }
           })"

definition zaclr_gc_promote_unreachable_finalizable_objects :: "zaclr_runtime \<Rightarrow> (zaclr_result \<times> zaclr_runtime) option" where
  "zaclr_gc_promote_unreachable_finalizable_objects rt =
     (if nodes rt = 0 then Some (zaclr_result_ok, rt) else promote_loop (unat (node_count rt)) 0 rt)"

subsection \<open>Sweeping\<close>

definition zaclr_heap_release_node :: "nat \<Rightarrow> zaclr_runtime \<Rightarrow> zaclr_runtime" where
  "zaclr_heap_release_node i rt =
     (if i \<ge> unat (node_count rt) then rt
      else if \<not> node_live (node rt i) then rt\<lparr>node := (node rt)(i := empty_node)\<rparr>
      else
        rt\<lparr>allocated_bytes := (if allocated_bytes rt \<ge> allocation_size (node rt i)
             then allocated_bytes rt - allocation_size (node rt i) else 0),
           live_object_count := (if live_object_count rt \<noteq> 0 then live_object_count rt - 1 else live_object_count rt),
           kh := kernel_free (object (node rt i)) (kh rt),
           node := (node rt)(i := empty_node)\<rparr>)"

definition sweep_node :: "nat \<Rightarrow> zaclr_runtime \<Rightarrow> zaclr_runtime" where
  "sweep_node i rt =
     (let ob = objs rt (object (node rt i))
      in if \<not> node_live (node rt i) then rt
         else if gc_mark ob = 0 \<and> gc_state ob AND ZACLR_OBJECT_GC_STATE_PINNED = 0 then zaclr_heap_release_node i rt
         else rt)"

definition zaclr_heap_sweep_unmarked :: "zaclr_runtime \<Rightarrow> zaclr_runtime" where
  "zaclr_heap_sweep_unmarked rt =
     (let rt = fold sweep_node [0 ..< unat (node_count rt)] rt
      in rt\<lparr>collection_count := collection_count rt + 1\<rparr>)"

subsection \<open>Collecting\<close>

definition zaclr_gc_collect :: "zaclr_runtime \<Rightarrow> (zaclr_result \<times> zaclr_runtime) option" where
  "zaclr_gc_collect rt =
     (if heap_flags rt AND ZACLR_HEAP_FLAG_GC_ACTIVE \<noteq> 0 then Some (zaclr_result_ok, rt)
      else
        do {
          let rt = zaclr_heap_clear_marks (rt\<lparr>heap_flags := heap_flags rt OR ZACLR_HEAP_FLAG_GC_ACTIVE\<rparr>);
          os \<leftarrow> mark_objects (enumerate_runtime_roots rt) (objs rt);
          let rt = zaclr_gc_clear_short_weak_handles (rt\<lparr>objs := os\<rparr>);
          (r, rt) \<leftarrow> zaclr_gc_promote_unreachable_finalizable_objects rt;
          if \<not> is_ok r then Some (r, rt\<lparr>heap_flags := heap_flags rt AND NOT ZACLR_HEAP_FLAG_GC_ACTIVE\<rparr>)
          else
            (let rt = zaclr_gc_clear_long_weak_handles (zaclr_heap_sweep_unmarked rt)
             in Some (zaclr_result_ok, rt\<lparr>heap_flags := heap_flags rt AND NOT ZACLR_HEAP_FLAG_GC_ACTIVE\<rparr>))
        })"

definition zaclr_gc_collection_count :: "zaclr_runtime \<Rightarrow> u32" where
  "zaclr_gc_collection_count rt = collection_count rt"

subsection \<open>Suppressing and requesting finalization\<close>

abbreviation (input) "k_finalizer_state_mask \<equiv> ZACLR_OBJECT_GC_STATE_FINALIZER_PENDING OR
  ZACLR_OBJECT_GC_STATE_FINALIZER_QUEUED OR ZACLR_OBJECT_GC_STATE_FINALIZER_COMPLETE"

definition zaclr_gc_object_has_finalizer :: "zaclr_object_desc \<Rightarrow> bool" where
  "zaclr_gc_object_has_finalizer ob \<longleftrightarrow>
     (case method_table ob of None \<Rightarrow> False
      | Some mt \<Rightarrow> (case mt_type_flags mt of None \<Rightarrow> False | Some f \<Rightarrow> f AND ZACLR_TYPE_RUNTIME_FLAG_HAS_FINALIZER \<noteq> 0))"

definition zaclr_gc_remove_handle_from_table :: "u64 \<Rightarrow> zaclr_handle_table \<Rightarrow> zaclr_handle_table" where
  "zaclr_gc_remove_handle_from_table h t =
     (if h = 0 \<or> entries t = 0 then t
      else t\<lparr>entry := (\<lambda>i. if i < unat (count t) \<and> he_handle (entry t i) = h then empty_entry else entry t i)\<rparr>)"

definition zaclr_gc_suppress_finalize :: "u64 \<Rightarrow> zaclr_runtime \<Rightarrow> zaclr_result \<times> zaclr_runtime" where
  "zaclr_gc_suppress_finalize h rt =
     (if h = 0 then (zaclr_result_make ZACLR_STATUS_INVALID_ARGUMENT ZACLR_STATUS_CATEGORY_HEAP, rt)
      else case zaclr_heap_get_object h of
             None \<Rightarrow> (zaclr_result_make ZACLR_STATUS_NOT_FOUND ZACLR_STATUS_CATEGORY_HEAP, rt)
           | Some a \<Rightarrow>
               (let rt = upd_obj a (\<lambda>ob. ob\<lparr>gc_state := (gc_state ob AND NOT k_finalizer_state_mask)
                      OR ZACLR_OBJECT_GC_STATE_FINALIZER_SUPPRESSED\<rparr>) rt
                in (zaclr_result_ok, rt\<lparr>finalizer_queue := zaclr_gc_remove_handle_from_table h (finalizer_queue rt)\<rparr>)))"

definition zaclr_gc_reregister_for_finalize :: "u64 \<Rightarrow> zaclr_runtime \<Rightarrow> zaclr_result \<times> zaclr_runtime" where
  "zaclr_gc_reregister_for_finalize h rt =
     (if h = 0 then (zaclr_result_make ZACLR_STATUS_INVALID_ARGUMENT ZACLR_STATUS_CATEGORY_HEAP, rt)
      else case zaclr_heap_get_object h of
             None \<Rightarrow> (zaclr_result_make ZACLR_STATUS_NOT_FOUND ZACLR_STATUS_CATEGORY_HEAP, rt)
           | Some a \<Rightarrow>
               if \<not> zaclr_gc_object_has_finalizer (objs rt a) then (zaclr_result_ok, rt)
               else
                 (let rt = upd_obj a (\<lambda>ob. ob\<lparr>gc_state := ((gc_state ob AND NOT k_finalizer_state_mask)
                        AND NOT ZACLR_OBJECT_GC_STATE_FINALIZER_SUPPRESSED) OR ZACLR_OBJECT_GC_STATE_FINALIZER_PENDING\<rparr>) rt
                  in (zaclr_result_ok, rt\<lparr>finalizer_queue := zaclr_gc_remove_handle_from_table h (finalizer_queue rt)\<rparr>)))"

subsection \<open>Allocating\<close>

text \<open>The loop that doubles the capacity of the node table; \<open>Some None\<close> is its overflow exit.\<close>

partial_function (option) double_until :: "u32 \<Rightarrow> u32 \<Rightarrow> u32 option option" where
  "double_until cap mn =
     (if cap < mn then (if cap > 0x7FFFFFFF then Some None else double_until (cap * 2) mn) else Some (Some cap))"

definition zaclr_heap_reserve_nodes :: "u32 \<Rightarrow> zaclr_runtime \<Rightarrow> (zaclr_result \<times> zaclr_runtime) option" where
  "zaclr_heap_reserve_nodes mn rt =
     (if mn \<le> node_capacity rt then Some (zaclr_result_ok, rt)
      else
        do {
          d \<leftarrow> double_until (if node_capacity rt = 0 then 16 else node_capacity rt) mn;
          case d of
            None \<Rightarrow> Some (zaclr_result_make ZACLR_STATUS_OUT_OF_MEMORY ZACLR_STATUS_CATEGORY_HEAP, rt)
          | Some new_capacity \<Rightarrow>
              do {
                (p, k) \<leftarrow> kernel_alloc (SIZEOF_ZACLR_HEAP_OBJECT_NODE * ucast new_capacity) (kh rt);
                if p = 0 then Some (zaclr_result_make ZACLR_STATUS_OUT_OF_MEMORY ZACLR_STATUS_CATEGORY_HEAP, rt\<lparr>kh := k\<rparr>)
                else Some (zaclr_result_ok,
                       rt\<lparr>node := (\<lambda>i. if i < unat (node_count rt) then node rt i else empty_node),
                          kh := (if nodes rt \<noteq> 0 then kernel_free (nodes rt) k else k),
                          nodes := p, node_capacity := new_capacity\<rparr>)
              }
        })"

definition zaclr_heap_initialize :: "bool \<Rightarrow> zaclr_runtime \<Rightarrow> zaclr_runtime" where
  "zaclr_heap_initialize runtime rt =
     rt\<lparr>heap_runtime := runtime, heap_flags := 0, nodes := 0, node := (\<lambda>_. empty_node), node_count := 0, node_capacity := 0,
        live_object_count := 0, allocated_bytes := 0, collection_threshold_bytes := ZACLR_HEAP_DEFAULT_THRESHOLD_BYTES,
        collection_count := 0\<rparr>"

definition zaclr_heap_reset :: "zaclr_runtime \<Rightarrow> zaclr_runtime" where
  "zaclr_heap_reset rt =
     (let rt = fold zaclr_heap_release_node [0 ..< unat (node_count rt)] rt;
          rt = (if nodes rt \<noteq> 0 then rt\<lparr>kh := kernel_free (nodes rt) (kh rt)\<rparr> else rt)
      in rt\<lparr>heap_runtime := False, heap_flags := 0, nodes := 0, node := (\<lambda>_. empty_node), node_count := 0, node_capacity := 0,
           live_object_count := 0, allocated_bytes := 0, collection_threshold_bytes := 0, collection_count := 0\<rparr>)"

definition new_object :: "u64 \<Rightarrow> u64 \<Rightarrow> u32 \<Rightarrow> u32 \<Rightarrow> u32 \<Rightarrow> zaclr_object_desc" where
  "new_object sz asm tid fam flags =
     \<lparr>size_bytes = ucast sz, family = ucast fam, gc_mark = 0, gc_state = ZACLR_OBJECT_GC_STATE_NONE, sync_block_index = 0,
      obj_flags = flags, method_table = None, owning_assembly = asm, type_id = tid, tail = (\<lambda>_. 0)\<rparr>"

text \<open>
  The allocator collects first when the heap is past its threshold, and once more when the kernel
  heap is exhausted. The state records whether the heap belongs to a runtime, which is then the
  runtime itself. \<open>out\<close> is what \<open>*out_object\<close> holds before the call, the last component of the result what it
  holds afterwards; an allocation below the size of the header leaves it alone.
\<close>

definition place_object :: "u64 \<Rightarrow> zaclr_object_desc \<Rightarrow> u64 \<Rightarrow> zaclr_runtime \<Rightarrow> zaclr_runtime" where
  "place_object a ob sz rt =
     rt\<lparr>objs := (objs rt)(a := ob),
        node := (node rt)(unat (node_count rt) := \<lparr>object = a, allocation_size = ucast sz, used = 1\<rparr>),
        node_count := node_count rt + 1, live_object_count := live_object_count rt + 1,
        allocated_bytes := allocated_bytes rt + ucast sz\<rparr>"

definition over_threshold :: "u64 \<Rightarrow> zaclr_runtime \<Rightarrow> bool" where
  "over_threshold sz rt \<longleftrightarrow> heap_runtime rt \<and> collection_threshold_bytes rt \<noteq> 0 \<and> sz \<le> 0xFFFFFFFF
     \<and> allocated_bytes rt > collection_threshold_bytes rt - ucast sz"

definition alloc_block :: "u64 \<Rightarrow> zaclr_runtime \<Rightarrow> (zaclr_result \<times> u64 \<times> zaclr_runtime) option" where
  "alloc_block sz rt =
     do {
       (a, k) \<leftarrow> kernel_alloc sz (kh rt);
       let rt = rt\<lparr>kh := k\<rparr>;
       if a \<noteq> 0 then Some (zaclr_result_ok, a, rt)
       else
         do {
           (r, a, rt) \<leftarrow> (if heap_runtime rt \<and> heap_flags rt AND ZACLR_HEAP_FLAG_GC_ACTIVE = 0 then
                do {
                  (r, rt) \<leftarrow> zaclr_gc_collect rt;
                  if \<not> is_ok r then Some (r, 0, rt)
                  else do { (a, k) \<leftarrow> kernel_alloc sz (kh rt); Some (zaclr_result_ok, a, rt\<lparr>kh := k\<rparr>) }
                }
              else Some (zaclr_result_ok, 0, rt));
           if \<not> is_ok r then Some (r, 0, rt)
           else if a = 0 then Some (zaclr_result_make ZACLR_STATUS_OUT_OF_MEMORY ZACLR_STATUS_CATEGORY_HEAP, 0, rt)
           else Some (zaclr_result_ok, a, rt)
         }
     }"

definition zaclr_heap_allocate_object ::
  "u64 \<Rightarrow> u64 \<Rightarrow> u32 \<Rightarrow> u32 \<Rightarrow> u32 \<Rightarrow> u64 \<Rightarrow> zaclr_runtime \<Rightarrow> (zaclr_result \<times> zaclr_runtime \<times> u64) option" where
  "zaclr_heap_allocate_object sz asm tid fam flags out rt =
     (if sz < SIZEOF_ZACLR_OBJECT_DESC
      then Some (zaclr_result_make ZACLR_STATUS_INVALID_ARGUMENT ZACLR_STATUS_CATEGORY_HEAP, rt, out)
      else
        do {
          (r, rt) \<leftarrow> (if over_threshold sz rt then zaclr_gc_collect rt else Some (zaclr_result_ok, rt));
          if \<not> is_ok r then Some (r, rt, 0)
          else
            do {
              (r, rt) \<leftarrow> zaclr_heap_reserve_nodes (node_count rt + 1) rt;
              if \<not> is_ok r then Some (r, rt, 0)
              else
                do {
                  (r, a, rt) \<leftarrow> alloc_block sz rt;
                  if \<not> is_ok r then Some (r, rt, 0)
                  else Some (zaclr_result_ok, place_object a (new_object sz asm tid fam flags) sz rt, a)
                }
            }
        })"

definition zaclr_heap_get_object_handle :: "u64 \<Rightarrow> u64" where
  "zaclr_heap_get_object_handle a = a"

definition zaclr_heap_live_object_count :: "zaclr_runtime \<Rightarrow> u32" where
  "zaclr_heap_live_object_count rt = live_object_count rt"

definition zaclr_heap_allocated_bytes :: "zaclr_runtime \<Rightarrow> u32" where
  "zaclr_heap_allocated_bytes rt = allocated_bytes rt"

subsection \<open>Arrays\<close>

definition zaclr_array_object_flags :: "zaclr_token \<Rightarrow> u32" where
  "zaclr_array_object_flags et =
     (let table = zaclr_token_table et
      in ZACLR_OBJECT_FLAG_REFERENCE_TYPE OR
         (if table = ZACLR_TOKEN_TABLE_TYPEREF \<or> table = ZACLR_TOKEN_TABLE_TYPEDEF \<or> table = ZACLR_TOKEN_TABLE_TYPESPEC
          then ZACLR_OBJECT_FLAG_CONTAINS_REFERENCES else 0))"

definition array_init :: "zaclr_token \<Rightarrow> u32 \<Rightarrow> u32 \<Rightarrow> zaclr_object_desc \<Rightarrow> zaclr_object_desc" where
  "array_init et esz len ob =
     ob\<lparr>tail := write_u32 8 0 (write_u32 0 len (write_u32 4 esz (write_u32 12 (raw et) (tail ob))))\<rparr>"

definition zaclr_array_allocate ::
  "u32 \<Rightarrow> zaclr_token \<Rightarrow> u32 \<Rightarrow> u32 \<Rightarrow> u64 \<Rightarrow> zaclr_runtime \<Rightarrow> (zaclr_result \<times> zaclr_runtime \<times> u64) option" where
  "zaclr_array_allocate tid et esz len out rt =
     (if esz = 0 then Some (zaclr_result_make ZACLR_STATUS_INVALID_ARGUMENT ZACLR_STATUS_CATEGORY_HEAP, rt, out)
      else
        (let data_size = esz * len;
             allocation_size = 56 + ucast data_size
         in do {
              (r, rt, a) \<leftarrow> zaclr_heap_allocate_object allocation_size 0 tid (ucast ZACLR_OBJECT_FAMILY_ARRAY)
                 (zaclr_array_object_flags et) 0 rt;
              if \<not> is_ok r then Some (r, rt, out)
              else Some (zaclr_result_ok, upd_obj a (array_init et esz len) rt, a)
            }))"

section \<open>Marking computes reachability\<close>

text \<open>
  \<open>gc_reach os R\<close>: the objects that the collector can reach from the references \<open>R\<close> through the
  references it follows.
\<close>

inductive_set gc_reach :: "(u64 \<Rightarrow> zaclr_object_desc) \<Rightarrow> u64 set \<Rightarrow> u64 set" for os R where
  root: "a \<in> R \<Longrightarrow> a \<noteq> 0 \<Longrightarrow> a \<in> gc_reach os R"
| step: "a \<in> gc_reach os R \<Longrightarrow> b \<in> set (object_children (os a)) \<Longrightarrow> b \<noteq> 0 \<Longrightarrow> b \<in> gc_reach os R"

definition marked :: "(u64 \<Rightarrow> zaclr_object_desc) \<Rightarrow> u64 set" where
  "marked os = {a. gc_mark (os a) \<noteq> 0}"

text \<open>\<open>same_but_mark\<close>: only marks differ; \<open>same_body\<close>: only the fields of the collector differ.\<close>

definition same_but_mark :: "(u64 \<Rightarrow> zaclr_object_desc) \<Rightarrow> (u64 \<Rightarrow> zaclr_object_desc) \<Rightarrow> bool" where
  "same_but_mark os os' \<longleftrightarrow> (\<forall>a. \<exists>m. os' a = (os a)\<lparr>gc_mark := m\<rparr>)"

definition same_body :: "(u64 \<Rightarrow> zaclr_object_desc) \<Rightarrow> (u64 \<Rightarrow> zaclr_object_desc) \<Rightarrow> bool" where
  "same_body os os' \<longleftrightarrow> (\<forall>a. \<exists>m s. os' a = (os a)\<lparr>gc_mark := m, gc_state := s\<rparr>)"

lemma gc_reach_mono: "R \<subseteq> Q \<Longrightarrow> gc_reach os R \<subseteq> gc_reach os Q"
proof
  fix a
  assume "R \<subseteq> Q" "a \<in> gc_reach os R"
  from this(2,1) show "a \<in> gc_reach os Q"
    by induction (auto intro: gc_reach.intros)
qed

lemma gc_reach_absorb: "Q \<subseteq> gc_reach os R \<union> {0} \<Longrightarrow> gc_reach os (R \<union> Q) = gc_reach os R"
proof (rule equalityI [OF subsetI gc_reach_mono])
  fix a
  assume "Q \<subseteq> gc_reach os R \<union> {0}" "a \<in> gc_reach os (R \<union> Q)"
  from this(2,1) show "a \<in> gc_reach os R"
    by induction (auto intro: gc_reach.intros)
qed simp

lemma gc_reach_cong:
  assumes "\<And>a. object_children (os a) = object_children (os' a)"
  shows "gc_reach os R = gc_reach os' R"
proof -
  have "gc_reach os R \<subseteq> gc_reach os' R" if "\<And>a. object_children (os a) = object_children (os' a)" for os os'
  proof
    fix a
    assume "a \<in> gc_reach os R"
    then show "a \<in> gc_reach os' R" by induction (auto simp: that intro: gc_reach.intros)
  qed
  from this [of os os'] this [of os' os] assms show ?thesis by auto
qed

lemma same_but_mark_children: "same_but_mark os os' \<Longrightarrow> object_children (os' a) = object_children (os a)"
  unfolding same_but_mark_def by (metis object_children_gc(1))

lemma same_body_children: "same_body os os' \<Longrightarrow> object_children (os' a) = object_children (os a)"
  unfolding same_body_def by (metis object_children_gc)

lemma same_but_mark_state: "same_but_mark os os' \<Longrightarrow> gc_state (os' a) = gc_state (os a)"
  unfolding same_but_mark_def
  by (metis (no_types, lifting) zaclr_object_desc.select_convs(4) zaclr_object_desc.surjective zaclr_object_desc.update_convs(3))

lemma same_but_mark_refl: "same_but_mark os os"
  unfolding same_but_mark_def by (metis zaclr_object_desc.surjective zaclr_object_desc.update_convs(3))

lemma same_but_mark_trans: "same_but_mark os os' \<Longrightarrow> same_but_mark os' os'' \<Longrightarrow> same_but_mark os os''"
  unfolding same_but_mark_def
  by (metis (no_types, lifting) zaclr_object_desc.surjective zaclr_object_desc.update_convs(3))

lemma same_but_mark_set: "same_but_mark os (os(r := zaclr_object_set_marked b (os r)))"
  unfolding same_but_mark_def zaclr_object_set_marked_def
  by (auto; metis zaclr_object_desc.surjective zaclr_object_desc.update_convs(3))

lemma same_body_mark: "same_body os os' \<Longrightarrow> same_but_mark os' os'' \<Longrightarrow> same_body os os''"
  unfolding same_body_def same_but_mark_def
  by (metis (no_types, lifting) zaclr_object_desc.surjective zaclr_object_desc.update_convs(3,4))

lemma marked_set: "marked (os(r := zaclr_object_set_marked True (os r))) = insert r (marked os)"
  by (auto simp: marked_def zaclr_object_set_marked_def)

lemma mark_objects_Nil [simp]: "mark_objects [] os = Some os"
  by (subst mark_objects.simps) simp

lemma mark_objects_skip: "r = 0 \<or> r \<in> marked os \<Longrightarrow> mark_objects (r # rs) os = mark_objects rs os"
  by (subst mark_objects.simps) (auto simp: marked_def zaclr_object_is_marked_def)

lemma mark_objects_visit:
  "r \<noteq> 0 \<Longrightarrow> r \<notin> marked os \<Longrightarrow> mark_objects (r # rs) os =
     do { os' \<leftarrow> mark_objects (object_children (os r)) (os(r := zaclr_object_set_marked True (os r))); mark_objects rs os' }"
  by (subst mark_objects.simps) (auto simp: marked_def zaclr_object_is_marked_def)

text \<open>
  What a run of the marker establishes from the objects \<open>os\<close>: the references are marked, every
  newly marked object is reachable, and its references are marked.
\<close>

definition mark_post :: "u64 list \<Rightarrow> (u64 \<Rightarrow> zaclr_object_desc) \<Rightarrow> (u64 \<Rightarrow> zaclr_object_desc) \<Rightarrow> bool" where
  "mark_post rs os os' \<longleftrightarrow> same_but_mark os os' \<and> marked os \<union> (set rs - {0}) \<subseteq> marked os'
     \<and> marked os' \<subseteq> marked os \<union> gc_reach os (set rs)
     \<and> (\<forall>a \<in> marked os' - marked os. set (object_children (os a)) - {0} \<subseteq> marked os')"

lemma mark_post_Cons:
  assumes r: "r \<noteq> 0" and o1: "os1 = os(r := zaclr_object_set_marked True (os r))"
    and p2: "mark_post (object_children (os r)) os1 os2" and p3: "mark_post rs os2 os3"
  shows "mark_post (r # rs) os os3"
proof -
  have s1: "same_but_mark os os1" unfolding o1 by (rule same_but_mark_set)
  have s2: "same_but_mark os os2" using s1 p2 same_but_mark_trans by (auto simp: mark_post_def)
  have c1: "gc_reach os1 Q = gc_reach os Q" for Q using gc_reach_cong same_but_mark_children [OF s1] by metis
  have c2: "gc_reach os2 Q = gc_reach os Q" for Q using gc_reach_cong same_but_mark_children [OF s2] by metis
  have m1: "marked os1 = insert r (marked os)" unfolding o1 by (rule marked_set)
  have rr: "r \<in> gc_reach os (set (r # rs))" using r by (simp add: gc_reach.root)
  have "a \<in> gc_reach os (set (r # rs))" if "a \<in> gc_reach os (set (object_children (os r)))" for a
    using that by induction (auto intro: gc_reach.step [OF rr [simplified]] gc_reach.step)
  moreover have "gc_reach os (set rs) \<subseteq> gc_reach os (set (r # rs))" by (rule gc_reach_mono) auto
  moreover have "marked os3 \<subseteq> insert r (marked os) \<union> gc_reach os (set (object_children (os r))) \<union> gc_reach os (set rs)"
    using p2 p3 m1 by (auto simp: mark_post_def c1 c2)
  ultimately have "marked os3 \<subseteq> marked os \<union> gc_reach os (set (r # rs))" using rr by blast
  moreover have "set (object_children (os a)) - {0} \<subseteq> marked os3" if am: "a \<in> marked os3 - marked os" for a
  proof -
    have "a = r \<or> a \<notin> marked os1" using am unfolding m1 by simp
    then consider "a \<in> marked os3 - marked os2" | "a \<in> marked os2 - marked os1" | "a = r"
      using am by blast
    then show ?thesis
    proof cases
      case 1
      then show ?thesis using p3 unfolding mark_post_def same_but_mark_children [OF s2, of a, symmetric] by blast
    next
      case 2
      then have "set (object_children (os a)) - {0} \<subseteq> marked os2"
        using p2 unfolding mark_post_def same_but_mark_children [OF s1, of a, symmetric] by blast
      then show ?thesis using p3 by (auto simp: mark_post_def)
    next
      case 3
      then show ?thesis using p2 p3 by (auto simp: mark_post_def)
    qed
  qed
  moreover have "same_but_mark os os3" using s2 p3 same_but_mark_trans by (auto simp: mark_post_def)
  ultimately show ?thesis using p2 p3 m1 unfolding mark_post_def by auto
qed

lemma mark_objects_returns: "\<exists>os'. mark_objects rs os = Some os' \<and> mark_post rs os os'"
proof (induction "card (- marked os)" arbitrary: rs os rule: less_induct)
  case less
  show ?case
  proof (induction rs)
    case Nil
    then show ?case by (simp add: mark_post_def same_but_mark_refl)
  next
    case (Cons r rs)
    show ?case
    proof (cases "r = 0 \<or> r \<in> marked os")
      case True
      from Cons obtain os' where "mark_objects rs os = Some os'" "mark_post rs os os'" by blast
      moreover have "gc_reach os (set rs) \<subseteq> gc_reach os (set (r # rs))" by (rule gc_reach_mono) auto
      ultimately show ?thesis using True mark_objects_skip [OF True] by (auto simp: mark_post_def)
    next
      case False
      let ?os1 = "os(r := zaclr_object_set_marked True (os r))"
      have "- marked ?os1 \<subset> - marked os" using False by (auto simp: marked_set)
      then have l1: "card (- marked ?os1) < card (- marked os)" by (simp add: psubset_card_mono)
      from less [OF l1] obtain os2 where o2: "mark_objects (object_children (os r)) ?os1 = Some os2"
        "mark_post (object_children (os r)) ?os1 os2" by blast
      have "marked ?os1 \<subseteq> marked os2" using o2(2) by (auto simp: mark_post_def)
      then have "card (- marked os2) < card (- marked os)"
        using l1 card_mono [of "- marked ?os1" "- marked os2"] by (simp add: order.strict_trans1)
      from less [OF this] obtain os3 where o3: "mark_objects rs os2 = Some os3" "mark_post rs os2 os3" by blast
      then show ?thesis
        using o2 False mark_objects_visit [of r os rs] mark_post_Cons [OF _ refl o2(2) o3(2)] by auto
    qed
  qed
qed

text \<open>
  Seen from objects \<open>os0\<close> whose marks are stale only outside the set \<open>H\<close>: marking more references
  extends the set of marked objects from what is reachable from \<open>R\<close> to what is reachable from \<open>R\<close> and
  the new references.
\<close>

lemma mark_objects_reach:
  assumes body: "same_body os0 os" and m: "marked os = S \<union> gc_reach os0 R" and S: "S \<inter> H = {}"
    and H: "gc_reach os0 (R \<union> set rs) \<subseteq> H"
  obtains os' where "mark_objects rs os = Some os'" and "same_but_mark os os'"
    and "marked os' = S \<union> gc_reach os0 (R \<union> set rs)"
proof -
  obtain os' where o: "mark_objects rs os = Some os'" "mark_post rs os os'" using mark_objects_returns by blast
  have ch: "object_children (os a) = object_children (os0 a)" for a by (rule same_body_children [OF body])
  have cg: "gc_reach os Q = gc_reach os0 Q" for Q by (rule gc_reach_cong) (rule ch)
  have "marked os' \<subseteq> S \<union> gc_reach os0 (R \<union> set rs)"
    using o(2) m gc_reach_mono [of R "R \<union> set rs" os0] gc_reach_mono [of "set rs" "R \<union> set rs" os0]
    by (auto simp: mark_post_def cg)
  moreover have "a \<in> marked os'" if "a \<in> gc_reach os0 (R \<union> set rs)" for a
    using that
  proof induction
    case (root a)
    then show ?case using o(2) m by (auto simp: mark_post_def intro: gc_reach.root)
  next
    case (step a b)
    show ?case
    proof (cases "a \<in> marked os")
      case True
      have "a \<notin> S" using step(1) H S by auto
      then have "a \<in> gc_reach os0 R" using True m by auto
      then have "b \<in> gc_reach os0 R" using step by (auto intro: gc_reach.step)
      then show ?thesis using o(2) m by (auto simp: mark_post_def)
    next
      case False
      then show ?thesis using o(2) step by (auto simp: mark_post_def ch)
    qed
  qed
  moreover have "S \<subseteq> marked os'" using o(2) m by (auto simp: mark_post_def)
  ultimately show thesis using that o by (auto simp: mark_post_def)
qed

end
