(* ===== verification/Zaclr_Gc_Safety.thy ===== *)
theory Zaclr_Gc_Safety
  imports Zaclr_Gc
begin

text \<open>
  What a collection does to the managed heap: the phases of \<open>zaclr_gc_collect\<close> one by one, and
  the theorems on which objects survive, on the blocks and counters of the heap, and on handles.
\<close>

section \<open>The phases of a collection\<close>

definition obj_at :: "zaclr_runtime \<Rightarrow> nat \<Rightarrow> u64" where
  "obj_at rt i = object (node rt i)"

definition live_nodes :: "zaclr_runtime \<Rightarrow> nat set" where
  "live_nodes rt = {i. i < unat (node_count rt) \<and> node_live (node rt i)}"

definition heap_objs :: "zaclr_runtime \<Rightarrow> u64 set" where
  "heap_objs rt = obj_at rt ` live_nodes rt"

text \<open>The counters of the heap agree with its nodes.\<close>

definition gc_counts :: "zaclr_runtime \<Rightarrow> bool" where
  "gc_counts rt \<longleftrightarrow> unat (live_object_count rt) = card (live_nodes rt)
     \<and> unat (allocated_bytes rt) = (\<Sum>i \<in> live_nodes rt. unat (allocation_size (node rt i)))"

lemma finite_live_nodes [simp]: "finite (live_nodes rt)"
  by (simp add: live_nodes_def)

lemma clear_marks_fold:
  "fold (\<lambda>i rt. if node_live (node rt i) then upd_obj (object (node rt i)) (\<lambda>ob. ob\<lparr>gc_mark := 0\<rparr>) rt else rt) [0 ..< k] rt =
     rt\<lparr>objs := (\<lambda>a. if \<exists>i < k. node_live (node rt i) \<and> obj_at rt i = a then (objs rt a)\<lparr>gc_mark := 0\<rparr> else objs rt a)\<rparr>"
proof (induction k)
  case (Suc k)
  let ?f = "\<lambda>k a. if \<exists>i < k. node_live (node rt i) \<and> obj_at rt i = a then (objs rt a)\<lparr>gc_mark := 0\<rparr> else objs rt a"
  let ?b = "obj_at rt k"
  have "?f (Suc k) = (if node_live (node rt k) then (?f k)(?b := (?f k ?b)\<lparr>gc_mark := 0\<rparr>) else ?f k)"
    by (auto simp: fun_eq_iff less_Suc_eq)
  then show ?case by (simp add: Suc.IH upd_obj_def obj_at_def)
qed simp

lemma clear_marks_spec:
  obtains os where "zaclr_heap_clear_marks rt = rt\<lparr>objs := os\<rparr>" and "same_but_mark (objs rt) os"
    and "marked os = marked (objs rt) - heap_objs rt"
proof (rule that)
  let ?os = "\<lambda>a. if \<exists>i < unat (node_count rt). node_live (node rt i) \<and> obj_at rt i = a then (objs rt a)\<lparr>gc_mark := 0\<rparr> else objs rt a"
  show "zaclr_heap_clear_marks rt = rt\<lparr>objs := ?os\<rparr>" unfolding zaclr_heap_clear_marks_def by (rule clear_marks_fold)
  show "same_but_mark (objs rt) ?os" using same_but_mark_refl [of "objs rt"] by (auto simp: same_but_mark_def)
  show "marked ?os = marked (objs rt) - heap_objs rt" by (auto simp: marked_def heap_objs_def live_nodes_def)
qed

subsection \<open>Promotion of unreachable finalizable objects\<close>

definition finalizable_objs :: "zaclr_runtime \<Rightarrow> (u64 \<Rightarrow> zaclr_object_desc) \<Rightarrow> nat \<Rightarrow> u64 set" where
  "finalizable_objs rt os k = obj_at rt ` {i \<in> live_nodes rt. i < k \<and> finalizable (os (obj_at rt i))}"

text \<open>The fields of the runtime that marking and promoting change.\<close>

definition gc_frame :: "zaclr_runtime \<Rightarrow> zaclr_runtime \<Rightarrow> bool" where
  "gc_frame rt rt' \<longleftrightarrow> node rt' = node rt \<and> node_count rt' = node_count rt \<and> node_capacity rt' = node_capacity rt
     \<and> nodes rt' = nodes rt \<and> handle_table rt' = handle_table rt \<and> heap_flags rt' = heap_flags rt
     \<and> current_exception rt' = current_exception rt \<and> active_frame rt' = active_frame rt \<and> registry rt' = registry rt
     \<and> live_object_count rt' = live_object_count rt \<and> allocated_bytes rt' = allocated_bytes rt
     \<and> collection_count rt' = collection_count rt"

lemma gc_frame_trans: "gc_frame rt rt' \<Longrightarrow> gc_frame rt' rt'' \<Longrightarrow> gc_frame rt rt''"
  by (simp add: gc_frame_def)

lemma gc_frame_live: "gc_frame rt rt' \<Longrightarrow> live_nodes rt' = live_nodes rt \<and> obj_at rt' = obj_at rt \<and> heap_objs rt' = heap_objs rt"
proof -
  assume f: "gc_frame rt rt'"
  then have "live_nodes rt' = live_nodes rt" "obj_at rt' = obj_at rt" by (auto simp: gc_frame_def live_nodes_def obj_at_def)
  then show ?thesis by (simp add: heap_objs_def)
qed

text \<open>An entry of the queue that is not in use holds no handle.\<close>

definition queue_clean :: "zaclr_handle_table \<Rightarrow> bool" where
  "queue_clean t \<longleftrightarrow> (\<forall>i < unat (count t). \<not> allocated (entry t i) \<longrightarrow> he_handle (entry t i) = 0)"

lemma store_ex_kept:
  assumes "i < count t'" and "allocated (entry t' (unat i))" and "count t' = count t \<or> i = count t \<and> count t' = count t + 1"
    and "\<forall>j < unat (count t). j \<noteq> unat i \<or> allocated (entry t j) \<longrightarrow> entry t' j = entry t j"
    and "unat (count t) < TABLE_LIMIT" and clean: "queue_clean t"
  shows "set (enumerate_handle_table_roots t) \<subseteq> set (enumerate_handle_table_roots t')" and "queue_clean t'"
proof -
  have cnt: "unat (count t) \<le> unat (count t')" "j < unat (count t')  \<Longrightarrow> j = unat i \<or> j < unat (count t)" for j
    using assms(3,5) unat_add_lem [of "count t" 1] by (auto simp: less_Suc_eq)
  have "entry t j \<in> entry t' ` {..< unat (count t')}" if "j < unat (count t)" "strong_entry (entry t j)" for j
  proof -
    have "allocated (entry t j)" using clean that by (auto simp: queue_clean_def strong_entry_def)
    then have "entry t' j = entry t j" using assms(4) that(1) by blast
    then show ?thesis using that(1) cnt(1) by (metis imageI lessThan_iff order_less_le_trans)
  qed
  then show "set (enumerate_handle_table_roots t) \<subseteq> set (enumerate_handle_table_roots t')"
    unfolding enumerate_handle_table_roots_def by force
  show "queue_clean t'"
    unfolding queue_clean_def
  proof (intro allI impI)
    fix j
    assume j: "j < unat (count t')" "\<not> allocated (entry t' j)"
    then have "j \<noteq> unat i" "j < unat (count t)" using assms(2) cnt(2) by auto
    then have "entry t' j = entry t j" "\<not> allocated (entry t j)" using assms(4) j(2) by auto
    then show "he_handle (entry t' j) = 0" using clean \<open>j < unat (count t)\<close> by (simp add: queue_clean_def)
  qed
qed

lemma store_ex_roots:
  assumes "i < count t'" and "he_handle (entry t' (unat i)) = h" and "count t' = count t \<or> count t' = count t + 1"
    and "\<forall>j < unat (count t). j \<noteq> unat i \<or> allocated (entry t j) \<longrightarrow> entry t' j = entry t j"
    and "unat (count t) < TABLE_LIMIT" and "count t' = count t \<or> i = count t"
  shows "set (enumerate_handle_table_roots t') \<subseteq> insert h (set (enumerate_handle_table_roots t))"
proof -
  have "entry t' j \<in> entry t ` {..< unat (count t)} \<or> he_handle (entry t' j) = h" if j: "j < unat (count t')" for j
  proof (cases "j = unat i")
    case False
    have "j < unat (count t)"
      using assms(3,5,6) j False unat_add_lem [of "count t" 1] by (auto simp: less_Suc_eq)
    then show ?thesis using assms(4) False by auto
  qed (use assms(2) in simp)
  then show ?thesis unfolding enumerate_handle_table_roots_def by force
qed

text \<open>
  The state of the promotion loop before node \<open>i\<close>, seen from the objects \<open>os0\<close> at the start of the
  collection: the nodes before \<open>i\<close> that need finalization are roots beside \<open>R\<close>, the marks are
  exactly what is reachable, and the queue is well formed and holds its old roots \<open>Q\<close> and marked objects.
\<close>

definition promoting ::
  "(u64 \<Rightarrow> zaclr_object_desc) \<Rightarrow> u64 set \<Rightarrow> u64 set \<Rightarrow> u64 set \<Rightarrow> u64 set \<Rightarrow> nat \<Rightarrow> zaclr_runtime \<Rightarrow> bool" where
  "promoting os0 S R Q B i rt \<longleftrightarrow> same_body os0 (objs rt)
     \<and> (\<forall>a. gc_state (objs rt a) AND 1 = gc_state (os0 a) AND 1)
     \<and> (\<forall>j \<in> live_nodes rt. i \<le> j \<longrightarrow> gc_state (objs rt (obj_at rt j)) = gc_state (os0 (obj_at rt j)))
     \<and> marked (objs rt) = S \<union> gc_reach os0 (R \<union> finalizable_objs rt os0 i)
     \<and> heap_has (kh rt) B \<and> heap_objs rt \<subseteq> B
     \<and> table_wf (finalizer_queue rt) \<and> (entries (finalizer_queue rt) \<noteq> 0 \<longrightarrow> entries (finalizer_queue rt) \<in> B - heap_objs rt)
     \<and> set (enumerate_handle_table_roots (finalizer_queue rt)) \<subseteq> Q \<union> finalizable_objs rt os0 i
     \<and> Q \<subseteq> set (enumerate_handle_table_roots (finalizer_queue rt)) \<and> queue_clean (finalizer_queue rt)"

lemma finalizable_objs_Suc:
  "finalizable_objs rt os (Suc i) =
     (if i \<in> live_nodes rt \<and> finalizable (os (obj_at rt i)) then insert (obj_at rt i) (finalizable_objs rt os i)
      else finalizable_objs rt os i)"
  by (auto simp: finalizable_objs_def less_Suc_eq)

lemma finalizable_state: "gc_state ob = gc_state ob' \<Longrightarrow> finalizable ob = finalizable ob'"
  by (simp add: finalizable_def)

lemma queue_bit_pinned: "(s OR 4 :: u8) AND 1 = s AND 1"
  by (simp add: bit.conj_disj_distrib2)

lemma promoting_skip:
  assumes p: "promoting os0 S R Q B i rt" and S: "S \<inter> heap_objs rt = {}"
    and skip: "i \<notin> live_nodes rt \<or> zaclr_object_is_marked (objs rt (obj_at rt i)) \<or> \<not> finalizable (objs rt (obj_at rt i))"
  shows "promoting os0 S R Q B (Suc i) rt"
proof -
  have "gc_reach os0 (R \<union> finalizable_objs rt os0 (Suc i)) = gc_reach os0 (R \<union> finalizable_objs rt os0 i)"
  proof (cases "i \<in> live_nodes rt \<and> finalizable (os0 (obj_at rt i))")
    case True
    then have "gc_state (objs rt (obj_at rt i)) = gc_state (os0 (obj_at rt i))" using p by (simp add: promoting_def)
    from finalizable_state [OF this] have "obj_at rt i \<in> marked (objs rt)"
      using skip True by (auto simp: marked_def zaclr_object_is_marked_def)
    moreover have "obj_at rt i \<in> heap_objs rt" using True by (simp add: heap_objs_def)
    ultimately have "obj_at rt i \<in> gc_reach os0 (R \<union> finalizable_objs rt os0 i)" using p S by (auto simp: promoting_def)
    then have "gc_reach os0 ((R \<union> finalizable_objs rt os0 i) \<union> {obj_at rt i}) = gc_reach os0 (R \<union> finalizable_objs rt os0 i)"
      by (intro gc_reach_absorb) simp
    moreover have "R \<union> finalizable_objs rt os0 (Suc i) = (R \<union> finalizable_objs rt os0 i) \<union> {obj_at rt i}"
      using True by (auto simp: finalizable_objs_Suc)
    ultimately show ?thesis by simp
  next
    case False
    then have "finalizable_objs rt os0 (Suc i) = finalizable_objs rt os0 i" by (simp only: finalizable_objs_Suc if_False)
    then show ?thesis by simp
  qed
  moreover have "finalizable_objs rt os0 i \<subseteq> finalizable_objs rt os0 (Suc i)" by (auto simp: finalizable_objs_Suc)
  ultimately show ?thesis using p unfolding promoting_def by (simp add: le_SucI) (meson Suc_leD Un_mono subset_refl subset_trans)
qed

lemma upd_obj_fields [simp]:
  "objs (upd_obj a f rt) = (objs rt)(a := f (objs rt a))" "kh (upd_obj a f rt) = kh rt"
  "finalizer_queue (upd_obj a f rt) = finalizer_queue rt"
  by (simp_all add: upd_obj_def)

lemma same_body_queue:
  "same_body os0 os \<Longrightarrow> same_body os0 (os(a := (os a)\<lparr>gc_state := s\<rparr>))"
  unfolding same_body_def
  by (metis (no_types, lifting) fun_upd_apply zaclr_object_desc.surjective zaclr_object_desc.update_convs(3,4))

lemma marked_queue [simp]: "marked (os(a := (os a)\<lparr>gc_state := s\<rparr>)) = marked os"
  by (auto simp: marked_def)

text \<open>One promotion: the object is queued, and it and what it reaches are marked.\<close>

lemma promote_one:
  assumes p: "promoting os0 S R Q B i rt" and S: "S \<inter> heap_objs rt = {}" and inj: "inj_on (obj_at rt) (live_nodes rt)"
    and H: "gc_reach os0 (R \<union> heap_objs rt) \<subseteq> heap_objs rt" and i: "i \<in> live_nodes rt"
    and fin: "finalizable (objs rt (obj_at rt i))" and lim: "unat (count (finalizer_queue rt)) < TABLE_LIMIT"
  obtains r io q k where
    "zaclr_handle_table_store_ex (obj_at rt i) ZACLR_GC_HANDLE_KIND_STRONG (finalizer_queue rt) (kh rt) = Some ((r, io), q, k)"
    and "heap_has k (B - {entries (finalizer_queue rt)} \<union> ({entries q} - {0}))" and "table_wf q"
    and "entries q = entries (finalizer_queue rt) \<or> entries q \<notin> B"
    and "unat (count q) \<le> unat (count (finalizer_queue rt)) + 1"
    and "\<not> is_ok r \<Longrightarrow> q = finalizer_queue rt"
    and "is_ok r \<Longrightarrow> \<exists>rt'. zaclr_gc_mark_object (obj_at rt i)
        (upd_obj (obj_at rt i) (\<lambda>ob. ob\<lparr>gc_state := gc_state ob OR ZACLR_OBJECT_GC_STATE_FINALIZER_QUEUED\<rparr>)
          (rt\<lparr>finalizer_queue := q, kh := k\<rparr>)) = Some rt'
      \<and> gc_frame rt rt' \<and> finalizer_queue rt' = q
      \<and> promoting os0 S R Q (B - {entries (finalizer_queue rt)} \<union> ({entries q} - {0})) (Suc i) rt'"
proof -
  let ?t = "finalizer_queue rt" and ?a = "obj_at rt i"
  have pr: "table_wf ?t" "heap_has (kh rt) B" "entries ?t \<noteq> 0 \<longrightarrow> entries ?t \<in> B" "heap_objs rt \<subseteq> B"
    using p by (auto simp: promoting_def)
  obtain r io q k where st: "zaclr_handle_table_store_ex ?a ZACLR_GC_HANDLE_KIND_STRONG ?t (kh rt) = Some ((r, io), q, k)"
    "table_wf q" "heap_has k (B - {entries ?t} \<union> ({entries q} - {0}))" "entries q = entries ?t \<or> entries q \<notin> B"
    "count q = count ?t \<or> count q = count ?t + 1" "\<not> is_ok r \<Longrightarrow> q = ?t"
    "is_ok r \<Longrightarrow> \<exists>i. io = Some i \<and> i < count q \<and> (count q = count ?t \<or> i = count ?t) \<and> allocated (entry q (unat i))
      \<and> he_handle (entry q (unat i)) = ?a \<and> ((0 :: u32) < 256 \<longrightarrow> ucast (he_kind (entry q (unat i))) = (0 :: u32))
      \<and> (\<forall>j < unat (count ?t). j \<noteq> unat i \<or> allocated (entry ?t j) \<longrightarrow> entry q j = entry ?t j)"
    by (rule store_ex_spec [OF pr(1,2,3) lim, of ?a 0]) (rule that; assumption)
  have cnt: "unat (count q) \<le> unat (count ?t) + 1" using st(5) lim unat_add_lem [of "count ?t" 1] by auto
  show thesis
  proof (rule that [OF st(1,3,2,4) cnt st(6)])
    assume ok: "is_ok r"
    let ?os = "(objs rt)(?a := (objs rt ?a)\<lparr>gc_state := gc_state (objs rt ?a) OR 4\<rparr>)"
    let ?rt = "upd_obj ?a (\<lambda>ob. ob\<lparr>gc_state := gc_state ob OR 4\<rparr>) (rt\<lparr>finalizer_queue := q, kh := k\<rparr>)"
    have body: "same_body os0 ?os" using p same_body_queue by (auto simp: promoting_def)
    have fin0: "finalizable (os0 ?a)"
      using p i fin finalizable_state [of "objs rt ?a" "os0 ?a"] by (auto simp: promoting_def)
    have F: "finalizable_objs rt os0 (Suc i) = insert ?a (finalizable_objs rt os0 i)"
      using i fin0 by (simp add: finalizable_objs_Suc)
    have FH: "finalizable_objs rt os0 j \<subseteq> heap_objs rt" for j by (auto simp: finalizable_objs_def heap_objs_def)
    have h1: "gc_reach os0 (R \<union> finalizable_objs rt os0 i \<union> set [?a]) \<subseteq> heap_objs rt"
      using H gc_reach_mono [of "R \<union> finalizable_objs rt os0 i \<union> set [?a]" "R \<union> heap_objs rt" os0] FH [of i] i
      by (auto simp: heap_objs_def)
    have m1: "marked ?os = S \<union> gc_reach os0 (R \<union> finalizable_objs rt os0 i)" using p by (simp add: promoting_def)
    obtain os' where os': "mark_objects [?a] ?os = Some os'" "same_but_mark ?os os'"
      "marked os' = S \<union> gc_reach os0 (R \<union> finalizable_objs rt os0 i \<union> set [?a])"
      by (rule mark_objects_reach [OF body m1 S h1]) (rule that; assumption)
    let ?rt' = "?rt\<lparr>objs := os'\<rparr>"
    have fr: "gc_frame rt ?rt'" by (simp add: gc_frame_def upd_obj_def)
    note lv = gc_frame_live [OF fr]
    have fl: "finalizable_objs ?rt' os0 j = finalizable_objs rt os0 j" for j using lv by (simp add: finalizable_objs_def)
    have sts: "gc_state (os' a) = gc_state (?os a)" for a using same_but_mark_state [OF os'(2)] .
    have "gc_state (os' a) AND 1 = gc_state (os0 a) AND 1" for a
      using p sts [of a] queue_bit_pinned by (auto simp: promoting_def)
    moreover have "gc_state (os' (obj_at rt j)) = gc_state (os0 (obj_at rt j))" if "j \<in> live_nodes rt" "Suc i \<le> j" for j
    proof -
      have "obj_at rt j \<noteq> ?a" using inj that i by (metis Suc_n_not_le_n inj_on_eq_iff)
      then show ?thesis using p sts that by (simp add: promoting_def)
    qed
    moreover have "set (enumerate_handle_table_roots q) \<subseteq> Q \<union> finalizable_objs rt os0 (Suc i)"
      using st(7) [OF ok] store_ex_roots [of _ q ?a ?t] st(5) lim p F unfolding promoting_def by blast
    moreover have "Q \<subseteq> set (enumerate_handle_table_roots q)" "queue_clean q"
    proof -
      obtain e where e: "e < count q" "count q = count ?t \<or> e = count ?t" "allocated (entry q (unat e))"
        "\<forall>j < unat (count ?t). j \<noteq> unat e \<or> allocated (entry ?t j) \<longrightarrow> entry q j = entry ?t j"
        using st(7) [OF ok] by blast
      have "count q = count ?t \<or> e = count ?t \<and> count q = count ?t + 1" using e(2) st(5) by blast
      note k = store_ex_kept [OF e(1,3) this e(4) lim]
      have "queue_clean ?t" "Q \<subseteq> set (enumerate_handle_table_roots ?t)" using p by (simp_all add: promoting_def)
      then show "Q \<subseteq> set (enumerate_handle_table_roots q)" "queue_clean q" using k by blast+
    qed
    moreover have "entries q \<noteq> 0 \<longrightarrow> entries q \<notin> heap_objs rt" using st(4) p by (auto simp: promoting_def)
    moreover have "heap_objs rt \<subseteq> B - {entries ?t}" using p heap_has_nonzero [OF pr(2)] by (auto simp: promoting_def)
    moreover have "same_body os0 os'" using body os'(2) by (rule same_body_mark)
    ultimately have "promoting os0 S R Q (B - {entries ?t} \<union> ({entries q} - {0})) (Suc i) ?rt'"
      using st(2,3) os'(3) lv F unfolding promoting_def fl by (auto simp: upd_obj_def)
    moreover have "zaclr_gc_mark_object ?a ?rt = Some ?rt'" using os'(1) by (simp add: zaclr_gc_mark_object_def)
    ultimately show "\<exists>rt'. zaclr_gc_mark_object ?a ?rt = Some rt' \<and> gc_frame rt rt' \<and> finalizer_queue rt' = q
      \<and> promoting os0 S R Q (B - {entries ?t} \<union> ({entries q} - {0})) (Suc i) rt'"
      using fr by (intro exI [of _ ?rt']) (simp add: upd_obj_def)
  qed
qed

text \<open>The blocks held after the queue has moved from one block to another.\<close>

definition moved :: "u64 set \<Rightarrow> zaclr_handle_table \<Rightarrow> zaclr_handle_table \<Rightarrow> u64 set" where
  "moved B t t' = B - {entries t} \<union> ({entries t'} - {0})"

lemma moved_same: "entries t \<noteq> 0 \<longrightarrow> entries t \<in> B \<Longrightarrow> 0 \<notin> B \<Longrightarrow> moved B t t = B"
  by (auto simp: moved_def)

lemma moved_trans:
  assumes "entries t1 = entries t \<or> entries t1 \<notin> B" and "entries t2 = entries t1 \<or> entries t2 \<notin> moved B t t1"
  shows "moved (moved B t t1) t1 t2 = moved B t t2" and "entries t2 = entries t \<or> entries t2 \<notin> B"
  using assms by (auto simp: moved_def)

lemma promote_loop_spec:
  assumes "promoting os0 S R Q B i rt" and "S \<inter> heap_objs rt = {}" and "inj_on (obj_at rt) (live_nodes rt)"
    and "gc_reach os0 (R \<union> heap_objs rt) \<subseteq> heap_objs rt" and "i + n = unat (node_count rt)"
    and "unat (count (finalizer_queue rt)) + n < TABLE_LIMIT"
  shows "\<exists>r rt'. promote_loop n i rt = Some (r, rt') \<and> gc_frame rt rt'
    \<and> heap_has (kh rt') (moved B (finalizer_queue rt) (finalizer_queue rt'))
    \<and> (entries (finalizer_queue rt') = entries (finalizer_queue rt) \<or> entries (finalizer_queue rt') \<notin> B)
    \<and> (is_ok r \<longrightarrow> promoting os0 S R Q (moved B (finalizer_queue rt) (finalizer_queue rt')) (i + n) rt')
    \<and> (finalizable_objs rt os0 (i + n) = {} \<longrightarrow> is_ok r)
    \<and> unat (count (finalizer_queue rt')) \<le> unat (count (finalizer_queue rt)) + n"
  using assms
proof (induction n arbitrary: i rt B)
  case 0
  have "moved B (finalizer_queue rt) (finalizer_queue rt) = B"
    using 0(1) heap_has_nonzero by (intro moved_same) (auto simp: promoting_def)
  then show ?case using 0 by (simp add: promoting_def gc_frame_def)
next
  case (Suc n)
  let ?a = "obj_at rt i" and ?t = "finalizer_queue rt"
  have li: "i \<in> live_nodes rt \<longleftrightarrow> node_live (node rt i)" using Suc.prems(5) by (simp add: live_nodes_def)
  show ?case
  proof (cases "i \<notin> live_nodes rt \<or> zaclr_object_is_marked (objs rt ?a) \<or> \<not> finalizable (objs rt ?a)")
    case True
    then have eq: "promote_loop (Suc n) i rt = promote_loop n (Suc i) rt" using li by (auto simp: Let_def obj_at_def)
    have l: "Suc i + n = unat (node_count rt)" "unat (count ?t) + n < TABLE_LIMIT" using Suc.prems(5,6) by simp_all
    show ?thesis unfolding eq using Suc.IH [OF promoting_skip [OF Suc.prems(1,2) True] Suc.prems(2,3,4) l]
      by (fastforce simp del: promote_loop.simps)
  next
    case False
    have lim: "unat (count ?t) < TABLE_LIMIT" using Suc.prems(6) by simp
    have "finalizable (os0 ?a)"
      using False Suc.prems(1) finalizable_state [of "objs rt ?a" "os0 ?a"] by (auto simp: promoting_def)
    then have "?a \<in> finalizable_objs rt os0 (i + Suc n)" using False by (auto simp: finalizable_objs_def)
    then have pend: "finalizable_objs rt os0 (i + Suc n) \<noteq> {}" by blast
    obtain r io q k where st:
      "zaclr_handle_table_store_ex ?a ZACLR_GC_HANDLE_KIND_STRONG ?t (kh rt) = Some ((r, io), q, k)"
      "heap_has k (moved B ?t q)" "table_wf q" "entries q = entries ?t \<or> entries q \<notin> B"
      "unat (count q) \<le> unat (count ?t) + 1" "\<not> is_ok r \<Longrightarrow> q = ?t"
      "is_ok r \<Longrightarrow> \<exists>rt'. zaclr_gc_mark_object ?a
        (upd_obj ?a (\<lambda>ob. ob\<lparr>gc_state := gc_state ob OR ZACLR_OBJECT_GC_STATE_FINALIZER_QUEUED\<rparr>)
          (rt\<lparr>finalizer_queue := q, kh := k\<rparr>)) = Some rt'
        \<and> gc_frame rt rt' \<and> finalizer_queue rt' = q \<and> promoting os0 S R Q (moved B ?t q) (Suc i) rt'"
      unfolding moved_def using False by (auto intro: promote_one [OF Suc.prems(1-4) _ _ lim])
    show ?thesis
    proof (cases "is_ok r")
      case ok: False
      have "promote_loop (Suc n) i rt = Some (r, rt\<lparr>finalizer_queue := q, kh := k\<rparr>)"
        using False ok li st(1) by (simp add: Let_def obj_at_def)
      then show ?thesis using st(2,4,5) ok pend by (simp add: gc_frame_def)
    next
      case ok: True
      obtain rt1 where r1: "zaclr_gc_mark_object ?a
        (upd_obj ?a (\<lambda>ob. ob\<lparr>gc_state := gc_state ob OR ZACLR_OBJECT_GC_STATE_FINALIZER_QUEUED\<rparr>)
          (rt\<lparr>finalizer_queue := q, kh := k\<rparr>)) = Some rt1"
        "gc_frame rt rt1" "finalizer_queue rt1 = q" "promoting os0 S R Q (moved B ?t q) (Suc i) rt1"
        using st(7) [OF ok] by blast
      have step: "promote_loop (Suc n) i rt = promote_loop n (Suc i) rt1"
        using False ok li st(1) r1(1) by (simp add: Let_def obj_at_def)
      note lv = gc_frame_live [OF r1(2)]
      have "Suc i + n = unat (node_count rt1)" using Suc.prems(5) r1(2) by (simp add: gc_frame_def)
      moreover have "unat (count (finalizer_queue rt1)) + n < TABLE_LIMIT" using Suc.prems(6) st(5) r1(3) by simp
      ultimately obtain r2 rt2 where r2: "promote_loop n (Suc i) rt1 = Some (r2, rt2)" "gc_frame rt1 rt2"
        "heap_has (kh rt2) (moved (moved B ?t q) q (finalizer_queue rt2))"
        "entries (finalizer_queue rt2) = entries q \<or> entries (finalizer_queue rt2) \<notin> moved B ?t q"
        "is_ok r2 \<longrightarrow> promoting os0 S R Q (moved (moved B ?t q) q (finalizer_queue rt2)) (Suc i + n) rt2"
        "unat (count (finalizer_queue rt2)) \<le> unat (count q) + n"
        using Suc.IH [OF r1(4)] Suc.prems(2-4) lv r1(3) by auto
      note mv = moved_trans [OF st(4) r2(4)]
      show ?thesis using step r2(1) gc_frame_trans [OF r1(2) r2(2)] r2(3,5,6) st(5) mv pend by simp
    qed
  qed
qed

subsection \<open>Sweeping\<close>

text \<open>The nodes the sweep releases, and the fields of the runtime it leaves alone.\<close>

definition doomed :: "zaclr_runtime \<Rightarrow> nat set" where
  "doomed rt = {i \<in> live_nodes rt. gc_mark (objs rt (obj_at rt i)) = 0 \<and> gc_state (objs rt (obj_at rt i)) AND 1 = 0}"

definition sweep_frame :: "zaclr_runtime \<Rightarrow> zaclr_runtime \<Rightarrow> bool" where
  "sweep_frame rt rt' \<longleftrightarrow> objs rt' = objs rt \<and> node_count rt' = node_count rt \<and> node_capacity rt' = node_capacity rt \<and> nodes rt' = nodes rt
     \<and> handle_table rt' = handle_table rt \<and> finalizer_queue rt' = finalizer_queue rt \<and> heap_flags rt' = heap_flags rt
     \<and> current_exception rt' = current_exception rt \<and> active_frame rt' = active_frame rt \<and> registry rt' = registry rt"

lemma empty_node_dead [simp]: "\<not> node_live empty_node"
  by (simp add: node_live_def empty_node_def)

lemma release_node_spec:
  assumes i: "i \<in> live_nodes rt" and B: "heap_has (kh rt) B" "obj_at rt i \<in> B" and c: "gc_counts rt"
  defines "rt' \<equiv> zaclr_heap_release_node i rt"
  shows "node rt' = (node rt)(i := empty_node)" and "sweep_frame rt rt'" and "live_nodes rt' = live_nodes rt - {i}"
    and "gc_counts rt'" and "heap_has (kh rt') (B - {obj_at rt i})"
proof -
  let ?s = "\<lambda>i. unat (allocation_size (node rt i))"
  have lv: "\<not> i \<ge> unat (node_count rt)" "node_live (node rt i)" using i by (auto simp: live_nodes_def)
  show n: "node rt' = (node rt)(i := empty_node)" and "sweep_frame rt rt'" and "heap_has (kh rt') (B - {obj_at rt i})"
    using lv heap_has_free [OF B] by (simp_all add: rt'_def zaclr_heap_release_node_def sweep_frame_def obj_at_def)
  show l: "live_nodes rt' = live_nodes rt - {i}"
    using lv n by (auto simp: rt'_def zaclr_heap_release_node_def live_nodes_def)
  have sum: "(\<Sum>j \<in> live_nodes rt. ?s j) = ?s i + (\<Sum>j \<in> live_nodes rt - {i}. ?s j)" using i by (simp add: sum.remove)
  have card: "card (live_nodes rt) = Suc (card (live_nodes rt - {i}))" using i by (metis card.remove finite_live_nodes)
  have le: "allocation_size (node rt i) \<le> allocated_bytes rt" using c sum by (simp add: gc_counts_def word_le_nat_alt)
  have "live_object_count rt \<noteq> 0" using c card by (auto simp: gc_counts_def)
  then have "unat (live_object_count rt') = card (live_nodes rt - {i})"
    using c card lv by (simp add: rt'_def zaclr_heap_release_node_def gc_counts_def unat_minus_one)
  moreover have "unat (allocated_bytes rt') = (\<Sum>j \<in> live_nodes rt - {i}. ?s j)"
    using c sum le lv by (simp add: rt'_def zaclr_heap_release_node_def gc_counts_def unat_sub)
  moreover have "(\<Sum>j \<in> live_nodes rt - {i}. ?s j) = (\<Sum>j \<in> live_nodes rt - {i}. unat (allocation_size (node rt' j)))"
    using n by (intro sum.cong) auto
  ultimately show "gc_counts rt'" using l by (simp add: gc_counts_def)
qed

lemma sweep_fold:
  assumes B: "heap_has (kh rt) B" "heap_objs rt \<subseteq> B" and inj: "inj_on (obj_at rt) (live_nodes rt)" and c: "gc_counts rt"
    and k: "k \<le> unat (node_count rt)"
  defines "rt' \<equiv> fold sweep_node [0 ..< k] rt" and "D \<equiv> {i \<in> doomed rt. i < k}"
  shows "node rt' = (\<lambda>i. if i \<in> D then empty_node else node rt i) \<and> sweep_frame rt rt' \<and> gc_counts rt'
    \<and> heap_has (kh rt') (B - obj_at rt ` D)"
  using k unfolding rt'_def D_def
proof (induction k)
  case 0
  then show ?case using B c by (simp add: sweep_frame_def)
next
  case (Suc k)
  let ?r = "fold sweep_node [0 ..< k] rt" and ?D = "{i \<in> doomed rt. i < k}"
  have ih: "node ?r = (\<lambda>i. if i \<in> ?D then empty_node else node rt i)" "sweep_frame rt ?r" "gc_counts ?r"
    "heap_has (kh ?r) (B - obj_at rt ` ?D)"
    using Suc.IH Suc.prems by simp_all
  have nk: "node ?r k = node rt k" "objs ?r = objs rt" "node_count ?r = node_count rt"
    using ih(1,2) by (simp_all add: sweep_frame_def)
  have lk: "k \<in> live_nodes ?r \<longleftrightarrow> node_live (node rt k)" "k \<in> live_nodes rt \<longleftrightarrow> node_live (node rt k)"
    using nk Suc.prems by (simp_all add: live_nodes_def)
  show ?case
  proof (cases "k \<in> doomed rt")
    case True
    have D: "{i \<in> doomed rt. i < Suc k} = insert k ?D" using True by (auto simp: less_Suc_eq)
    have lv: "k \<in> live_nodes rt" "k \<in> live_nodes ?r" using True lk by (auto simp: doomed_def)
    have "obj_at rt k \<notin> obj_at rt ` ?D" using inj lv(1) by (auto simp: doomed_def inj_on_eq_iff)
    then have ob: "obj_at ?r k \<in> B - obj_at rt ` ?D" using B(2) lv(1) nk(1) by (auto simp: heap_objs_def obj_at_def)
    have "sweep_node k ?r = zaclr_heap_release_node k ?r"
      using True nk lv lk by (simp add: sweep_node_def Let_def doomed_def obj_at_def)
    moreover note rel = release_node_spec [OF lv(2) ih(4) ob ih(3)]
    moreover have "sweep_frame rt (zaclr_heap_release_node k ?r)" using ih(2) rel(2) by (simp add: sweep_frame_def)
    moreover have "B - obj_at rt ` ?D - {obj_at ?r k} = B - obj_at rt ` insert k ?D" using nk(1) by (auto simp: obj_at_def)
    moreover have "(node ?r)(k := empty_node) = (\<lambda>i. if i \<in> insert k ?D then empty_node else node rt i)"
      using ih(1) by (auto simp: fun_eq_iff)
    ultimately show ?thesis unfolding D by simp
  next
    case False
    have D: "{i \<in> doomed rt. i < Suc k} = ?D" using False by (auto simp: less_Suc_eq)
    have "sweep_node k ?r = ?r" using False nk lk by (auto simp: sweep_node_def Let_def doomed_def obj_at_def)
    then show ?thesis using ih unfolding D by simp
  qed
qed

section \<open>Collections\<close>

text \<open>
  A managed heap at rest, with the blocks \<open>B\<close> of the kernel heap held: different live nodes have
  different objects, all in blocks that are held; the finalizer queue is well formed and its array
  is none of the objects; every root and every reference the collector follows out of a live
  object is a live object or \<open>NULL\<close>; the counters are exact.
\<close>

definition gc_wf :: "zaclr_runtime \<Rightarrow> u64 set \<Rightarrow> bool" where
  "gc_wf rt B \<longleftrightarrow> heap_has (kh rt) B \<and> heap_objs rt \<subseteq> B \<and> inj_on (obj_at rt) (live_nodes rt)
     \<and> (nodes rt = 0 \<longrightarrow> live_nodes rt = {})
     \<and> table_wf (finalizer_queue rt) \<and> queue_clean (finalizer_queue rt)
     \<and> (entries (finalizer_queue rt) \<noteq> 0 \<longrightarrow> entries (finalizer_queue rt) \<in> B - heap_objs rt)
     \<and> set (enumerate_runtime_roots rt) \<subseteq> insert 0 (heap_objs rt)
     \<and> (\<forall>a \<in> heap_objs rt. set (object_children (objs rt a)) \<subseteq> insert 0 (heap_objs rt))
     \<and> gc_counts rt"

text \<open>The objects that a collection keeps because they are reachable or need finalization.\<close>

definition pending_objs :: "zaclr_runtime \<Rightarrow> u64 set" where
  "pending_objs rt = finalizable_objs rt (objs rt) (unat (node_count rt))"

definition gc_roots :: "zaclr_runtime \<Rightarrow> u64 set" where
  "gc_roots rt = set (enumerate_runtime_roots rt)"

definition gc_kept :: "zaclr_runtime \<Rightarrow> u64 set" where
  "gc_kept rt = gc_reach (objs rt) (gc_roots rt \<union> pending_objs rt)"

definition obj_pinned :: "zaclr_runtime \<Rightarrow> u64 \<Rightarrow> bool" where
  "obj_pinned rt a \<longleftrightarrow> gc_state (objs rt a) AND ZACLR_OBJECT_GC_STATE_PINNED \<noteq> 0"

lemma gc_reach_empty [simp]: "gc_reach os {} = {}"
proof -
  have "a \<notin> gc_reach os {}" for a
  proof
    assume "a \<in> gc_reach os {}"
    then show False by induction simp
  qed
  then show ?thesis by blast
qed

lemma gc_reach_closed:
  assumes "R \<subseteq> insert 0 H" and "\<forall>a \<in> H. set (object_children (os a)) \<subseteq> insert 0 H"
  shows "gc_reach os R \<subseteq> H"
proof
  fix a
  assume "a \<in> gc_reach os R"
  then show "a \<in> H" by induction (use assms in auto)
qed

text \<open>
  \<open>zaclr_heap_get_object\<close> never gives \<open>NULL\<close> for a handle that is not 0, so the pass that should clear
  the handles that track resurrection changes nothing.
\<close>

lemma clear_long_weak_nothing: "zaclr_gc_clear_long_weak_handles rt = rt"
proof -
  have c: "clear_long_weak_entry e = e" for e by (simp add: clear_long_weak_entry_def zaclr_heap_get_object_def)
  show ?thesis by (simp add: zaclr_gc_clear_long_weak_handles_def Let_def c cong: if_cong)
qed

lemma short_weak_roots:
  assumes n: "unat (count t) \<le> n"
  shows "set (enumerate_handle_table_roots (t\<lparr>entry := (\<lambda>i. if i < n then clear_short_weak_entry os (entry t i) else entry t i)\<rparr>))
    = set (enumerate_handle_table_roots t)"
proof -
  have "strong_entry e \<Longrightarrow> clear_short_weak_entry os e = e" for e
    by (simp add: strong_entry_def clear_short_weak_entry_def)
  moreover have "strong_entry (clear_short_weak_entry os e) = strong_entry e" for e
    by (auto simp: strong_entry_def clear_short_weak_entry_def zaclr_heap_get_object_def)
  ultimately have "filter strong_entry (map (\<lambda>i. if i < n then clear_short_weak_entry os (entry t i) else entry t i) xs)
      = filter strong_entry (map (entry t) xs)" for xs
    by (induction xs) auto
  then show ?thesis unfolding enumerate_handle_table_roots_def by simp
qed

lemma flag_cleared: "(x OR 1 :: u32) AND NOT 1 AND 1 = 0" "(x AND NOT 1 :: u32) AND 1 = 0"
  by (simp_all add: and.assoc)

lemma promote_all:
  assumes p: "promoting os0 S R Q B 0 rt" and S: "S \<inter> heap_objs rt = {}" and inj: "inj_on (obj_at rt) (live_nodes rt)"
    and H: "gc_reach os0 (R \<union> heap_objs rt) \<subseteq> heap_objs rt" and nz: "nodes rt = 0 \<longrightarrow> live_nodes rt = {}"
    and lim: "unat (count (finalizer_queue rt)) + unat (node_count rt) < TABLE_LIMIT"
  obtains r rt' where "zaclr_gc_promote_unreachable_finalizable_objects rt = Some (r, rt')" and "gc_frame rt rt'"
    and "entries (finalizer_queue rt') = entries (finalizer_queue rt) \<or> entries (finalizer_queue rt') \<notin> B"
    and "is_ok r \<Longrightarrow> promoting os0 S R Q (moved B (finalizer_queue rt) (finalizer_queue rt')) (unat (node_count rt)) rt'"
    and "finalizable_objs rt os0 (unat (node_count rt)) = {} \<Longrightarrow> is_ok r"
    and "unat (count (finalizer_queue rt')) \<le> unat (count (finalizer_queue rt)) + unat (node_count rt)"
proof (cases "nodes rt = 0")
  case True
  then have "finalizable_objs rt os0 i = {}" for i using nz by (simp add: finalizable_objs_def)
  then have "promoting os0 S R Q B (unat (node_count rt)) rt" using p True nz by (simp add: promoting_def)
  moreover have "moved B (finalizer_queue rt) (finalizer_queue rt) = B"
    using p heap_has_nonzero by (intro moved_same) (auto simp: promoting_def)
  ultimately show thesis
    using True by (intro that [of zaclr_result_ok rt]) (simp_all add: zaclr_gc_promote_unreachable_finalizable_objects_def gc_frame_def)
next
  case False
  obtain r rt' where "promote_loop (unat (node_count rt)) 0 rt = Some (r, rt')" "gc_frame rt rt'"
    "entries (finalizer_queue rt') = entries (finalizer_queue rt) \<or> entries (finalizer_queue rt') \<notin> B"
    "is_ok r \<longrightarrow> promoting os0 S R Q (moved B (finalizer_queue rt) (finalizer_queue rt')) (0 + unat (node_count rt)) rt'"
    "finalizable_objs rt os0 (0 + unat (node_count rt)) = {} \<longrightarrow> is_ok r"
    "unat (count (finalizer_queue rt')) \<le> unat (count (finalizer_queue rt)) + unat (node_count rt)"
    using promote_loop_spec [OF p S inj H _ lim] by auto
  then show thesis
    using False by (intro that [of r rt']) (simp_all add: zaclr_gc_promote_unreachable_finalizable_objects_def)
qed

lemma sweep_spec:
  assumes B: "heap_has (kh rt) B" "heap_objs rt \<subseteq> B" and inj: "inj_on (obj_at rt) (live_nodes rt)" and c: "gc_counts rt"
  defines "rt' \<equiv> zaclr_heap_sweep_unmarked rt"
  shows "live_nodes rt' = live_nodes rt - doomed rt" and "\<forall>i \<in> live_nodes rt'. node rt' i = node rt i" and "sweep_frame rt rt'"
    and "gc_counts rt'" and "heap_has (kh rt') (B - (heap_objs rt - heap_objs rt'))" and "heap_objs rt' \<subseteq> heap_objs rt"
proof -
  let ?r = "fold sweep_node [0 ..< unat (node_count rt)] rt"
  have D: "{i \<in> doomed rt. i < unat (node_count rt)} = doomed rt" by (auto simp: doomed_def live_nodes_def)
  have s: "node ?r = (\<lambda>i. if i \<in> doomed rt then empty_node else node rt i)" "sweep_frame rt ?r" "gc_counts ?r"
    "heap_has (kh ?r) (B - obj_at rt ` doomed rt)"
    using sweep_fold [OF B inj c order_refl] unfolding D by auto
  have n: "node rt' = node ?r" "kh rt' = kh ?r" by (simp_all add: rt'_def zaclr_heap_sweep_unmarked_def Let_def)
  show fr: "sweep_frame rt rt'" using s(2) by (simp add: rt'_def zaclr_heap_sweep_unmarked_def Let_def sweep_frame_def)
  show lv: "live_nodes rt' = live_nodes rt - doomed rt"
    using fr n(1) s(1) by (auto simp: live_nodes_def sweep_frame_def split: if_splits)
  show "gc_counts rt'" using s(3) lv n fr s(2)
    by (simp add: gc_counts_def live_nodes_def rt'_def zaclr_heap_sweep_unmarked_def Let_def)
  show same: "\<forall>i \<in> live_nodes rt'. node rt' i = node rt i" using lv n(1) s(1) by simp
  have ob: "heap_objs rt' = obj_at rt ` (live_nodes rt - doomed rt)"
    using same lv unfolding heap_objs_def by (intro image_cong) (simp_all add: obj_at_def)
  have "doomed rt \<subseteq> live_nodes rt" by (auto simp: doomed_def)
  then have "heap_objs rt - heap_objs rt' = obj_at rt ` doomed rt"
    unfolding ob heap_objs_def [of rt] using inj_on_image_set_diff [OF inj, of "live_nodes rt" "live_nodes rt - doomed rt"]
    by (simp add: double_diff)
  then show "heap_has (kh rt') (B - (heap_objs rt - heap_objs rt'))" using s(4) n(2) by simp
  show "heap_objs rt' \<subseteq> heap_objs rt" unfolding ob heap_objs_def [of rt] by blast
qed

text \<open>What is known after a collection that reports success.\<close>

definition collected :: "u64 set \<Rightarrow> zaclr_runtime \<Rightarrow> zaclr_runtime \<Rightarrow> bool" where
  "collected B rt rt' \<longleftrightarrow>
     live_nodes rt' = {i \<in> live_nodes rt. obj_at rt i \<in> gc_kept rt \<or> obj_pinned rt (obj_at rt i)}
     \<and> (\<forall>i \<in> live_nodes rt'. node rt' i = node rt i) \<and> nodes rt' = nodes rt
     \<and> node_count rt' = node_count rt \<and> node_capacity rt' = node_capacity rt
     \<and> unat (count (finalizer_queue rt')) \<le> unat (count (finalizer_queue rt)) + unat (node_count rt)
     \<and> same_body (objs rt) (objs rt') \<and> (\<forall>a. obj_pinned rt' a = obj_pinned rt a)
     \<and> gc_counts rt'
     \<and> heap_has (kh rt') (moved B (finalizer_queue rt) (finalizer_queue rt') - (heap_objs rt - heap_objs rt'))
     \<and> (entries (finalizer_queue rt') = entries (finalizer_queue rt) \<or> entries (finalizer_queue rt') \<notin> B)
     \<and> table_wf (finalizer_queue rt') \<and> queue_clean (finalizer_queue rt')
     \<and> gc_roots rt' \<subseteq> gc_roots rt \<union> pending_objs rt \<and> gc_roots rt \<subseteq> gc_roots rt'
     \<and> entries (handle_table rt') = entries (handle_table rt) \<and> count (handle_table rt') = count (handle_table rt)
     \<and> (\<exists>os. marked os \<inter> heap_objs rt = gc_reach (objs rt) (gc_roots rt)
          \<and> (entries (handle_table rt) \<noteq> 0 \<longrightarrow> (\<forall>i < unat (count (handle_table rt)).
               entry (handle_table rt') i = clear_short_weak_entry os (entry (handle_table rt) i))))"

lemma swept_collected:
  assumes wf: "gc_wf rt B"
    and f: "node rt3 = node rt" "node_count rt3 = node_count rt" "nodes rt3 = nodes rt"
      "live_object_count rt3 = live_object_count rt" "allocated_bytes rt3 = allocated_bytes rt"
      "current_exception rt3 = current_exception rt" "active_frame rt3 = active_frame rt" "registry rt3 = registry rt"
      "node_capacity rt3 = node_capacity rt" "unat (count (finalizer_queue rt3)) \<le> unat (count (finalizer_queue rt)) + unat (node_count rt)"
    and p: "promoting (objs rt) S (gc_roots rt) (set (enumerate_handle_table_roots (finalizer_queue rt))) (moved B (finalizer_queue rt) (finalizer_queue rt3))
        (unat (node_count rt)) rt3"
    and S: "S \<inter> heap_objs rt = {}"
    and q: "entries (finalizer_queue rt3) = entries (finalizer_queue rt) \<or> entries (finalizer_queue rt3) \<notin> B"
    and ht: "set (enumerate_handle_table_roots (handle_table rt3)) = set (enumerate_handle_table_roots (handle_table rt))"
      "entries (handle_table rt3) = entries (handle_table rt)" "count (handle_table rt3) = count (handle_table rt)"
    and weak: "marked os \<inter> heap_objs rt = gc_reach (objs rt) (gc_roots rt)"
      "entries (handle_table rt) \<noteq> 0 \<longrightarrow> (\<forall>i < unat (count (handle_table rt)).
         entry (handle_table rt3) i = clear_short_weak_entry os (entry (handle_table rt) i))"
  shows "collected B rt ((zaclr_heap_sweep_unmarked rt3)\<lparr>heap_flags := x\<rparr>)"
proof -
  let ?rt4 = "zaclr_heap_sweep_unmarked rt3" and ?q = "finalizer_queue rt3"
  let ?B = "moved B (finalizer_queue rt) ?q"
  have lv: "live_nodes rt3 = live_nodes rt" "obj_at rt3 = obj_at rt" "heap_objs rt3 = heap_objs rt"
    using f(1,2) by (auto simp: live_nodes_def obj_at_def heap_objs_def)
  have cnt: "gc_counts rt3" using wf f lv by (simp add: gc_wf_def gc_counts_def)
  have inj: "inj_on (obj_at rt3) (live_nodes rt3)" using wf lv by (simp add: gc_wf_def)
  have B: "heap_has (kh rt3) ?B" "heap_objs rt3 \<subseteq> ?B" using p by (simp_all add: promoting_def)
  note sw = sweep_spec [OF B inj cnt]
  have F: "finalizable_objs rt3 (objs rt) (unat (node_count rt)) = pending_objs rt" using lv by (simp add: finalizable_objs_def pending_objs_def)
  have pin: "obj_pinned rt3 a = obj_pinned rt a" for a using p by (simp add: promoting_def obj_pinned_def)
  have m: "marked (objs rt3) = S \<union> gc_kept rt" using p F by (simp add: promoting_def gc_kept_def)
  have dead: "i \<in> doomed rt3 \<longleftrightarrow> i \<in> live_nodes rt \<and> obj_at rt i \<notin> gc_kept rt \<and> \<not> obj_pinned rt (obj_at rt i)" for i
  proof (cases "i \<in> live_nodes rt")
    case True
    then have "obj_at rt i \<notin> S" using S by (auto simp: heap_objs_def)
    then have "gc_mark (objs rt3 (obj_at rt i)) = 0 \<longleftrightarrow> obj_at rt i \<notin> gc_kept rt" using m by (auto simp: marked_def)
    then show ?thesis using True lv pin [of "obj_at rt i"] by (simp add: doomed_def obj_pinned_def)
  qed (simp add: doomed_def lv)
  have fin: "finalizer_queue ?rt4 = ?q" "handle_table ?rt4 = handle_table rt3" "objs ?rt4 = objs rt3" "nodes ?rt4 = nodes rt"
    "node_count ?rt4 = node_count rt" "node_capacity ?rt4 = node_capacity rt"
    "current_exception ?rt4 = current_exception rt" "active_frame ?rt4 = active_frame rt" "registry ?rt4 = registry rt"
    using sw(3) f by (simp_all add: sweep_frame_def)
  have "set (enumerate_handle_table_roots ?q) \<subseteq> gc_roots rt \<union> pending_objs rt"
    "set (enumerate_handle_table_roots (finalizer_queue rt)) \<subseteq> set (enumerate_handle_table_roots ?q)"
    using p F by (auto simp: promoting_def gc_roots_def enumerate_runtime_roots_def)
  moreover have "gc_roots rt = set (enumerate_handle_table_roots (finalizer_queue rt)) \<union> set (enumerate_handle_table_roots (handle_table rt))
      \<union> set (enumerate_thread_roots (current_exception rt) (active_frame rt)) \<union> \<Union> (set ` enumerate_assembly_static_roots ` set (registry rt))"
    by (auto simp: gc_roots_def enumerate_runtime_roots_def)
  ultimately have roots: "gc_roots ?rt4 \<subseteq> gc_roots rt \<union> pending_objs rt" "gc_roots rt \<subseteq> gc_roots ?rt4"
    using ht(1) fin by (auto simp: gc_roots_def enumerate_runtime_roots_def)
  have lv4: "live_nodes (?rt4\<lparr>heap_flags := x\<rparr>) = live_nodes ?rt4" "heap_objs (?rt4\<lparr>heap_flags := x\<rparr>) = heap_objs ?rt4"
    by (simp_all add: live_nodes_def heap_objs_def obj_at_def [abs_def])
  have "gc_counts (?rt4\<lparr>heap_flags := x\<rparr>)" using sw(4) lv4 by (simp add: gc_counts_def)
  moreover have "gc_roots (?rt4\<lparr>heap_flags := x\<rparr>) = gc_roots ?rt4" by (simp add: gc_roots_def enumerate_runtime_roots_def)
  moreover have "live_nodes ?rt4 = {i \<in> live_nodes rt. obj_at rt i \<in> gc_kept rt \<or> obj_pinned rt (obj_at rt i)}"
    using sw(1) dead lv by auto
  moreover have "obj_pinned (?rt4\<lparr>heap_flags := x\<rparr>) a = obj_pinned rt a" for a using pin fin(3) by (simp add: obj_pinned_def)
  moreover have "same_body (objs rt) (objs rt3)" "table_wf ?q" "queue_clean ?q" using p by (simp_all add: promoting_def)
  ultimately show ?thesis
    using sw(2,5) lv(3) lv4 f(1,10) fin roots q ht(2,3) weak unfolding collected_def by auto
qed

lemma gc_collect_spec:
  assumes wf: "gc_wf rt B" and act: "heap_flags rt AND ZACLR_HEAP_FLAG_GC_ACTIVE = 0"
    and lim: "unat (count (finalizer_queue rt)) + unat (node_count rt) < TABLE_LIMIT"
  obtains r rt' where "zaclr_gc_collect rt = Some (r, rt')" and "heap_flags rt' AND ZACLR_HEAP_FLAG_GC_ACTIVE = 0"
    and "is_ok r \<Longrightarrow> collected B rt rt'" and "pending_objs rt = {} \<Longrightarrow> is_ok r"
proof -
  let ?os = "objs rt" and ?H = "heap_objs rt" and ?R = "gc_roots rt" and ?n = "unat (node_count rt)"
  let ?S = "marked ?os - ?H" and ?t = "finalizer_queue rt"
  let ?Q = "set (enumerate_handle_table_roots ?t)"
  let ?rt1 = "rt\<lparr>heap_flags := heap_flags rt OR 1\<rparr>"
  have H1: "heap_objs ?rt1 = ?H" by (simp add: heap_objs_def obj_at_def [abs_def] live_nodes_def)
  obtain os1 where c: "zaclr_heap_clear_marks ?rt1 = ?rt1\<lparr>objs := os1\<rparr>" "same_but_mark ?os os1" "marked os1 = ?S"
    using clear_marks_spec [of ?rt1] H1 by (metis zaclr_runtime.select_convs(16) zaclr_runtime.surjective zaclr_runtime.update_convs(2))
  have roots1: "enumerate_runtime_roots (?rt1\<lparr>objs := os1\<rparr>) = enumerate_runtime_roots rt"
    by (simp add: enumerate_runtime_roots_def)
  have closed: "gc_reach ?os Q \<subseteq> ?H" if "Q \<subseteq> insert 0 ?H" for Q
    using gc_reach_closed [OF that] wf by (simp add: gc_wf_def)
  have RH: "?R \<subseteq> insert 0 ?H" using wf by (simp add: gc_wf_def gc_roots_def)
  have b1: "same_body ?os os1" using c(2) same_body_mark [of ?os ?os] by (metis same_but_mark_refl same_body_def same_but_mark_def
        zaclr_object_desc.surjective zaclr_object_desc.update_convs(3,4))
  have m1: "marked os1 = ?S \<union> gc_reach ?os {}" using c(3) by simp
  have "gc_reach ?os ({} \<union> set (enumerate_runtime_roots rt)) \<subseteq> ?H" using closed [OF RH] by (simp add: gc_roots_def)
  then obtain os2 where o2: "mark_objects (enumerate_runtime_roots rt) os1 = Some os2" "same_but_mark os1 os2"
    "marked os2 = ?S \<union> gc_reach ?os ?R"
    using mark_objects_reach [OF b1 m1, of ?H "enumerate_runtime_roots rt"] by (auto simp: gc_roots_def)
  define rt2 where "rt2 = zaclr_gc_clear_short_weak_handles (?rt1\<lparr>objs := os2\<rparr>)"
  have f2: "node rt2 = node rt" "node_count rt2 = node_count rt" "objs rt2 = os2" "kh rt2 = kh rt" "finalizer_queue rt2 = ?t"
    "nodes rt2 = nodes rt" "node_capacity rt2 = node_capacity rt" "heap_flags rt2 = heap_flags rt OR 1" "current_exception rt2 = current_exception rt"
    "active_frame rt2 = active_frame rt" "registry rt2 = registry rt" "live_object_count rt2 = live_object_count rt"
    "allocated_bytes rt2 = allocated_bytes rt" "entries (handle_table rt2) = entries (handle_table rt)"
    "count (handle_table rt2) = count (handle_table rt)"
    by (simp_all add: rt2_def zaclr_gc_clear_short_weak_handles_def Let_def)
  have lv2: "live_nodes rt2 = live_nodes rt" "obj_at rt2 = obj_at rt" "heap_objs rt2 = ?H"
    using f2(1,2) by (auto simp: live_nodes_def obj_at_def heap_objs_def)
  have st2: "gc_state (os2 a) = gc_state (?os a)" for a using same_but_mark_state c(2) o2(2) by metis
  have "promoting ?os ?S ?R ?Q B 0 rt2"
    using wf b1 o2(2,3) same_body_mark f2 lv2 st2
    by (auto simp: promoting_def gc_wf_def finalizable_objs_def)
  moreover have "?S \<inter> heap_objs rt2 = {}" "inj_on (obj_at rt2) (live_nodes rt2)" "nodes rt2 = 0 \<longrightarrow> live_nodes rt2 = {}"
    using lv2 f2 wf by (auto simp: gc_wf_def)
  moreover have "gc_reach ?os (?R \<union> heap_objs rt2) \<subseteq> heap_objs rt2" using closed [of "?R \<union> ?H"] RH lv2(3) by auto
  moreover have "unat (count (finalizer_queue rt2)) + unat (node_count rt2) < TABLE_LIMIT" using lim f2 by simp
  ultimately obtain r rt3 where r3: "zaclr_gc_promote_unreachable_finalizable_objects rt2 = Some (r, rt3)" "gc_frame rt2 rt3"
    "entries (finalizer_queue rt3) = entries ?t \<or> entries (finalizer_queue rt3) \<notin> B"
    "is_ok r \<Longrightarrow> promoting ?os ?S ?R ?Q (moved B ?t (finalizer_queue rt3)) ?n rt3"
    "finalizable_objs rt2 ?os ?n = {} \<Longrightarrow> is_ok r" "unat (count (finalizer_queue rt3)) \<le> unat (count ?t) + ?n"
    using promote_all [of ?os ?S ?R ?Q B rt2] f2(2,5) by metis
  let ?rt4 = "zaclr_heap_sweep_unmarked rt3"
  let ?idle = "\<lambda>rt. rt\<lparr>heap_flags := heap_flags rt AND NOT 1\<rparr>"
  have run: "zaclr_gc_collect rt = Some (if is_ok r then (zaclr_result_ok, ?idle ?rt4) else (r, ?idle rt3))"
    using act c(1) o2(1) r3(1) roots1 by (simp add: zaclr_gc_collect_def Let_def rt2_def clear_long_weak_nothing)
  show thesis
  proof (cases "is_ok r")
    case False
    have "pending_objs rt = finalizable_objs rt2 ?os ?n" using lv2 by (simp add: pending_objs_def finalizable_objs_def)
    then show thesis using False run flag_cleared r3(5) by (intro that [of r "?idle rt3"]) simp_all
  next
    case True
    note fr = r3(2) [unfolded gc_frame_def]
    have ht3: "handle_table rt3 = (if entries (handle_table rt) = 0 then handle_table rt
      else (handle_table rt)\<lparr>entry := (\<lambda>i. if i < unat (count (handle_table rt))
        then clear_short_weak_entry os2 (entry (handle_table rt) i) else entry (handle_table rt) i)\<rparr>)"
    proof -
      have "handle_table rt3 = handle_table rt2" using fr by blast
      then show ?thesis by (simp add: rt2_def zaclr_gc_clear_short_weak_handles_def Let_def cong: if_cong)
    qed
    have "collected B rt (?idle ?rt4)"
    proof (rule swept_collected [OF wf, where S = ?S and os = os2])
      show "promoting ?os ?S ?R ?Q (moved B ?t (finalizer_queue rt3)) ?n rt3" using r3(4) [OF True] .
      show "marked os2 \<inter> ?H = gc_reach ?os ?R" using o2(3) closed [OF RH] by auto
      show "set (enumerate_handle_table_roots (handle_table rt3)) = set (enumerate_handle_table_roots (handle_table rt))"
        using short_weak_roots [OF order_refl, of "handle_table rt" os2] by (simp add: ht3)
      show "entries (handle_table rt) \<noteq> 0 \<longrightarrow> (\<forall>i < unat (count (handle_table rt)).
          entry (handle_table rt3) i = clear_short_weak_entry os2 (entry (handle_table rt) i))"
        by (simp add: ht3)
    qed (use fr f2 r3(3,6) in auto)
    then show thesis using True run flag_cleared by (intro that [of zaclr_result_ok "?idle ?rt4"]) simp_all
  qed
qed

subsection \<open>An example\<close>

text \<open>
  Three boxed values in blocks of the kernel heap: the first is the exception of the thread and
  refers to the second, nothing refers to the third; two weak handles hold the second and the third.
\<close>

definition sample_blocks :: "u64 set" where
  "sample_blocks = {0x200010, 0x200080, 0x2000F0}"

definition alloc_box :: "kheap \<Rightarrow> kheap" where
  "alloc_box h = snd (the (kheap_alloc 88 h))"

definition sample_kheap :: kheap where
  "sample_kheap = alloc_box (alloc_box (alloc_box demo_heap))"

lemma sample_kheap_has: "heap_has sample_kheap sample_blocks"
proof -
  let ?h1 = "alloc_box demo_heap"
  let ?h2 = "alloc_box ?h1"
  have h1: "kheap_alloc 88 demo_heap = Some (0x200010, ?h1)" "g_heap_current ?h1 = 0x200070"
      "g_heap_alloc_start ?h1 = 0x200000" "g_heap_end ?h1 = 0xA00000" "g_free_buckets ?h1 = (\<lambda>_. 0)"
    by (simp_all add: alloc_box_def demo_simps)
  then have r1: "heap_run ?h1 [(0x200010, 88)]" using heap_run.alloc [OF demo_heap_run, of 88] by simp
  have h2: "kheap_alloc 88 ?h1 = Some (0x200080, ?h2)" "g_heap_current ?h2 = 0x2000E0"
      "g_heap_alloc_start ?h2 = 0x200000" "g_heap_end ?h2 = 0xA00000" "g_free_buckets ?h2 = (\<lambda>_. 0)"
    unfolding alloc_box_def [of ?h1] using h1(2-) by (simp_all add: demo_simps)
  then have r2: "heap_run ?h2 [(0x200080, 88), (0x200010, 88)]" using heap_run.alloc [OF r1, of 88] by simp
  have "kheap_alloc 88 ?h2 = Some (0x2000F0, sample_kheap)"
    unfolding sample_kheap_def alloc_box_def [of ?h2] using h2(2-) by (simp add: demo_simps)
  then have "heap_run sample_kheap [(0x2000F0, 88), (0x200080, 88), (0x200010, 88)]" using heap_run.alloc [OF r2, of 88] by simp
  then show ?thesis unfolding heap_has_def sample_blocks_def by force
qed

definition sample_object :: "mem \<Rightarrow> zaclr_object_desc" where
  "sample_object m = \<lparr>size_bytes = 88, family = 1, gc_mark = 0, gc_state = 0, sync_block_index = 0, obj_flags = 2,
     method_table = None, owning_assembly = 0, type_id = 0, tail = m\<rparr>"

text \<open>A boxed object reference to \<open>0x200080\<close>: kind 2 at 8, the pointer at 32.\<close>

definition sample_box :: mem where
  "sample_box = (\<lambda>_. 0)(8 := 2, 32 := 0x80, 34 := 0x20)"

definition sample_entry :: "nat \<Rightarrow> zaclr_gc_handle_entry" where
  "sample_entry i = \<lparr>he_handle = (if i = 0 then 0x200080 else 0x2000F0), he_kind = 1, he_flags = 1, he_reserved = 0\<rparr>"

definition sample_runtime :: zaclr_runtime where
  "sample_runtime = \<lparr>heap_runtime = True, heap_flags = 0, nodes = 0x300000,
     node = (\<lambda>i. if i < 3 then \<lparr>object = [0x200010, 0x200080, 0x2000F0] ! i, allocation_size = 88, used = 1\<rparr> else empty_node),
     node_count = 3, node_capacity = 16, live_object_count = 3, allocated_bytes = 264,
     collection_threshold_bytes = 65536, collection_count = 0, finalizer_queue = empty_table,
     handle_table = \<lparr>ht_id = 1, entries = 0x300400, entry = sample_entry, count = 2, capacity = 8, ht_flags = 0\<rparr>,
     current_exception = 0x200010, active_frame = [], registry = [],
     objs = (\<lambda>a. sample_object (if a = 0x200010 then sample_box else (\<lambda>_. 0))), kh = sample_kheap\<rparr>"

lemma sample_node:
  "node sample_runtime i = (if i = 0 then \<lparr>object = 0x200010, allocation_size = 88, used = 1\<rparr>
     else if i = 1 then \<lparr>object = 0x200080, allocation_size = 88, used = 1\<rparr>
     else if i = 2 then \<lparr>object = 0x2000F0, allocation_size = 88, used = 1\<rparr> else empty_node)"
  by (auto simp: sample_runtime_def less_Suc_eq numeral_3_eq_3 nth_Cons')

lemma sample_live: "live_nodes sample_runtime = {0, 1, 2}"
  "obj_at sample_runtime 0 = 0x200010" "obj_at sample_runtime 1 = 0x200080" "obj_at sample_runtime (Suc 0) = 0x200080"
  "obj_at sample_runtime 2 = 0x2000F0"
proof -
  have "unat (node_count sample_runtime) = 3" by (simp add: sample_runtime_def)
  then show "live_nodes sample_runtime = {0, 1, 2}" by (auto simp: live_nodes_def sample_node node_live_def split: if_splits)
qed (simp_all add: obj_at_def sample_node)

lemma sample_heap_objs: "heap_objs sample_runtime = sample_blocks"
  by (simp add: heap_objs_def sample_live sample_blocks_def)

lemma sample_children:
  "object_children (objs sample_runtime a) = (if a = 0x200010 then [0x200080] else [])"
  by (simp add: sample_runtime_def object_children_def sample_object_def boxed_value_children_def value_reference_def
      zaclr_stack_value_contains_references_def stack_value_at_def object_reference_def read_u32_def read_u64_def
      read_nat_4 read_nat_8 sample_box_def)

lemma sample_roots: "gc_roots sample_runtime = {0x200010}" "pending_objs sample_runtime = {}"
proof -
  have "\<not> strong_entry (sample_entry i)" for i by (simp add: strong_entry_def sample_entry_def)
  then show "gc_roots sample_runtime = {0x200010}"
    by (simp add: gc_roots_def enumerate_runtime_roots_def enumerate_handle_table_roots_def sample_runtime_def empty_table_def
        enumerate_thread_roots_def filter_empty_conv)
  show "pending_objs sample_runtime = {}"
    by (simp add: pending_objs_def finalizable_objs_def finalizable_def) (simp add: sample_runtime_def sample_object_def)
qed

lemma sample_wf: "gc_wf sample_runtime sample_blocks"
proof -
  have "heap_has (kh sample_runtime) sample_blocks" using sample_kheap_has by (simp add: sample_runtime_def)
  moreover have "inj_on (obj_at sample_runtime) (live_nodes sample_runtime)" by (simp add: sample_live)
  moreover have "gc_counts sample_runtime"
    by (simp add: gc_counts_def sample_live) (simp add: sample_runtime_def)
  moreover have "set (enumerate_runtime_roots sample_runtime) = {0x200010}" using sample_roots(1) by (simp add: gc_roots_def)
  ultimately show ?thesis
    by (simp add: gc_wf_def sample_heap_objs sample_children)
      (simp add: sample_runtime_def empty_table_def table_wf_def queue_clean_def sample_blocks_def)
qed

lemma sample_reach: "gc_reach (objs sample_runtime) {0x200010} = {0x200010, 0x200080}"
proof
  show "gc_reach (objs sample_runtime) {0x200010} \<subseteq> {0x200010, 0x200080}"
    by (rule gc_reach_closed) (simp_all add: sample_children)
  have "0x200010 \<in> gc_reach (objs sample_runtime) {0x200010}" by (rule gc_reach.root) simp_all
  moreover from this have "0x200080 \<in> gc_reach (objs sample_runtime) {0x200010}"
    by (rule gc_reach.step) (simp_all add: sample_children)
  ultimately show "{0x200010, 0x200080} \<subseteq> gc_reach (objs sample_runtime) {0x200010}" by blast
qed

lemma sample_fields: "heap_flags sample_runtime = 0" "count (finalizer_queue sample_runtime) = 0" "node_count sample_runtime = 3"
  "obj_pinned sample_runtime a = False" "handle_table sample_runtime = \<lparr>ht_id = 1, entries = 0x300400, entry = sample_entry,
     count = 2, capacity = 8, ht_flags = 0\<rparr>"
  by (simp_all add: sample_runtime_def empty_table_def obj_pinned_def sample_object_def)

lemma sample_collect:
  obtains r rt' where "zaclr_gc_collect sample_runtime = Some (r, rt')" and "is_ok r"
  by (rule gc_collect_spec [OF sample_wf]) (simp_all add: sample_fields sample_roots)

subsection \<open>Properties\<close>

lemma collected_objs:
  assumes wf: "gc_wf rt B" and c: "collected B rt rt'"
  shows "heap_objs rt' = {a \<in> heap_objs rt. a \<in> gc_kept rt \<or> obj_pinned rt a}" and "gc_kept rt \<subseteq> heap_objs rt"
    and "inj_on (obj_at rt') (live_nodes rt')"
proof -
  have lv: "live_nodes rt' = {i \<in> live_nodes rt. obj_at rt i \<in> gc_kept rt \<or> obj_pinned rt (obj_at rt i)}"
    and ob: "\<And>i. i \<in> live_nodes rt' \<Longrightarrow> obj_at rt' i = obj_at rt i"
    using c by (auto simp: collected_def obj_at_def)
  have "heap_objs rt' = obj_at rt ` live_nodes rt'" unfolding heap_objs_def by (rule image_cong) (use ob in auto)
  then show "heap_objs rt' = {a \<in> heap_objs rt. a \<in> gc_kept rt \<or> obj_pinned rt a}" unfolding lv heap_objs_def [of rt] by auto
  have "pending_objs rt \<subseteq> heap_objs rt" by (auto simp: pending_objs_def finalizable_objs_def heap_objs_def)
  then have "gc_roots rt \<union> pending_objs rt \<subseteq> insert 0 (heap_objs rt)" using wf by (auto simp: gc_wf_def gc_roots_def)
  then show "gc_kept rt \<subseteq> heap_objs rt" unfolding gc_kept_def using wf by (intro gc_reach_closed) (auto simp: gc_wf_def)
  have "inj_on (obj_at rt) (live_nodes rt')" using wf lv by (auto simp: gc_wf_def intro: inj_on_subset)
  then show "inj_on (obj_at rt') (live_nodes rt')" using ob inj_on_cong by metis
qed

lemma collected_wf:
  assumes wf: "gc_wf rt B" and c: "collected B rt rt'"
    and pin: "\<forall>a \<in> heap_objs rt. obj_pinned rt a \<longrightarrow> a \<in> gc_kept rt"
  shows "gc_wf rt' (moved B (finalizer_queue rt) (finalizer_queue rt') - (heap_objs rt - heap_objs rt'))"
proof -
  let ?t = "finalizer_queue rt" and ?q = "finalizer_queue rt'" and ?F = "heap_objs rt - heap_objs rt'"
  let ?B = "moved B ?t ?q - ?F"
  note o = collected_objs [OF wf c]
  have H: "heap_objs rt' = gc_kept rt" using o pin by auto
  have "set (object_children (objs rt' a)) \<subseteq> insert 0 (gc_kept rt)" if "a \<in> gc_kept rt" for a
  proof -
    have "object_children (objs rt' a) = object_children (objs rt a)" using c same_body_children by (auto simp: collected_def)
    then show ?thesis using that by (auto simp: gc_kept_def intro: gc_reach.step)
  qed
  moreover have "gc_roots rt' \<subseteq> insert 0 (gc_kept rt)" using c by (auto simp: collected_def gc_kept_def intro: gc_reach.root)
  moreover have q: "entries ?q \<noteq> 0 \<longrightarrow> entries ?q \<notin> heap_objs rt" "heap_objs rt \<subseteq> moved B ?t ?q"
    using c wf heap_has_nonzero by (auto simp: collected_def gc_wf_def moved_def)
  moreover have "nodes rt' = 0 \<longrightarrow> live_nodes rt' = {}" using c wf by (auto simp: collected_def gc_wf_def)
  moreover have "heap_has (kh rt') ?B" "table_wf ?q" "queue_clean ?q" "gc_counts rt'" using c by (simp_all add: collected_def)
  ultimately show ?thesis using o H unfolding gc_wf_def gc_roots_def by (auto simp: moved_def)
qed

subsection \<open>Limits of the collector\<close>

text \<open>
  The marker reads the fields of the object's own type only. The field layout of a type lists its own
  fields, and the accessors search the parents as well: a reference in an inherited field can be
  loaded by the program but is not followed by the collector.
\<close>

definition ref_layout :: zaclr_field_layout where
  "ref_layout = \<lparr>field_token_row = 1, byte_offset = 0, nested_type_token_raw = 0, fl_element_type = 0x12, is_reference = 1,
     is_static = 0, field_size = 8\<rparr>"

definition int_layout :: zaclr_field_layout where
  "int_layout = \<lparr>field_token_row = 2, byte_offset = 8, nested_type_token_raw = 0, fl_element_type = 0x08, is_reference = 0,
     is_static = 0, field_size = 4\<rparr>"

lemma inherited_reference_not_followed:
  fixes m :: mem and ob :: zaclr_object_desc
  defines "ob \<equiv> (sample_object m)\<lparr>obj_flags := ZACLR_OBJECT_FLAG_REFERENCE_TYPE, method_table :=
    Some (Zaclr_Method_Table (Some [int_layout]) (Some (Zaclr_Method_Table (Some [ref_layout]) None None)) None)\<rparr>"
  shows "object_instance_field_address ob (zaclr_token_make 0x04000001) = Some 8" and "object_children ob = []"
proof -
  show "object_instance_field_address ob (zaclr_token_make 0x04000001) = Some 8"
    by (simp add: ob_def object_instance_field_address_def find_field_layout_def instance_field_base_def sample_object_def
        zaclr_token_matches_table_def zaclr_token_table_def zaclr_token_is_nil_def zaclr_token_row_def zaclr_token_make_def
        layout_of_row_def int_layout_def ref_layout_def)
  show "object_children ob = []"
    by (simp add: ob_def object_children_def sample_object_def reference_object_children_def field_reference_def int_layout_def)
qed

text \<open>An unreachable pinned object stays, but the objects it refers to are released.\<close>

lemma pinned_reference_dangles:
  assumes "gc_wf rt B" and "collected B rt rt'" and "a \<in> heap_objs rt" and "obj_pinned rt a"
    and "b \<in> heap_objs rt" and "b \<in> set (object_children (objs rt a))" and "b \<notin> gc_kept rt" and "\<not> obj_pinned rt b"
  shows "a \<in> heap_objs rt' \<and> b \<in> set (object_children (objs rt' a)) \<and> b \<notin> heap_objs rt'"
  using assms collected_objs(1) [OF assms(1,2)] same_body_children [of "objs rt" "objs rt'"] by (auto simp: collected_def)

text \<open>A handle that tracks resurrection is never cleared, also when its object is released.\<close>

lemma long_weak_dangles:
  assumes "gc_wf rt B" and "collected B rt rt'" and "i < unat (count (handle_table rt))" and "entries (handle_table rt) \<noteq> 0"
    and "ucast (he_kind (entry (handle_table rt) i)) = ZACLR_GC_HANDLE_KIND_WEAK_TRACK_RESURRECTION"
    and "he_handle (entry (handle_table rt) i) \<notin> gc_kept rt" and "\<not> obj_pinned rt (he_handle (entry (handle_table rt) i))"
  shows "entry (handle_table rt') i = entry (handle_table rt) i \<and> he_handle (entry (handle_table rt') i) \<notin> heap_objs rt'"
proof -
  obtain os where "entry (handle_table rt') i = clear_short_weak_entry os (entry (handle_table rt) i)"
    using assms(2-4) by (auto simp: collected_def)
  then have "entry (handle_table rt') i = entry (handle_table rt) i" using assms(5) by (simp add: clear_short_weak_entry_def)
  then show ?thesis using collected_objs(1) [OF assms(1,2)] assms(6,7) by simp
qed

subsection \<open>Collections are exact\<close>

text \<open>
  C2. A collection of a managed heap at rest returns, with the collector marked as idle again, and
  it succeeds whenever no object waits for finalization. When it succeeds it has kept exactly the
  objects that are pinned or reachable from the roots and the objects waiting for finalization
  through the references the collector follows; the nodes it keeps and all of an object but the
  collector's own fields are unchanged.
\<close>

theorem gc_collect_exact:
  assumes "gc_wf rt B" and "heap_flags rt AND ZACLR_HEAP_FLAG_GC_ACTIVE = 0"
    and "unat (count (finalizer_queue rt)) + unat (node_count rt) < 2 ^ 26"
  shows "\<exists>r rt'. zaclr_gc_collect rt = Some (r, rt') \<and> heap_flags rt' AND ZACLR_HEAP_FLAG_GC_ACTIVE = 0
    \<and> (pending_objs rt = {} \<longrightarrow> is_ok r)
    \<and> (is_ok r \<longrightarrow>
        live_nodes rt' = {i \<in> live_nodes rt. obj_at rt i \<in> gc_reach (objs rt) (gc_roots rt \<union> pending_objs rt)
                            \<or> obj_pinned rt (obj_at rt i)}
        \<and> (\<forall>i \<in> live_nodes rt'. node rt' i = node rt i) \<and> same_body (objs rt) (objs rt'))"
  by (rule gc_collect_spec [OF assms]) (auto simp: collected_def gc_kept_def)

theorem gc_collect_exact_witness:
  "\<exists>r rt'. zaclr_gc_collect sample_runtime = Some (r, rt') \<and> is_ok r \<and> live_nodes rt' = {0, 1}"
proof -
  have "\<exists>r rt'. zaclr_gc_collect sample_runtime = Some (r, rt') \<and> is_ok r
    \<and> live_nodes rt' = {i \<in> live_nodes sample_runtime. obj_at sample_runtime i \<in> {0x200010, 0x200080}}"
    using gc_collect_exact [OF sample_wf] by (auto simp: sample_fields sample_roots sample_reach)
  moreover have "{i \<in> live_nodes sample_runtime. obj_at sample_runtime i \<in> {0x200010, 0x200080}} = {0, 1}"
    using sample_live by auto
  ultimately show ?thesis by simp
qed

text \<open>
  C7. A successful collection leaves the managed heap well formed again when every pinned object
  is reachable: no root and no reference followed out of a surviving object dangles, the counters
  are exact, and the blocks of the released objects, each of which was held, have gone back to the
  kernel heap.
\<close>

theorem gc_collect_wf:
  assumes wf: "gc_wf rt B" and act: "heap_flags rt AND ZACLR_HEAP_FLAG_GC_ACTIVE = 0"
    and lim: "unat (count (finalizer_queue rt)) + unat (node_count rt) < 2 ^ 26"
    and run: "zaclr_gc_collect rt = Some (r, rt')" and ok: "is_ok r"
    and pin: "\<forall>a \<in> heap_objs rt. obj_pinned rt a \<longrightarrow> a \<in> gc_reach (objs rt) (gc_roots rt \<union> pending_objs rt)"
  shows "\<exists>B'. gc_wf rt' B' \<and> B' \<inter> (heap_objs rt - heap_objs rt') = {} \<and> heap_objs rt - heap_objs rt' \<subseteq> B"
proof -
  have c: "collected B rt rt'" by (rule gc_collect_spec [OF wf act lim]) (use run ok in auto)
  have "gc_wf rt' (moved B (finalizer_queue rt) (finalizer_queue rt') - (heap_objs rt - heap_objs rt'))"
    using collected_wf [OF wf c] pin by (simp add: gc_kept_def)
  moreover have "heap_objs rt - heap_objs rt' \<subseteq> B" using wf by (auto simp: gc_wf_def)
  ultimately show ?thesis by blast
qed

theorem gc_collect_wf_witness:
  "\<exists>r rt' B'. zaclr_gc_collect sample_runtime = Some (r, rt') \<and> gc_wf rt' B' \<and> B' \<inter> (heap_objs sample_runtime - heap_objs rt') = {}"
proof -
  obtain r rt' where r: "zaclr_gc_collect sample_runtime = Some (r, rt')" "is_ok r" by (rule sample_collect)
  show ?thesis using gc_collect_wf [OF sample_wf _ _ r] r by (auto simp: sample_fields)
qed

text \<open>
  C19. After a successful collection a weak handle still holds its object when the object is
  reachable from the roots alone and is cleared otherwise, and every other entry of the handle
  table is as before.
\<close>

theorem gc_weak_handles:
  assumes wf: "gc_wf rt B" and act: "heap_flags rt AND ZACLR_HEAP_FLAG_GC_ACTIVE = 0"
    and lim: "unat (count (finalizer_queue rt)) + unat (node_count rt) < 2 ^ 26"
    and run: "zaclr_gc_collect rt = Some (r, rt')" and ok: "is_ok r"
    and i: "i < unat (count (handle_table rt))" and t: "entries (handle_table rt) \<noteq> 0"
    and e: "e = entry (handle_table rt) i" and live: "he_handle e \<in> insert 0 (heap_objs rt)"
  shows "entry (handle_table rt') i =
    (if ucast (he_kind e) = ZACLR_GC_HANDLE_KIND_WEAK \<and> he_handle e \<notin> gc_reach (objs rt) (gc_roots rt) then e\<lparr>he_handle := 0\<rparr> else e)"
proof -
  have c: "collected B rt rt'" by (rule gc_collect_spec [OF wf act lim]) (use run ok in auto)
  then obtain os where os: "marked os \<inter> heap_objs rt = gc_reach (objs rt) (gc_roots rt)"
    "entry (handle_table rt') i = clear_short_weak_entry os e"
    using i t e by (auto simp: collected_def)
  show ?thesis
  proof (cases "he_handle e = 0")
    case True
    then show ?thesis using os(2) by (simp add: clear_short_weak_entry_def)
  next
    case False
    then have "he_handle e \<in> marked os \<longleftrightarrow> he_handle e \<in> gc_reach (objs rt) (gc_roots rt)" using os(1) live by blast
    then show ?thesis using os(2) False
      by (simp add: clear_short_weak_entry_def zaclr_heap_get_object_def marked_def zaclr_object_is_marked_def)
  qed
qed

theorem gc_weak_handles_witness:
  "\<exists>r rt'. zaclr_gc_collect sample_runtime = Some (r, rt') \<and> he_handle (entry (handle_table rt') 0) = 0x200080
     \<and> he_handle (entry (handle_table rt') 1) = 0"
proof -
  obtain r rt' where r: "zaclr_gc_collect sample_runtime = Some (r, rt')" "is_ok r" by (rule sample_collect)
  have "entry (handle_table rt') 0 = sample_entry 0"
    using gc_weak_handles [OF sample_wf _ _ r, of 0 "sample_entry 0"]
    by (simp add: sample_fields sample_roots sample_reach sample_heap_objs sample_blocks_def sample_entry_def)
  moreover have "entry (handle_table rt') 1 = (sample_entry 1)\<lparr>he_handle := 0\<rparr>"
    using gc_weak_handles [OF sample_wf _ _ r, of 1 "sample_entry 1"]
    by (simp add: sample_fields sample_roots sample_reach sample_heap_objs sample_blocks_def sample_entry_def)
  ultimately show ?thesis using r(1) by (simp add: sample_entry_def)
qed

end
