(* ===== verification/Zaclr_Alloc.thy ===== *)
theory Zaclr_Alloc
  imports Zaclr_Gc_Safety
begin

text \<open>
  Allocation of managed objects (\<open>zaclr_heap_allocate_object\<close> of \<^verbatim>\<open>heap/zaclr_heap.cpp\<close>): the new object
  is fresh, the heap stays well formed, and an allocation that collects garbage on the way does
  not release an object that is reachable from the roots.
\<close>

text \<open>The managed heap with its node table in a block of its own, and no pinned object.\<close>

definition heap_wf :: "zaclr_runtime \<Rightarrow> u64 set \<Rightarrow> bool" where
  "heap_wf rt B \<longleftrightarrow> gc_wf rt B \<and> node_count rt \<le> node_capacity rt \<and> (nodes rt = 0 \<longrightarrow> node_capacity rt = 0)
     \<and> (nodes rt \<noteq> 0 \<longrightarrow> nodes rt \<in> B - heap_objs rt \<and> nodes rt \<noteq> entries (finalizer_queue rt))
     \<and> (\<forall>a \<in> heap_objs rt. \<not> obj_pinned rt a)"

text \<open>
  What an operation of the allocator may do to the objects: those that are left include everything
  reachable, and differ only in the fields of the collector.
\<close>

definition keeps :: "zaclr_runtime \<Rightarrow> zaclr_runtime \<Rightarrow> bool" where
  "keeps rt rt' \<longleftrightarrow> heap_objs rt' \<subseteq> heap_objs rt \<and> gc_reach (objs rt) (gc_roots rt) \<subseteq> heap_objs rt'
     \<and> (\<forall>a \<in> heap_objs rt'. \<exists>m s. objs rt' a = (objs rt a)\<lparr>gc_mark := m, gc_state := s\<rparr>)
     \<and> gc_roots rt \<subseteq> gc_roots rt' \<and> unat (allocated_bytes rt') \<le> unat (allocated_bytes rt)
     \<and> node_count rt' = node_count rt"

lemma gc_roots_reach: "gc_wf rt B \<Longrightarrow> gc_reach (objs rt) (gc_roots rt) \<subseteq> heap_objs rt"
  by (rule gc_reach_closed) (auto simp: gc_wf_def gc_roots_def)

lemma object_refl: "\<exists>m s. (ob :: zaclr_object_desc) = ob\<lparr>gc_mark := m, gc_state := s\<rparr>"
  by (intro exI [of _ "gc_mark ob"] exI [of _ "gc_state ob"]) simp

lemma keeps_refl:
  assumes "gc_wf rt B" and "objs rt' = objs rt" and "gc_roots rt' = gc_roots rt" and "allocated_bytes rt' = allocated_bytes rt"
    and "node_count rt' = node_count rt" and "heap_objs rt' = heap_objs rt"
  shows "keeps rt rt'"
  using assms gc_roots_reach [OF assms(1)] object_refl by (simp add: keeps_def)

lemma keeps_trans:
  assumes k1: "keeps rt rt1" and k2: "keeps rt1 rt2"
  shows "keeps rt rt2"
proof -
  have "a \<in> gc_reach (objs rt1) (gc_roots rt1)" if "a \<in> gc_reach (objs rt) (gc_roots rt)" for a
    using that
  proof induction
    case (root a)
    then show ?case using k1 by (auto simp: keeps_def intro: gc_reach.root)
  next
    case (step a b)
    then have "a \<in> heap_objs rt1" using k1 by (auto simp: keeps_def)
    then obtain m s where "objs rt1 a = (objs rt a)\<lparr>gc_mark := m, gc_state := s\<rparr>" using k1 by (auto simp: keeps_def)
    then have "object_children (objs rt1 a) = object_children (objs rt a)" by simp
    then show ?case using step gc_reach.step by metis
  qed
  moreover have "\<exists>m s. objs rt2 a = (objs rt a)\<lparr>gc_mark := m, gc_state := s\<rparr>" if "a \<in> heap_objs rt2" for a
  proof -
    obtain m s where "objs rt2 a = (objs rt1 a)\<lparr>gc_mark := m, gc_state := s\<rparr>" using k2 \<open>a \<in> heap_objs rt2\<close> by (auto simp: keeps_def)
    moreover obtain m' s' where "objs rt1 a = (objs rt a)\<lparr>gc_mark := m', gc_state := s'\<rparr>"
      using k1 k2 \<open>a \<in> heap_objs rt2\<close> unfolding keeps_def by blast
    ultimately have "objs rt2 a = (objs rt a)\<lparr>gc_mark := m, gc_state := s\<rparr>" by simp
    then show ?thesis by blast
  qed
  ultimately show ?thesis using k1 k2 unfolding keeps_def by fastforce
qed

lemma collect_keeps:
  assumes wf: "heap_wf rt B" and act: "heap_flags rt AND ZACLR_HEAP_FLAG_GC_ACTIVE = 0"
    and lim: "unat (count (finalizer_queue rt)) + unat (node_count rt) < TABLE_LIMIT"
  obtains r rt' where "zaclr_gc_collect rt = Some (r, rt')" and "heap_flags rt' AND ZACLR_HEAP_FLAG_GC_ACTIVE = 0"
    and "is_ok r \<Longrightarrow> \<exists>B'. heap_wf rt' B' \<and> keeps rt rt' \<and> node_capacity rt' = node_capacity rt
      \<and> unat (count (finalizer_queue rt')) \<le> unat (count (finalizer_queue rt)) + unat (node_count rt)"
proof -
  have g: "gc_wf rt B" using wf by (simp add: heap_wf_def)
  obtain r rt' where r: "zaclr_gc_collect rt = Some (r, rt')" "heap_flags rt' AND ZACLR_HEAP_FLAG_GC_ACTIVE = 0"
    "is_ok r \<Longrightarrow> collected B rt rt'" "pending_objs rt = {} \<Longrightarrow> is_ok r"
    by (rule gc_collect_spec [OF g act lim]) (rule that; assumption)
  show thesis
  proof (rule that [OF r(1,2)])
    assume ok: "is_ok r"
    note c = r(3) [OF ok]
    note o = collected_objs [OF g c]
    let ?q = "finalizer_queue rt'" and ?F = "heap_objs rt - heap_objs rt'"
    let ?B = "moved B (finalizer_queue rt) ?q - ?F"
    have w: "gc_wf rt' ?B" using collected_wf [OF g c] wf by (simp add: heap_wf_def)
    have "nodes rt' \<noteq> 0 \<longrightarrow> nodes rt' \<in> ?B - heap_objs rt' \<and> nodes rt' \<noteq> entries ?q"
      using wf c o(1) by (auto simp: heap_wf_def collected_def moved_def)
    moreover have "\<forall>a \<in> heap_objs rt'. \<not> obj_pinned rt' a" using wf c o(1) by (auto simp: heap_wf_def collected_def)
    ultimately have "heap_wf rt' ?B" using wf w c by (auto simp: heap_wf_def collected_def)
    moreover have "keeps rt rt'"
      unfolding keeps_def
    proof (intro conjI)
      show "heap_objs rt' \<subseteq> heap_objs rt" "gc_roots rt \<subseteq> gc_roots rt'" "node_count rt' = node_count rt"
        using o(1) c by (auto simp: collected_def)
      have "gc_reach (objs rt) (gc_roots rt) \<subseteq> gc_kept rt" unfolding gc_kept_def by (rule gc_reach_mono) simp
      then show "gc_reach (objs rt) (gc_roots rt) \<subseteq> heap_objs rt'" using o(1,2) by auto
      show "\<forall>a \<in> heap_objs rt'. \<exists>m s. objs rt' a = (objs rt a)\<lparr>gc_mark := m, gc_state := s\<rparr>"
        using c by (simp add: collected_def same_body_def)
      have "(\<Sum>i \<in> live_nodes rt'. unat (allocation_size (node rt' i))) = (\<Sum>i \<in> live_nodes rt'. unat (allocation_size (node rt i)))"
        using c by (intro sum.cong) (auto simp: collected_def)
      also have "\<dots> \<le> (\<Sum>i \<in> live_nodes rt. unat (allocation_size (node rt i)))"
        using c by (intro sum_mono2) (auto simp: collected_def)
      finally show "unat (allocated_bytes rt') \<le> unat (allocated_bytes rt)"
        using c g by (simp add: collected_def gc_wf_def gc_counts_def)
    qed
    moreover have "unat (count ?q) \<le> unat (count (finalizer_queue rt)) + unat (node_count rt)" using c by (simp add: collected_def)
    moreover have "node_capacity rt' = node_capacity rt" using c by (simp add: collected_def)
    ultimately show "\<exists>B'. heap_wf rt' B' \<and> keeps rt rt' \<and> node_capacity rt' = node_capacity rt
      \<and> unat (count ?q) \<le> unat (count (finalizer_queue rt)) + unat (node_count rt)" by blast
  qed
qed

subsection \<open>The node table\<close>

lemma double_until_one:
  assumes c: "unat c < TABLE_LIMIT" and le: "unat mn \<le> unat c + 1"
  obtains d where "double_until (if c = 0 then 16 else c) mn = Some (Some d)" and "mn \<le> d" and "unat d < 2 ^ 27"
proof (cases "mn \<le> (if c = 0 then 16 else c)")
  case True
  then show thesis using c
    by (intro that [of "if c = 0 then 16 else c"]) (subst double_until.simps, auto)
next
  case False
  then have c0: "c \<noteq> 0" "c < mn" using le by (auto simp: word_le_nat_alt word_less_nat_alt split: if_splits)
  have d: "unat (c * 2) = 2 * unat c" using c by (intro u32_double) simp
  have "0 < unat c" using c0(1) by (simp add: unat_gt_0)
  then have "mn \<le> c * 2" using le d by (simp add: word_le_nat_alt)
  moreover from this have "double_until (c * 2) mn = Some (Some (c * 2))" by (subst double_until.simps) (auto dest: leD)
  moreover have "\<not> c > 0x7FFFFFFF" using c by (simp add: word_less_nat_alt)
  ultimately show thesis using c0 c d by (intro that [of "c * 2"]) (subst double_until.simps, simp_all)
qed

lemma reserve_nodes_spec:
  assumes wf: "heap_wf rt B" and lim: "unat (node_count rt) + 1 < TABLE_LIMIT"
  obtains r rt' where "zaclr_heap_reserve_nodes (node_count rt + 1) rt = Some (r, rt')"
    and "is_ok r \<Longrightarrow> (\<exists>B'. heap_wf rt' B') \<and> keeps rt rt' \<and> unat (node_count rt') < unat (node_capacity rt')
      \<and> finalizer_queue rt' = finalizer_queue rt \<and> heap_flags rt' = heap_flags rt"
proof (cases "node_count rt + 1 \<le> node_capacity rt")
  case True
  have "unat (node_count rt + 1) = unat (node_count rt) + 1" using lim unat_add_lem [of "node_count rt" 1] by simp
  then show thesis
    using True wf keeps_refl [of rt B rt]
    by (intro that [of zaclr_result_ok rt]) (auto simp: zaclr_heap_reserve_nodes_def heap_wf_def word_le_nat_alt)
next
  case False
  have inc: "unat (node_count rt + 1) = unat (node_count rt) + 1" using lim unat_add_lem [of "node_count rt" 1] by simp
  have g: "gc_wf rt B" and B: "heap_has (kh rt) B" using wf by (simp_all add: heap_wf_def gc_wf_def)
  have "unat (node_capacity rt) < TABLE_LIMIT" "unat (node_count rt + 1) \<le> unat (node_capacity rt) + 1"
    using wf False inc lim by (auto simp: heap_wf_def word_le_nat_alt)
  then obtain d where d: "double_until (if node_capacity rt = 0 then 16 else node_capacity rt) (node_count rt + 1) = Some (Some d)"
    "node_count rt + 1 \<le> d" "unat d < 2 ^ 27"
    using double_until_one by metis
  have "unat (SIZEOF_ZACLR_HEAP_OBJECT_NODE * ucast d :: u64) = 16 * unat d"
    using d(3) by (simp add: unat_word_ariths unat_ucast_u64)
  then have fit: "unat (SIZEOF_ZACLR_HEAP_OBJECT_NODE * ucast d :: u64) \<le> 2 ^ 32 - 32" using d(3) by simp
  obtain p k where a: "kernel_alloc (SIZEOF_ZACLR_HEAP_OBJECT_NODE * ucast d) (kh rt) = Some (p, k)"
    "p = 0 \<Longrightarrow> heap_has k B" "p \<noteq> 0 \<Longrightarrow> p \<notin> B \<and> heap_has k (insert p B)"
    by (rule heap_has_alloc [OF B fit]) (rule that; assumption)
  show thesis
  proof (cases "p = 0")
    case True
    then show thesis using False d a(1)
      by (intro that [of "zaclr_result_make ZACLR_STATUS_OUT_OF_MEMORY ZACLR_STATUS_CATEGORY_HEAP" "rt\<lparr>kh := k\<rparr>"])
        (simp_all add: zaclr_heap_reserve_nodes_def)
  next
    case p: False
    let ?k = "if nodes rt \<noteq> 0 then kernel_free (nodes rt) k else k"
    let ?rt = "rt\<lparr>node := (\<lambda>i. if i < unat (node_count rt) then node rt i else empty_node), kh := ?k, nodes := p, node_capacity := d\<rparr>"
    let ?B = "insert p B - (if nodes rt \<noteq> 0 then {nodes rt} else {})"
    have kB: "heap_has ?k ?B" using a(3) p heap_has_free [of k "insert p B" "nodes rt"] wf by (auto simp: heap_wf_def)
    have lv: "live_nodes ?rt = live_nodes rt" by (auto simp: live_nodes_def)
    have ob: "heap_objs ?rt = heap_objs rt" using lv by (auto simp: heap_objs_def obj_at_def live_nodes_def)
    have rts: "enumerate_runtime_roots ?rt = enumerate_runtime_roots rt" by (simp add: enumerate_runtime_roots_def)
    have "(\<Sum>i \<in> live_nodes rt. unat (allocation_size (node ?rt i))) = (\<Sum>i \<in> live_nodes rt. unat (allocation_size (node rt i)))"
      by (intro sum.cong) (auto simp: live_nodes_def)
    then have cnt: "gc_counts ?rt" using g lv by (simp add: gc_wf_def gc_counts_def)
    have inj: "inj_on (obj_at ?rt) (live_nodes ?rt)"
      using g unfolding lv by (auto simp: gc_wf_def inj_on_def obj_at_def live_nodes_def)
    have "gc_wf ?rt ?B"
      using g kB lv ob rts cnt inj p wf a(3) by (auto simp: gc_wf_def heap_wf_def)
    moreover have "obj_pinned ?rt = obj_pinned rt" by (simp add: obj_pinned_def fun_eq_iff)
    ultimately have "heap_wf ?rt ?B"
      using wf p a(3) d(2) inc ob heap_has_nonzero [OF B] unfolding heap_wf_def
      by (auto simp: word_le_nat_alt gc_wf_def)
    moreover have "keeps rt ?rt" using keeps_refl [OF g, of ?rt] ob rts by (simp add: gc_roots_def)
    moreover have "zaclr_heap_reserve_nodes (node_count rt + 1) rt = Some (zaclr_result_ok, ?rt)"
      using False d(1) a(1) p by (simp add: zaclr_heap_reserve_nodes_def)
    ultimately show thesis using d(2) inc by (intro that [of zaclr_result_ok ?rt]) (auto simp: word_le_nat_alt)
  qed
qed

subsection \<open>The block of the object\<close>

lemma heap_wf_kh: "heap_wf rt B \<Longrightarrow> heap_has k B \<Longrightarrow> heap_wf (rt\<lparr>kh := k\<rparr>) B"
  by (simp add: heap_wf_def gc_wf_def live_nodes_def heap_objs_def obj_at_def [abs_def] gc_counts_def enumerate_runtime_roots_def
      obj_pinned_def)

lemma keeps_kh: "keeps (rt\<lparr>kh := k\<rparr>) rt' = keeps rt rt'"
  by (simp add: keeps_def live_nodes_def heap_objs_def obj_at_def [abs_def] enumerate_runtime_roots_def gc_roots_def)

lemma alloc_block_spec:
  assumes wf: "heap_wf rt B" and act: "heap_flags rt AND ZACLR_HEAP_FLAG_GC_ACTIVE = 0"
    and lim: "unat (count (finalizer_queue rt)) + unat (node_count rt) < TABLE_LIMIT" and sz: "unat sz \<le> 2 ^ 32 - 32"
  obtains r a rt' where "alloc_block sz rt = Some (r, a, rt')"
    and "is_ok r \<Longrightarrow> \<exists>rt1 B1 k. rt' = rt1\<lparr>kh := k\<rparr> \<and> heap_wf rt1 B1 \<and> keeps rt rt1 \<and> node_capacity rt1 = node_capacity rt
      \<and> a \<noteq> 0 \<and> a \<notin> B1 \<and> heap_has k (insert a B1)"
proof -
  have g: "gc_wf rt B" and B: "heap_has (kh rt) B" using wf by (simp_all add: heap_wf_def gc_wf_def)
  obtain a k where a: "kernel_alloc sz (kh rt) = Some (a, k)" "a = 0 \<Longrightarrow> heap_has k B" "a \<noteq> 0 \<Longrightarrow> a \<notin> B \<and> heap_has k (insert a B)"
    by (rule heap_has_alloc [OF B sz]) (rule that; assumption)
  let ?oom = "zaclr_result_make ZACLR_STATUS_OUT_OF_MEMORY ZACLR_STATUS_CATEGORY_HEAP"
  consider "a \<noteq> 0" | "a = 0" "\<not> heap_runtime rt" | "a = 0" "heap_runtime rt" by blast
  then show thesis
  proof cases
    case 1
    then show thesis using a wf keeps_refl [OF g, of rt]
      by (intro that [of zaclr_result_ok a "rt\<lparr>kh := k\<rparr>"]) (auto simp: alloc_block_def)
  next
    case 2
    then show thesis using a by (intro that [of ?oom 0 "rt\<lparr>kh := k\<rparr>"]) (simp_all add: alloc_block_def)
  next
    case 3
    have wk: "heap_wf (rt\<lparr>kh := k\<rparr>) B" using heap_wf_kh [OF wf] a(2) 3 by simp
    obtain r rt' where c: "zaclr_gc_collect (rt\<lparr>kh := k\<rparr>) = Some (r, rt')"
      "is_ok r \<Longrightarrow> \<exists>B'. heap_wf rt' B' \<and> keeps (rt\<lparr>kh := k\<rparr>) rt' \<and> node_capacity rt' = node_capacity (rt\<lparr>kh := k\<rparr>)
        \<and> unat (count (finalizer_queue rt')) \<le> unat (count (finalizer_queue (rt\<lparr>kh := k\<rparr>))) + unat (node_count (rt\<lparr>kh := k\<rparr>))"
      by (rule collect_keeps [OF wk]) (use act lim in simp_all)
    show thesis
    proof (cases "is_ok r")
      case False
      then show thesis using a(1) c(1) 3 act by (intro that [of r 0 rt']) (simp_all add: alloc_block_def)
    next
      case True
      then obtain B' where B': "heap_wf rt' B'" "keeps rt rt'" "node_capacity rt' = node_capacity rt"
        using c(2) keeps_kh [of k rt rt'] by auto
      then have "heap_has (kh rt') B'" by (simp add: heap_wf_def gc_wf_def)
      then obtain b h where b: "kernel_alloc sz (kh rt') = Some (b, h)" "b \<noteq> 0 \<Longrightarrow> b \<notin> B' \<and> heap_has h (insert b B')"
        using heap_has_alloc [OF _ sz] by metis
      show thesis
      proof (cases "b = 0")
        case z: True
        show thesis using a(1) c(1) 3 act True b z by (intro that [of ?oom 0 "rt'\<lparr>kh := h\<rparr>"]) (simp_all add: alloc_block_def)
      next
        case nz: False
        show thesis using a(1) c(1) 3 act True B' b nz
          by (intro that [of zaclr_result_ok b "rt'\<lparr>kh := h\<rparr>"]) (auto simp: alloc_block_def)
      qed
    qed
  qed
qed

subsection \<open>The new object\<close>

lemma read_zero [simp]: "read_u32 (\<lambda>_. 0) a = 0"
  by (simp add: read_u32_def eval_nat_numeral)

lemma value_reference_zero [simp]: "value_reference (stack_value_at (\<lambda>_. 0) a) = []"
  by (simp add: value_reference_def stack_value_at_def zaclr_stack_value_contains_references_def)

lemma new_object_children [simp]: "object_children (new_object sz asm tid fam flags) = []"
  by (auto simp: object_children_def new_object_def array_children_def reference_object_children_def boxed_value_children_def)

lemma place_object_wf:
  assumes wf: "heap_wf rt B" and a: "a \<noteq> 0" "a \<notin> B" "heap_has k (insert a B)" and room: "unat (node_count rt) < unat (node_capacity rt)"
    and bytes: "unat (allocated_bytes rt) + unat sz < 2 ^ 32" and ob: "object_children ob = []" "gc_state ob = ZACLR_OBJECT_GC_STATE_NONE"
  defines "rt' \<equiv> place_object a ob sz (rt\<lparr>kh := k\<rparr>)"
  shows "heap_wf rt' (insert a B)" and "heap_objs rt' = insert a (heap_objs rt)"
proof -
  have g: "gc_wf rt B" using wf by (simp add: heap_wf_def)
  let ?n = "unat (node_count rt)"
  have n1: "unat (node_count rt + 1) = ?n + 1"
    using room unsigned_less [of "node_capacity rt", where ?'a = nat] unat_add_lem [of "node_count rt" 1] by simp
  have node': "node rt' = (node rt)(?n := \<lparr>object = a, allocation_size = ucast sz, used = 1\<rparr>)" by (simp add: rt'_def place_object_def)
  have lv: "live_nodes rt' = insert ?n (live_nodes rt)"
    using n1 a(1) by (auto simp: rt'_def place_object_def live_nodes_def node_live_def less_Suc_eq)
  have nl: "?n \<notin> live_nodes rt" by (simp add: live_nodes_def)
  have at: "obj_at rt' i = (if i = ?n then a else obj_at rt i)" for i using node' by (simp add: obj_at_def)
  have img: "obj_at rt' ` live_nodes rt = heap_objs rt" using nl unfolding heap_objs_def by (intro image_cong) (auto simp: at)
  then show ho: "heap_objs rt' = insert a (heap_objs rt)" using at [of ?n] by (simp add: heap_objs_def [of rt'] lv)
  have new: "a \<notin> heap_objs rt" using g a(2) by (auto simp: gc_wf_def)
  have "inj_on (obj_at rt') (live_nodes rt)" using g nl by (auto simp: gc_wf_def inj_on_def at)
  then have inj: "inj_on (obj_at rt') (live_nodes rt')" using img new nl at [of ?n] by (simp add: lv)
  have size: "unat (ucast sz :: u32) = unat sz" using bytes by (simp add: unsigned_ucast_eq take_bit_nat_eq_self)
  have "(\<Sum>i \<in> live_nodes rt. unat (allocation_size (node rt' i))) = (\<Sum>i \<in> live_nodes rt. unat (allocation_size (node rt i)))"
    using nl node' by (intro sum.cong) auto
  moreover have "card (live_nodes rt) \<le> ?n" using card_mono [of "{..<?n}" "live_nodes rt"] by (auto simp: live_nodes_def)
  moreover have "?n + 1 < 2 ^ 32" using n1 unsigned_less [of "node_count rt + 1", where ?'a = nat] by simp
  moreover have "unat (allocated_bytes rt + ucast sz) = unat (allocated_bytes rt) + unat sz"
    using bytes size unat_add_lem [of "allocated_bytes rt" "ucast sz"] by simp
  ultimately have cnt: "gc_counts rt'"
    using g nl size unat_add_lem [of "live_object_count rt" 1] node' unfolding gc_counts_def lv gc_wf_def
    by (simp add: rt'_def place_object_def)
  have rts: "enumerate_runtime_roots rt' = enumerate_runtime_roots rt"
    by (simp add: rt'_def place_object_def enumerate_runtime_roots_def)
  have os: "objs rt' = (objs rt)(a := ob)" and fq: "finalizer_queue rt' = finalizer_queue rt" "nodes rt' = nodes rt"
    "kh rt' = k" "node_count rt' = node_count rt + 1" "node_capacity rt' = node_capacity rt"
    by (simp_all add: rt'_def place_object_def)
  have "gc_wf rt' (insert a B)"
    using g a inj cnt rts os fq ho ob(1) wf room new unfolding gc_wf_def heap_wf_def by auto
  then show "heap_wf rt' (insert a B)"
    using wf a os fq ho ob(2) n1 room unfolding heap_wf_def by (auto simp: obj_pinned_def word_le_nat_alt)
qed

subsection \<open>Allocation\<close>

text \<open>The result of an allocation: the object is new, and what the heap held before is kept.\<close>

definition gained_object :: "zaclr_runtime \<Rightarrow> zaclr_object_desc \<Rightarrow> zaclr_runtime \<Rightarrow> u64 \<Rightarrow> bool" where
  "gained_object rt ob rt' a \<longleftrightarrow> (\<exists>B'. heap_wf rt' B') \<and> a \<noteq> 0 \<and> objs rt' a = ob \<and> a \<in> heap_objs rt'
     \<and> gc_reach (objs rt) (gc_roots rt) \<subseteq> heap_objs rt' - {a} \<and> heap_objs rt' - {a} \<subseteq> heap_objs rt
     \<and> (\<forall>b \<in> heap_objs rt' - {a}. \<exists>m s. objs rt' b = (objs rt b)\<lparr>gc_mark := m, gc_state := s\<rparr>)"

lemma place_allocated:
  assumes wf: "heap_wf rt1 B" and k: "keeps rt rt1" and a: "a \<noteq> 0" "a \<notin> B" "heap_has h (insert a B)"
    and room: "unat (node_count rt1) < unat (node_capacity rt1)" and bytes: "unat (allocated_bytes rt) + unat sz < 2 ^ 32"
    and ob: "object_children ob = []" "gc_state ob = ZACLR_OBJECT_GC_STATE_NONE"
  shows "gained_object rt ob (place_object a ob sz (rt1\<lparr>kh := h\<rparr>)) a"
proof -
  have "unat (allocated_bytes rt1) + unat sz < 2 ^ 32" using bytes k by (simp add: keeps_def)
  note p = place_object_wf [OF wf a room this ob]
  have "a \<notin> heap_objs rt1" using wf a(2) by (auto simp: heap_wf_def gc_wf_def)
  then have "heap_objs (place_object a ob sz (rt1\<lparr>kh := h\<rparr>)) - {a} = heap_objs rt1" using p(2) by auto
  moreover have "objs (place_object a ob sz (rt1\<lparr>kh := h\<rparr>)) = (objs rt1)(a := ob)" by (simp add: place_object_def)
  ultimately show ?thesis using p k a(1) \<open>a \<notin> heap_objs rt1\<close> unfolding gained_object_def keeps_def by auto
qed

lemma threshold_collect:
  assumes wf: "heap_wf rt B" and act: "heap_flags rt AND ZACLR_HEAP_FLAG_GC_ACTIVE = 0"
    and lim: "unat (count (finalizer_queue rt)) + 2 * unat (node_count rt) < TABLE_LIMIT"
  obtains r rt' where "(if over_threshold sz rt then zaclr_gc_collect rt else Some (zaclr_result_ok, rt)) = Some (r, rt')"
    and "is_ok r \<Longrightarrow> (\<exists>B'. heap_wf rt' B') \<and> keeps rt rt' \<and> heap_flags rt' AND ZACLR_HEAP_FLAG_GC_ACTIVE = 0
      \<and> unat (count (finalizer_queue rt')) + unat (node_count rt') < TABLE_LIMIT"
proof (cases "over_threshold sz rt")
  case True
  have lim1: "unat (count (finalizer_queue rt)) + unat (node_count rt) < TABLE_LIMIT" using lim by simp
  obtain r rt' where r: "zaclr_gc_collect rt = Some (r, rt')" "heap_flags rt' AND ZACLR_HEAP_FLAG_GC_ACTIVE = 0"
    "is_ok r \<Longrightarrow> \<exists>B'. heap_wf rt' B' \<and> keeps rt rt' \<and> node_capacity rt' = node_capacity rt
      \<and> unat (count (finalizer_queue rt')) \<le> unat (count (finalizer_queue rt)) + unat (node_count rt)"
    by (rule collect_keeps [OF wf act lim1]) (rule that; assumption)
  show thesis using True r lim by (intro that [of r rt']) (auto simp: keeps_def)
next
  case False
  have "keeps rt rt" using wf by (intro keeps_refl) (auto simp: heap_wf_def)
  then show thesis using False wf act lim by (intro that [of zaclr_result_ok rt]) auto
qed

lemma alloc_block_allocated:
  assumes wf: "heap_wf rt2 B" and k: "keeps rt rt2" and act: "heap_flags rt2 AND ZACLR_HEAP_FLAG_GC_ACTIVE = 0"
    and lim: "unat (count (finalizer_queue rt2)) + unat (node_count rt2) < TABLE_LIMIT" and sz: "unat sz \<le> 2 ^ 32 - 32"
    and room: "unat (node_count rt2) < unat (node_capacity rt2)" and bytes: "unat (allocated_bytes rt) + unat sz < 2 ^ 32"
    and ob: "object_children ob = []" "gc_state ob = ZACLR_OBJECT_GC_STATE_NONE"
  obtains r a rt3 where "alloc_block sz rt2 = Some (r, a, rt3)" and "is_ok r \<Longrightarrow> gained_object rt ob (place_object a ob sz rt3) a"
proof -
  obtain r a rt3 where b: "alloc_block sz rt2 = Some (r, a, rt3)"
    "is_ok r \<Longrightarrow> \<exists>rt1 B1 h. rt3 = rt1\<lparr>kh := h\<rparr> \<and> heap_wf rt1 B1 \<and> keeps rt2 rt1 \<and> node_capacity rt1 = node_capacity rt2
      \<and> a \<noteq> 0 \<and> a \<notin> B1 \<and> heap_has h (insert a B1)"
    by (rule alloc_block_spec [OF wf act lim sz]) (rule that; assumption)
  show thesis
  proof (rule that [OF b(1)])
    assume "is_ok r"
    then obtain rt1 B1 h where p: "rt3 = rt1\<lparr>kh := h\<rparr>" "heap_wf rt1 B1" "keeps rt2 rt1" "node_capacity rt1 = node_capacity rt2"
      "a \<noteq> 0" "a \<notin> B1" "heap_has h (insert a B1)" using b(2) by blast
    have "unat (node_count rt1) < unat (node_capacity rt1)" using p(3,4) room by (simp add: keeps_def)
    then show "gained_object rt ob (place_object a ob sz rt3) a"
      using place_allocated [OF p(2) keeps_trans [OF k p(3)] p(5-7) _ bytes ob] p(1) by simp
  qed
qed

subsection \<open>An example\<close>

text \<open>
  The objects of \<^const>\<open>sample_runtime\<close> without the third, whose block is the node table instead.
\<close>

definition alloc_runtime :: zaclr_runtime where
  "alloc_runtime = sample_runtime\<lparr>nodes := 0x2000F0, node_count := 2, node_capacity := 5, live_object_count := 2,
     allocated_bytes := 176\<rparr>"

lemma alloc_fields:
  "node alloc_runtime = node sample_runtime" "objs alloc_runtime = objs sample_runtime" "nodes alloc_runtime = 0x2000F0"
  "kh alloc_runtime = sample_kheap" "node_count alloc_runtime = 2" "node_capacity alloc_runtime = 5" "live_object_count alloc_runtime = 2"
  "allocated_bytes alloc_runtime = 176" "finalizer_queue alloc_runtime = empty_table" "heap_flags alloc_runtime = 0"
  "collection_threshold_bytes alloc_runtime = 65536" "enumerate_runtime_roots alloc_runtime = enumerate_runtime_roots sample_runtime"
  by (simp_all add: alloc_runtime_def sample_runtime_def enumerate_runtime_roots_def)

lemma alloc_live: "live_nodes alloc_runtime = {0, 1}" "obj_at alloc_runtime = obj_at sample_runtime"
  "heap_objs alloc_runtime = {0x200010, 0x200080}"
proof -
  have "unat (node_count alloc_runtime) = 2" by (simp add: alloc_fields)
  then show l: "live_nodes alloc_runtime = {0, 1}"
    by (auto simp: live_nodes_def sample_node node_live_def alloc_fields split: if_splits)
  show o: "obj_at alloc_runtime = obj_at sample_runtime" by (simp add: obj_at_def [abs_def] alloc_fields)
  show "heap_objs alloc_runtime = {0x200010, 0x200080}" by (simp add: heap_objs_def l o sample_live)
qed

lemma alloc_runtime_wf: "heap_wf alloc_runtime sample_blocks"
proof -
  have "set (enumerate_runtime_roots alloc_runtime) = {0x200010}" using sample_roots(1) by (simp add: gc_roots_def alloc_fields)
  moreover have "gc_counts alloc_runtime" by (simp add: gc_counts_def alloc_live alloc_fields sample_node)
  moreover have "inj_on (obj_at alloc_runtime) (live_nodes alloc_runtime)" by (simp add: alloc_live sample_live)
  moreover have "\<not> obj_pinned alloc_runtime a" for a using sample_fields(4) [of a] by (simp add: obj_pinned_def alloc_fields)
  ultimately show ?thesis
    using sample_kheap_has
    by (simp add: heap_wf_def gc_wf_def alloc_live sample_children alloc_fields empty_table_def table_wf_def queue_clean_def sample_blocks_def)
qed

lemma alloc_runtime_block: "\<exists>k. kernel_alloc 88 (kh alloc_runtime) = Some (0x200160, k)"
proof -
  let ?h1 = "alloc_box demo_heap"
  let ?h2 = "alloc_box ?h1"
  have h1: "g_heap_current ?h1 = 0x200070" "g_heap_alloc_start ?h1 = 0x200000" "g_heap_end ?h1 = 0xA00000" "g_free_buckets ?h1 = (\<lambda>_. 0)"
    by (simp_all add: alloc_box_def demo_simps)
  have h2: "g_heap_current ?h2 = 0x2000E0" "g_heap_alloc_start ?h2 = 0x200000" "g_heap_end ?h2 = 0xA00000" "g_free_buckets ?h2 = (\<lambda>_. 0)"
    unfolding alloc_box_def [of ?h1] using h1 by (simp_all add: demo_simps)
  have "g_heap_current sample_kheap = 0x200150" "g_heap_alloc_start sample_kheap = 0x200000" "g_heap_end sample_kheap = 0xA00000"
    "g_free_buckets sample_kheap = (\<lambda>_. 0)"
    unfolding sample_kheap_def alloc_box_def [of ?h2] using h2 by (simp_all add: demo_simps)
  then show ?thesis by (simp add: alloc_fields kernel_alloc_def demo_simps)
qed

lemma alloc_runtime_run:
  "\<exists>rt'. zaclr_heap_allocate_object 88 0 7 1 4 0 alloc_runtime = Some (zaclr_result_ok, rt', 0x200160)"
proof -
  have "\<not> over_threshold 88 alloc_runtime" by (simp add: over_threshold_def alloc_fields)
  moreover have "zaclr_heap_reserve_nodes (node_count alloc_runtime + 1) alloc_runtime = Some (zaclr_result_ok, alloc_runtime)"
    by (simp add: zaclr_heap_reserve_nodes_def alloc_fields)
  moreover obtain k where "alloc_block 88 alloc_runtime = Some (zaclr_result_ok, 0x200160, alloc_runtime\<lparr>kh := k\<rparr>)"
    using alloc_runtime_block by (auto simp: alloc_block_def)
  ultimately show ?thesis by (simp add: zaclr_heap_allocate_object_def)
qed

text \<open>
  C4. Allocating an object on a managed heap at rest returns. On success the object is at a new
  address that no surviving object has, with a cleared body, the heap is well formed again, and
  every object that was reachable from the roots is still there with its contents, even when the
  allocation ran the collector on the way; otherwise \<open>*out_object\<close> is NULL, or as it was when the
  requested size is below that of the object header. No object of the heap is pinned here.
\<close>

theorem heap_allocate_object_fresh:
  assumes wf: "heap_wf rt B" and act: "heap_flags rt AND ZACLR_HEAP_FLAG_GC_ACTIVE = 0"
    and lim: "unat (count (finalizer_queue rt)) + 2 * unat (node_count rt) + 1 < 2 ^ 26"
    and sz: "unat sz \<le> 2 ^ 32 - 32" and bytes: "unat (allocated_bytes rt) + unat sz < 2 ^ 32"
  shows "case zaclr_heap_allocate_object sz asm tid fam flags out rt of None \<Rightarrow> False
    | Some (r, rt', a) \<Rightarrow> if is_ok r then gained_object rt (new_object sz asm tid fam flags) rt' a
        else a = (if sz < SIZEOF_ZACLR_OBJECT_DESC then out else 0)"
proof -
  let ?ob = "new_object sz asm tid fam flags"
  have lim2: "unat (count (finalizer_queue rt)) + 2 * unat (node_count rt) < TABLE_LIMIT" using lim by simp
  obtain r1 rt1 where c: "(if over_threshold sz rt then zaclr_gc_collect rt else Some (zaclr_result_ok, rt)) = Some (r1, rt1)"
    "is_ok r1 \<Longrightarrow> (\<exists>B'. heap_wf rt1 B') \<and> keeps rt rt1 \<and> heap_flags rt1 AND ZACLR_HEAP_FLAG_GC_ACTIVE = 0
      \<and> unat (count (finalizer_queue rt1)) + unat (node_count rt1) < TABLE_LIMIT"
    by (rule threshold_collect [OF wf act lim2, of sz]) (rule that; assumption)
  show ?thesis
  proof (cases "sz < SIZEOF_ZACLR_OBJECT_DESC \<or> \<not> is_ok r1")
    case True
    then show ?thesis using c(1) by (auto simp: zaclr_heap_allocate_object_def)
  next
    case ok1: False
    then obtain B1 where B1: "heap_wf rt1 B1" "keeps rt rt1" "heap_flags rt1 AND ZACLR_HEAP_FLAG_GC_ACTIVE = 0"
      "unat (count (finalizer_queue rt1)) + unat (node_count rt1) < TABLE_LIMIT" using c(2) by blast
    have "unat (node_count rt1) + 1 < TABLE_LIMIT" using B1(2) lim by (simp add: keeps_def)
    from B1(1) this obtain r2 rt2 where n: "zaclr_heap_reserve_nodes (node_count rt1 + 1) rt1 = Some (r2, rt2)"
      "is_ok r2 \<Longrightarrow> (\<exists>B'. heap_wf rt2 B') \<and> keeps rt1 rt2 \<and> unat (node_count rt2) < unat (node_capacity rt2)
        \<and> finalizer_queue rt2 = finalizer_queue rt1 \<and> heap_flags rt2 = heap_flags rt1"
      by (rule reserve_nodes_spec) (rule that; assumption)
    show ?thesis
    proof (cases "is_ok r2")
      case False
      then show ?thesis using ok1 c(1) n(1) by (simp add: zaclr_heap_allocate_object_def)
    next
      case ok2: True
      then obtain B2 where B2: "heap_wf rt2 B2" "keeps rt1 rt2" "unat (node_count rt2) < unat (node_capacity rt2)"
        "finalizer_queue rt2 = finalizer_queue rt1" "heap_flags rt2 = heap_flags rt1" using n(2) by blast
      have "heap_flags rt2 AND ZACLR_HEAP_FLAG_GC_ACTIVE = 0" "unat (count (finalizer_queue rt2)) + unat (node_count rt2) < TABLE_LIMIT"
        "gc_state ?ob = ZACLR_OBJECT_GC_STATE_NONE" using B1 B2 by (simp_all add: keeps_def new_object_def)
      from B2(1) keeps_trans [OF B1(2) B2(2)] this(1,2) sz B2(3) bytes new_object_children this(3) obtain r3 a rt3
        where "alloc_block sz rt2 = Some (r3, a, rt3)" "is_ok r3 \<Longrightarrow> gained_object rt ?ob (place_object a ?ob sz rt3) a"
        by (rule alloc_block_allocated) (rule that; assumption)
      then show ?thesis using ok1 ok2 c(1) n(1) by (simp add: zaclr_heap_allocate_object_def)
    qed
  qed
qed

theorem heap_allocate_object_fresh_witness:
  "\<exists>rt'. zaclr_heap_allocate_object 88 0 7 1 4 0 alloc_runtime = Some (zaclr_result_ok, rt', 0x200160)
    \<and> gained_object alloc_runtime (new_object 88 0 7 1 4) rt' 0x200160"
  using heap_allocate_object_fresh [OF alloc_runtime_wf, of 88 0 7 1 4 0] alloc_runtime_run by (auto simp: alloc_fields empty_table_def)

end
